(* ===== verification/Prelude.thy ===== *)
theory Prelude
  imports Main "HOL-Library.Word"
begin

text \<open>
  Shared ground of the RaryOS development: the machine integers of the C sources, the
  counted loops of the C sources as loop combinators with their invariant rules, and the
  facts on words, bits and lists that the component theories use.

  \<^item> \<open>u8\<close>, \<open>u16\<close>, \<open>u32\<close>, \<open>u64\<close> are \<^verbatim>\<open>uint8_t\<close> to \<^verbatim>\<open>uint64_t\<close>; \<^verbatim>\<open>size_t\<close>, \<^verbatim>\<open>uintptr_t\<close> and
    every pointer are \<open>u64\<close> (the kernel is built with \<^verbatim>\<open>-m64\<close>).
  \<^item> \<open>for_loop i n f s\<close> is \<^verbatim>\<open>for (; i < n; i++) s = f(i, s)\<close> on an unsigned counter;
    \<open>for_ctl\<close> is the same loop whose body may leave it early (\<^verbatim>\<open>break\<close>, \<^verbatim>\<open>return\<close>).
\<close>

unbundle bit_operations_syntax

named_theorems word_step \<open>arithmetic of one step of a word-indexed loop\<close>
named_theorems mem_eval \<open>bytewise unfolding of memory accesses, for concrete evaluation\<close>
named_theorems mem_simps \<open>reads after writes in byte-addressed memory\<close>

type_synonym u8 = "8 word"
type_synonym u16 = "16 word"
type_synonym u32 = "32 word"
type_synonym u64 = "64 word"

section \<open>Counted loops\<close>

lemma unat_bound: "unat (w :: 'a::len word) < 2 ^ LENGTH('a)"
  by (fact unsigned_less)

lemma unat_Suc_less [word_step]:
  fixes i n :: "'a::len word"
  assumes "i < n"
  shows "unat (i + 1) = Suc (unat i)"
proof -
  have "unat i < unat n" using assms by (simp add: word_less_nat_alt)
  then have "Suc (unat i) < 2 ^ LENGTH('a)"
    using unat_bound [of n] by linarith
  then show ?thesis
    by (simp add: unat_word_ariths)
qed

function for_loop :: "'a::len word \<Rightarrow> 'a word \<Rightarrow> ('a word \<Rightarrow> 's \<Rightarrow> 's) \<Rightarrow> 's \<Rightarrow> 's" where
  "for_loop i n f s = (if i < n then for_loop (i + 1) n f (f i s) else s)"
  by pat_completeness auto
termination
  by (relation "measure (\<lambda>(i, n, f, s). unat n - unat i)")
     (auto simp: unat_Suc_less word_less_nat_alt)

declare for_loop.simps [simp del]

datatype ('s, 'r) ctl = Next 's | Return 'r

function for_ctl :: "'a::len word \<Rightarrow> 'a word \<Rightarrow> ('a word \<Rightarrow> 's \<Rightarrow> ('s, 'r) ctl) \<Rightarrow> 's \<Rightarrow> ('s, 'r) ctl" where
  "for_ctl i n f s =
     (if i < n then (case f i s of Next s' \<Rightarrow> for_ctl (i + 1) n f s' | Return r \<Rightarrow> Return r)
      else Next s)"
  by pat_completeness auto
termination
  by (relation "measure (\<lambda>(i, n, f, s). unat n - unat i)")
     (auto simp: unat_Suc_less word_less_nat_alt)

declare for_ctl.simps [simp del]

text \<open>Leaving the loop with \<^verbatim>\<open>break\<close> and falling through both continue after it.\<close>

fun after_break :: "('s, 's) ctl \<Rightarrow> 's" where
  "after_break (Next s) = s"
| "after_break (Return s) = s"

lemma word_succ_le:
  fixes i n :: "'a::len word"
  shows "i < n \<Longrightarrow> i + 1 \<le> n"
  by (simp add: word_le_nat_alt word_less_nat_alt unat_Suc_less)

lemma for_loop_empty [simp]: "\<not> i < n \<Longrightarrow> for_loop i n f s = s"
  by (simp add: for_loop.simps)

lemma for_ctl_empty [simp]: "\<not> i < n \<Longrightarrow> for_ctl i n f s = Next s"
  by (simp add: for_ctl.simps)

lemma for_loop_inv:
  assumes "i \<le> n" "P i s"
    and "\<And>j t. i \<le> j \<Longrightarrow> j < n \<Longrightarrow> P j t \<Longrightarrow> P (j + 1) (f j t)"
  shows "P n (for_loop i n f s)"
  using assms
proof (induction i n f s rule: for_loop.induct)
  case (1 i n f s)
  show ?case
  proof (cases "i < n")
    case True
    have le: "i \<le> i + 1" using True
      by (simp add: word_le_nat_alt unat_Suc_less)
    have "P n (for_loop (i + 1) n f (f i s))"
      using True "1.prems" le
      by (intro "1.IH") (auto intro: word_succ_le order_trans)
    then show ?thesis using True by (simp add: for_loop.simps [of i])
  next
    case False
    then show ?thesis using "1.prems" by simp
  qed
qed

text \<open>
  Rule for loops with early exit: \<open>P\<close> is the invariant while the loop runs, \<open>Q\<close> what
  holds of the value it leaves with.
\<close>

lemma for_ctl_inv:
  assumes "i \<le> n" "P i s"
    and step: "\<And>j t t'. i \<le> j \<Longrightarrow> j < n \<Longrightarrow> P j t \<Longrightarrow> f j t = Next t' \<Longrightarrow> P (j + 1) t'"
    and exit: "\<And>j t r. i \<le> j \<Longrightarrow> j < n \<Longrightarrow> P j t \<Longrightarrow> f j t = Return r \<Longrightarrow> Q r"
  shows "case for_ctl i n f s of Next t \<Rightarrow> P n t | Return r \<Rightarrow> Q r"
  using assms
proof (induction i n f s rule: for_ctl.induct)
  case (1 i n f s)
  show ?case
  proof (cases "i < n")
    case False
    then show ?thesis using "1.prems" by simp
  next
    case True
    have le: "i \<le> i + 1" using True
      by (simp add: word_le_nat_alt unat_Suc_less)
    show ?thesis
    proof (cases "f i s")
      case (Next t)
      have "case for_ctl (i + 1) n f t of Next t \<Rightarrow> P n t | Return r \<Rightarrow> Q r"
      proof (rule "1.IH" [OF True Next])
        show "i + 1 \<le> n" using True by (rule word_succ_le)
        show "P (i + 1) t" using "1.prems" True Next by blast
      qed (meson "1.prems" le order_trans)+
      then show ?thesis using True Next by (simp add: for_ctl.simps [of i])
    next
      case (Return r)
      have "Q r" by (rule "1.prems"(4) [OF order_refl True "1.prems"(2) Return])
      then show ?thesis using True Return by (simp add: for_ctl.simps [of i])
    qed
  qed
qed

section \<open>Words, bits and lists\<close>

lemma unat_of_nat_small: "k < 2 ^ LENGTH('a) \<Longrightarrow> unat (of_nat k :: 'a::len word) = k"
  by (simp add: unat_of_nat)

lemma of_nat_less_word:
  fixes w :: "'a::len word"
  assumes "k < unat w"
  shows "of_nat k < w"
proof -
  have "k < 2 ^ LENGTH('a)" using assms unat_bound [of w] by linarith
  then show ?thesis using assms by (simp add: word_less_nat_alt unat_of_nat_small)
qed

text \<open>Offsets below the size of the address space are distinct from any base address.\<close>

lemma add_of_nat_inject:
  fixes a :: "'a::len word"
  assumes "i < 2 ^ LENGTH('a)" "j < 2 ^ LENGTH('a)"
  shows "a + of_nat i = a + of_nat j \<longleftrightarrow> i = j"
  using assms by (metis add_left_cancel unat_of_nat_small)

lemma bit_push_one: "bit (push_bit k (1 :: 'a::len word)) i \<longleftrightarrow> i = k \<and> i < LENGTH('a)"
  by (cases "i = k") (auto simp: bit_simps simp del: push_bit_of_1)

text \<open>Rounding down to a multiple of a power of two, as \<^verbatim>\<open>x & ~(2^k - 1)\<close>.\<close>

lemma unat_and_not_mask:
  fixes x :: "'a::len word"
  assumes "k < LENGTH('a)"
  shows "unat (x AND NOT (mask k)) = 2 ^ k * (unat x div 2 ^ k)"
proof -
  have "x AND NOT (mask k) = push_bit k (drop_bit k x)"
    by (rule bit_word_eqI) (auto simp: bit_simps)
  then have "unat (x AND NOT (mask k)) = unat (push_bit k (drop_bit k x))" by simp
  also have "\<dots> = (unat (drop_bit k x) * 2 ^ k) mod 2 ^ LENGTH('a)"
    using unat_of_nat_small [of "2 ^ k", where 'a = 'a] assms
    by (simp add: push_bit_eq_mult unat_word_ariths)
  also have "unat (drop_bit k x) = unat x div 2 ^ k"
    by (metis drop_bit_nat_def unat_drop_bit_eq)
  also have "(unat x div 2 ^ k * 2 ^ k) mod 2 ^ LENGTH('a) = unat x div 2 ^ k * 2 ^ k"
    using unat_bound [of x] by (intro mod_less) (metis div_times_less_eq_dividend le_less_trans)
  finally show ?thesis by (simp add: mult.commute)
qed

lemma unat_ucast_mod: "unat (ucast (x :: 'a::len word) :: 'b::len word) = unat x mod 2 ^ LENGTH('b)"
  by (simp add: unsigned_ucast_eq take_bit_eq_mod)

lemma unat_add_of_nat:
  fixes x :: "'a::len word"
  assumes "unat x + i < 2 ^ LENGTH('a)"
  shows "unat (x + of_nat i) = unat x + i"
proof -
  have "unat (of_nat i :: 'a word) = i" using assms by (intro unat_of_nat_small) simp
  then show ?thesis using assms by (metis unat_add_lem)
qed

end
