(* ===== verification/Memory.thy ===== *)
theory Memory
  imports Prelude
begin

text \<open>
  The physical memory of the machine. RaryOS runs identity mapped (\<^verbatim>\<open>src/boot/bootmain.s\<close>
  maps the first 4 GB one to one), so the C code reaches page bitmaps, page tables, heap
  headers, firmware tables and the frame buffer through plain pointers. A memory is a
  function from addresses to bytes; multi-byte accesses are little endian, and address
  arithmetic wraps as it does on the machine.

  \<open>rdn k m a\<close> and \<open>wrn k m a v\<close> read and write \<open>k\<close> bytes; \<open>region a n\<close> is the set of the \<open>n\<close>
  addresses from \<open>a\<close> on. \<open>memset\<close> and \<open>memcpy\<close> are the byte loops of \<^verbatim>\<open>src/lib/string.c\<close>.
\<close>

type_synonym mem = "u64 \<Rightarrow> u8"

fun rdn :: "nat \<Rightarrow> mem \<Rightarrow> u64 \<Rightarrow> 'a::len word" where
  "rdn 0 m a = 0"
| "rdn (Suc k) m a = ucast (m a) OR push_bit 8 (rdn k m (a + 1))"

fun wrn :: "nat \<Rightarrow> mem \<Rightarrow> u64 \<Rightarrow> 'a::len word \<Rightarrow> mem" where
  "wrn 0 m a v = m"
| "wrn (Suc k) m a v = wrn k (m(a := ucast v)) (a + 1) (drop_bit 8 v)"

definition rd16 :: "mem \<Rightarrow> u64 \<Rightarrow> u16" where "rd16 m a = rdn 2 m a"
definition rd32 :: "mem \<Rightarrow> u64 \<Rightarrow> u32" where "rd32 m a = rdn 4 m a"
definition rd64 :: "mem \<Rightarrow> u64 \<Rightarrow> u64" where "rd64 m a = rdn 8 m a"
definition wr16 :: "mem \<Rightarrow> u64 \<Rightarrow> u16 \<Rightarrow> mem" where "wr16 m a v = wrn 2 m a v"
definition wr32 :: "mem \<Rightarrow> u64 \<Rightarrow> u32 \<Rightarrow> mem" where "wr32 m a v = wrn 4 m a v"
definition wr64 :: "mem \<Rightarrow> u64 \<Rightarrow> u64 \<Rightarrow> mem" where "wr64 m a v = wrn 8 m a v"

definition region :: "u64 \<Rightarrow> nat \<Rightarrow> u64 set" where
  "region a n = {x. unat (x - a) < n}"

definition memset :: "mem \<Rightarrow> u64 \<Rightarrow> u8 \<Rightarrow> u64 \<Rightarrow> mem" where
  "memset m dst val n = for_loop 0 n (\<lambda>i m. m(dst + i := val)) m"

definition memcpy :: "mem \<Rightarrow> u64 \<Rightarrow> u64 \<Rightarrow> u64 \<Rightarrow> mem" where
  "memcpy m dst src n = for_loop 0 n (\<lambda>i m. m(dst + i := m (src + i))) m"

section \<open>Regions\<close>

lemma in_region_iff: "x \<in> region a n \<longleftrightarrow> unat (x - a) < n"
  by (simp add: region_def)

lemma region_empty [simp]: "region a 0 = {}"
  by (simp add: region_def)

lemma region_mono: "n \<le> k \<Longrightarrow> region a n \<subseteq> region a k"
  by (auto simp: region_def)

lemma in_region_add: "i < n \<Longrightarrow> i < 2 ^ 64 \<Longrightarrow> a + of_nat i \<in> region a n"
  by (simp add: region_def unat_of_nat_small)

lemma region_nth: "x \<in> region a n \<Longrightarrow> \<exists>i < n. i < 2 ^ 64 \<and> x = a + of_nat i"
  using unat_bound [of "x - a"] by (intro exI [of _ "unat (x - a)"]) (simp add: region_def)

lemma region_Suc:
  assumes "Suc k \<le> 2 ^ 64"
  shows "region a (Suc k) = insert a (region (a + 1) k)"
proof (intro set_eqI iffI)
  fix x assume "x \<in> region a (Suc k)"
  then obtain i where i: "i < Suc k" "x = a + of_nat i" using region_nth by blast
  show "x \<in> insert a (region (a + 1) k)"
  proof (cases i)
    case (Suc j)
    then have "x = a + 1 + of_nat j" using i by simp
    moreover have "j < 2 ^ 64" "j < k" using i Suc assms by auto
    ultimately show ?thesis using in_region_add by blast
  qed (use i in simp)
next
  fix x assume x: "x \<in> insert a (region (a + 1) k)"
  show "x \<in> region a (Suc k)"
  proof (cases "x = a")
    case True
    then show ?thesis by (simp add: region_def)
  next
    case False
    then obtain i where i: "i < k" "x = a + 1 + of_nat i" using x region_nth by blast
    then have "x = a + of_nat (Suc i)" by simp
    moreover have "Suc i < Suc k" "Suc i < 2 ^ 64" using i assms by simp_all
    ultimately show ?thesis using in_region_add by blast
  qed
qed

lemma not_in_region_succ:
  assumes "k < 2 ^ 64" shows "a \<notin> region (a + 1) k"
proof
  assume "a \<in> region (a + 1) k"
  then have "unat (a - (a + 1)) < k" by (simp add: region_def)
  moreover have "a - (a + 1) = (-1 :: u64)" by simp
  moreover have "unat (-1 :: u64) = 2 ^ 64 - 1" by (simp add: unsigned_minus_1_eq_mask mask_eq_exp_minus_1)
  ultimately show False using assms by simp
qed

lemma region_unat:
  assumes "x \<in> region a n" "unat a + n \<le> 2 ^ 64"
  shows "unat a \<le> unat x" "unat x < unat a + n"
proof -
  obtain i where i: "i < n" "x = a + of_nat i" using region_nth [OF assms(1)] by blast
  have "unat x = unat a + i"
    unfolding i(2) using i(1) assms(2) by (intro unat_add_of_nat) simp
  then show "unat a \<le> unat x" "unat x < unat a + n" using i(1) by simp_all
qed

lemma region_disjoint:
  assumes "unat x + j \<le> unat y" "unat y + k \<le> 2 ^ 64"
  shows "region x j \<inter> region y k = {}"
proof -
  have "unat x + j \<le> 2 ^ 64" using assms by simp
  then show ?thesis using assms region_unat [of _ x j] region_unat [of _ y k] by fastforce
qed

lemma region_inside: "unat d + k \<le> n \<Longrightarrow> n \<le> 2 ^ 64 \<Longrightarrow> region (a + d) k \<subseteq> region a n"
proof
  fix x assume n: "unat d + k \<le> n" "n \<le> 2 ^ 64" and x: "x \<in> region (a + d) k"
  have "unat (x - (a + d)) < k" using x by (simp add: region_def)
  moreover have "unat (u + d) \<le> unat u + unat d" for u by (simp add: unat_word_ariths)
  from this [of "x - (a + d)"] have "unat (x - a) \<le> unat (x - (a + d)) + unat d" by simp
  ultimately show "x \<in> region a n" using n by (simp add: region_def)
qed

lemma region_offset: "i + k \<le> n \<Longrightarrow> n \<le> 2 ^ 64 \<Longrightarrow> region (a + of_nat i) k \<subseteq> region a n"
proof
  fix x assume h: "i + k \<le> n" "n \<le> 2 ^ 64" "x \<in> region (a + of_nat i) k"
  then obtain j where "j < k" "x = a + of_nat i + of_nat j" using region_nth by blast
  then have "x = a + of_nat (i + j)" "i + j < n" using h by simp_all
  then show "x \<in> region a n" using in_region_add [of "i + j" n a] h by simp
qed

lemma region_offset_disjoint:
  assumes "i + k \<le> j" "j + n \<le> 2 ^ 64"
  shows "region (a + of_nat i) k \<inter> region (a + of_nat j) n = {}"
proof (rule ccontr)
  assume "region (a + of_nat i) k \<inter> region (a + of_nat j) n \<noteq> {}"
  then obtain p q where "p < k" "q < n" "a + of_nat i + of_nat p = a + of_nat j + of_nat q"
    using region_nth by blast
  then have "a + of_nat (i + p) = a + of_nat (j + q)" "i + p < 2 ^ 64" "j + q < 2 ^ 64" "i + p < j + q"
    using assms by (simp_all add: ac_simps)
  then show False using add_of_nat_inject [of "i + p" "j + q" a] by simp
qed

section \<open>Multi-byte accesses\<close>

lemma rdn_cong:
  assumes "\<And>x. x \<in> region a k \<Longrightarrow> m x = m' x" "k \<le> 2 ^ 64"
  shows "(rdn k m a :: 'a::len word) = rdn k m' a"
  using assms
proof (induction k arbitrary: a)
  case (Suc k)
  have "(rdn k m (a + 1) :: 'a word) = rdn k m' (a + 1)"
    using Suc.prems by (intro Suc.IH) (auto simp: region_Suc)
  moreover have "m a = m' a" using Suc.prems by (simp add: region_Suc)
  ultimately show ?case by simp
qed simp

lemma wrn_outside:
  "x \<notin> region a k \<Longrightarrow> k \<le> 2 ^ 64 \<Longrightarrow> wrn k m a v x = m x"
  by (induction k m a v rule: wrn.induct) (auto simp: region_Suc)

lemma wrn_inside:
  assumes "i < k" "k \<le> 2 ^ 64"
  shows "wrn k m a v (a + of_nat i) = ucast (drop_bit (8 * i) v)"
  using assms
proof (induction k m a v arbitrary: i rule: wrn.induct)
  case (2 k m a v)
  show ?case
  proof (cases i)
    case 0
    have "a \<notin> region (a + 1) k" using "2.prems" by (intro not_in_region_succ) simp
    then show ?thesis using 0 "2.prems" by (simp add: wrn_outside)
  next
    case (Suc j)
    then have "wrn k (m(a := ucast v)) (a + 1) (drop_bit 8 v) (a + 1 + of_nat j) =
        ucast (drop_bit (8 * j) (drop_bit 8 v))"
      using "2.prems" by (intro "2.IH") auto
    then show ?thesis using Suc by (simp add: ac_simps)
  qed
qed simp

lemma bit_rdn:
  "bit (rdn k m a :: 'a::len word) i \<longleftrightarrow>
     i < LENGTH('a) \<and> i < 8 * k \<and> bit (m (a + of_nat (i div 8))) (i mod 8)"
proof (induction k arbitrary: a i)
  case (Suc k)
  show ?case
  proof (cases "i < 8")
    case True
    then show ?thesis by (auto simp: bit_simps)
  next
    case False
    then obtain j where j: "i = j + 8" by (metis add.commute le_Suc_ex not_less)
    have "\<not> bit (ucast (m a) :: 'a word) i"
      using False bit_imp_le_length by (auto simp: bit_simps dest!: bit_imp_le_length)
    moreover have "i div 8 = Suc (j div 8)" "i mod 8 = j mod 8" using j by simp_all
    ultimately show ?thesis using Suc.IH [of "a + 1" j] j
      by (auto simp: bit_simps add.assoc dest: bit_imp_le_length)
  qed
qed simp

lemma rdn_wrn_same:
  assumes "8 * k = LENGTH('a::len)" "k \<le> 2 ^ 64"
  shows "rdn k (wrn k m a v) a = (v :: 'a word)"
proof (rule bit_word_eqI)
  fix i assume i: "i < LENGTH('a)"
  have ik: "i div 8 < k" using i assms by linarith
  have "bit (rdn k (wrn k m a v) a :: 'a word) i \<longleftrightarrow>
      bit (wrn k m a v (a + of_nat (i div 8))) (i mod 8)"
    using i assms by (simp add: bit_rdn)
  also have "\<dots> \<longleftrightarrow> bit (ucast (drop_bit (8 * (i div 8)) v) :: u8) (i mod 8)"
    by (simp only: wrn_inside [OF ik assms(2)])
  also have "\<dots> \<longleftrightarrow> bit v i"
    by (simp add: bit_simps)
  finally show "bit (rdn k (wrn k m a v) a :: 'a word) i = bit v i" .
qed

lemma rdn_wrn_disjoint:
  assumes "region a k \<inter> region b j = {}" "k \<le> 2 ^ 64" "j \<le> 2 ^ 64"
  shows "rdn k (wrn j m b v) a = rdn k m a"
  using assms by (intro rdn_cong wrn_outside) auto

lemma rd16_wr16 [mem_simps]: "rd16 (wr16 m a v) a = v"
  by (simp add: rd16_def wr16_def rdn_wrn_same)

lemma rd16_wr16_disjoint:
  "region a 2 \<inter> region b 2 = {} \<Longrightarrow> rd16 (wr16 m b v) a = rd16 m a"
  by (simp add: rd16_def wr16_def rdn_wrn_disjoint)

lemma wr16_outside: "x \<notin> region a 2 \<Longrightarrow> wr16 m a v x = m x"
  by (simp add: wr16_def wrn_outside)

lemma rd32_cong: "(\<And>x. x \<in> region a 4 \<Longrightarrow> m x = m' x) \<Longrightarrow> rd32 m a = rd32 m' a"
  unfolding rd32_def by (rule rdn_cong) simp_all

lemma wr32_outside: "x \<notin> region a 4 \<Longrightarrow> wr32 m a v x = m x"
  by (simp add: wr32_def wrn_outside)

lemma rd32_wr32 [mem_simps]: "rd32 (wr32 m a v) a = v"
  by (simp add: rd32_def wr32_def rdn_wrn_same)

lemma rd64_wr64 [mem_simps]: "rd64 (wr64 m a v) a = v"
  by (simp add: rd64_def wr64_def rdn_wrn_same)

lemma rd64_wr64_disjoint:
  "region a 8 \<inter> region b 8 = {} \<Longrightarrow> rd64 (wr64 m b v) a = rd64 m a"
  by (simp add: rd64_def wr64_def rdn_wrn_disjoint)

lemma wr64_outside: "x \<notin> region a 8 \<Longrightarrow> wr64 m a v x = m x"
  by (simp add: wr64_def wrn_outside)

lemma rd64_cong: "(\<And>x. x \<in> region a 8 \<Longrightarrow> m x = m' x) \<Longrightarrow> rd64 m a = rd64 m' a"
  unfolding rd64_def by (rule rdn_cong) simp_all

lemma bit_rd64: "bit (rd64 m a) i \<longleftrightarrow> i < 64 \<and> bit (m (a + of_nat (i div 8))) (i mod 8)"
  by (auto simp: rd64_def bit_rdn)

lemma wr64_same [mem_simps]: "wr64 m a (rd64 m a) = m"
proof
  fix x
  show "wr64 m a (rd64 m a) x = m x"
  proof (cases "x \<in> region a 8")
    case True
    then obtain i where i: "i < 8" "x = a + of_nat i" using region_nth by blast
    have "bit (wr64 m a (rd64 m a) x) k \<longleftrightarrow> bit (m x) k" if "k < 8" for k
    proof -
      have d: "(8 * i + k) div 8 = i" "(8 * i + k) mod 8 = k" using that by simp_all
      have "bit (wr64 m a (rd64 m a) x) k \<longleftrightarrow> bit (rd64 m a) (8 * i + k)"
        using that i(1) unfolding i(2) wr64_def by (simp add: wrn_inside bit_simps)
      also have "\<dots> \<longleftrightarrow> bit (m x) k"
        using that i(1) unfolding i(2) by (simp add: bit_rd64 d)
      finally show ?thesis .
    qed
    then show ?thesis by (intro bit_word_eqI) simp
  qed (simp add: wr64_outside)
qed

lemma rd16_bytes [mem_eval]: "rd16 m a = ucast (m a) OR push_bit 8 (ucast (m (a + 1)))"
  by (simp add: rd16_def numeral_eq_Suc)

lemma rd32_bytes [mem_eval]:
  "rd32 m a = ucast (m a) OR push_bit 8 (ucast (m (a + 1)) OR
     push_bit 8 (ucast (m (a + 2)) OR push_bit 8 (ucast (m (a + 3)))))"
  by (simp add: rd32_def eval_nat_numeral add.assoc)

lemma rd64_bytes [mem_eval]:
  "rd64 m a = ucast (m a) OR push_bit 8 (ucast (m (a + 1)) OR
     push_bit 8 (ucast (m (a + 2)) OR push_bit 8 (ucast (m (a + 3)) OR
     push_bit 8 (ucast (m (a + 4)) OR push_bit 8 (ucast (m (a + 5)) OR
     push_bit 8 (ucast (m (a + 6)) OR push_bit 8 (ucast (m (a + 7)))))))))"
  by (simp add: rd64_def eval_nat_numeral add.assoc)

lemma wr32_bytes [mem_eval]:
  "wr32 m a v = m(a := ucast v, a + 1 := ucast (drop_bit 8 v), a + 2 := ucast (drop_bit 16 v),
     a + 3 := ucast (drop_bit 24 v))"
  by (simp add: wr32_def eval_nat_numeral add.assoc)

lemma wr64_bytes [mem_eval]:
  "wr64 m a v = m(a := ucast v, a + 1 := ucast (drop_bit 8 v), a + 2 := ucast (drop_bit 16 v),
     a + 3 := ucast (drop_bit 24 v), a + 4 := ucast (drop_bit 32 v),
     a + 5 := ucast (drop_bit 40 v), a + 6 := ucast (drop_bit 48 v),
     a + 7 := ucast (drop_bit 56 v))"
  by (simp add: wr64_def eval_nat_numeral add.assoc)

section \<open>memset and memcpy\<close>

lemma memset_apply:
  "memset m dst val n x = (if x - dst < n then val else m x)"
proof -
  let ?P = "\<lambda>i t. t = (\<lambda>x. if x - dst < i then val else m x)"
  have "?P n (memset m dst val n)"
    unfolding memset_def
  proof (rule for_loop_inv [where P = ?P])
    fix j :: u64 and t
    assume j: "j < n" and t: "?P j t"
    have "x - dst < j + 1 \<longleftrightarrow> x - dst < j \<or> x = dst + j" for x
    proof -
      have "x - dst < j + 1 \<longleftrightarrow> x - dst < j \<or> x - dst = j"
        using unat_Suc_less [OF j]
        by (auto simp: word_less_nat_alt less_Suc_eq word_unat_eq_iff)
      then show ?thesis by (auto simp: algebra_simps)
    qed
    then show "?P (j + 1) (t(dst + j := val))"
      using t by (auto simp: fun_eq_iff)
  qed (simp_all add: fun_eq_iff)
  then show ?thesis by (simp add: fun_eq_iff)
qed

end
