(* ===== verification/Hardware.thy ===== *)
theory Hardware
  imports Memory
begin

text \<open>
  The devices as the kernel sees them, \<^verbatim>\<open>src/arch/x86_64/io.h\<close>: port and register accesses, each
  recorded in \<open>io_log\<close> (newest first). What a read returns is decided by the environment, the
  field \<open>device\<close>, which answers a request from the accesses made so far. Properties of
  devices are hypotheses on \<open>device\<close>.

  \<open>pic_run\<close> and \<open>pit_run\<close> read a log as the 8259A interrupt controllers and the 8254 timer do,
  following their data sheets; they give the programming sequences of the kernel a meaning.
\<close>

section \<open>Accesses\<close>

datatype io =
    Out8 u16 u8 | Out16 u16 u16 | Out32 u16 u32
  | In8 u16 | In16 u16 | In32 u16
  | Mmio_Write u64 u32 | Mmio_Read u64
  | Msr_Write u32 u64 | Msr_Read u32
  | Load_Idt u16 u64 | Software_Int u8 | Set_Interrupts bool | Hlt | Read_Cr2 | Dma_Sync

record hw =
  device :: "io list \<Rightarrow> io \<Rightarrow> u64"
  io_log :: "io list"

definition io_do :: "io \<Rightarrow> 'z hw_scheme \<Rightarrow> 'z hw_scheme" where
  "io_do e s = s\<lparr>io_log := e # io_log s\<rparr>"

definition io_ask :: "io \<Rightarrow> 'z hw_scheme \<Rightarrow> u64 \<times> 'z hw_scheme" where
  "io_ask e s = (device s (io_log s) e, io_do e s)"

definition outb :: "u16 \<Rightarrow> u8 \<Rightarrow> 'z hw_scheme \<Rightarrow> 'z hw_scheme" where "outb port val = io_do (Out8 port val)"
definition outw :: "u16 \<Rightarrow> u16 \<Rightarrow> 'z hw_scheme \<Rightarrow> 'z hw_scheme" where "outw port val = io_do (Out16 port val)"
definition outl :: "u16 \<Rightarrow> u32 \<Rightarrow> 'z hw_scheme \<Rightarrow> 'z hw_scheme" where "outl port val = io_do (Out32 port val)"

definition inb :: "u16 \<Rightarrow> 'z hw_scheme \<Rightarrow> u8 \<times> 'z hw_scheme" where
  "inb port s = map_prod ucast id (io_ask (In8 port) s)"
definition inw :: "u16 \<Rightarrow> 'z hw_scheme \<Rightarrow> u16 \<times> 'z hw_scheme" where
  "inw port s = map_prod ucast id (io_ask (In16 port) s)"
definition inl :: "u16 \<Rightarrow> 'z hw_scheme \<Rightarrow> u32 \<times> 'z hw_scheme" where
  "inl port s = map_prod ucast id (io_ask (In32 port) s)"

definition io_wait :: "'z hw_scheme \<Rightarrow> 'z hw_scheme" where "io_wait = outb 0x80 0"

definition mmio_write :: "u64 \<Rightarrow> u32 \<Rightarrow> 'z hw_scheme \<Rightarrow> 'z hw_scheme" where
  "mmio_write a v = io_do (Mmio_Write a v)"
definition mmio_read :: "u64 \<Rightarrow> 'z hw_scheme \<Rightarrow> u32 \<times> 'z hw_scheme" where
  "mmio_read a s = map_prod ucast id (io_ask (Mmio_Read a) s)"

lemmas port_defs = outb_def outw_def outl_def inb_def inw_def inl_def io_wait_def mmio_write_def mmio_read_def
  io_ask_def io_do_def

lemma io_do_simps [simp]:
  "io_log (io_do e s) = e # io_log s" "device (io_do e s) = device s"
  by (simp_all add: io_do_def)

lemma port_log [simp]:
  "io_log (outb p v8 s) = Out8 p v8 # io_log s" "device (outb p v8 s) = device s"
  "io_log (outw p v16 s) = Out16 p v16 # io_log s" "device (outw p v16 s) = device s"
  "io_log (outl p v32 s) = Out32 p v32 # io_log s" "device (outl p v32 s) = device s"
  "io_log (mmio_write a v32 s) = Mmio_Write a v32 # io_log s" "device (mmio_write a v32 s) = device s"
  "io_log (io_wait s) = Out8 0x80 0 # io_log s" "device (io_wait s) = device s"
  by (simp_all add: port_defs)

text \<open>Only the part of the state that belongs to the devices changes.\<close>

lemma port_more [simp]:
  "hw.more (io_do e s) = hw.more s" "hw.more (outb p v8 s) = hw.more s" "hw.more (outw p v16 s) = hw.more s"
  "hw.more (outl p v32 s) = hw.more s" "hw.more (mmio_write a v32 s) = hw.more s" "hw.more (io_wait s) = hw.more s"
  by (simp_all add: port_defs)

section \<open>Polling\<close>

text \<open>
  \<^verbatim>\<open>for (int i = 0; i < n; i++) if (done(read())) break;\<close> polls at most \<open>n\<close> times; the result tells
  whether the condition was seen.
\<close>

fun poll :: "nat \<Rightarrow> io \<Rightarrow> (u64 \<Rightarrow> bool) \<Rightarrow> 'z hw_scheme \<Rightarrow> bool \<times> 'z hw_scheme" where
  "poll 0 e stop s = (False, s)"
| "poll (Suc n) e stop s =
     (let (v, s) = io_ask e s in if stop v then (True, s) else poll n e stop s)"

lemma poll_frame: "poll n e stop s = (b, s') \<Longrightarrow> hw.more s' = hw.more s \<and> device s' = device s \<and>
    (\<exists>k \<le> n. io_log s' = replicate k e @ io_log s)"
proof (induction n e stop s rule: poll.induct)
  case (2 n e stop s)
  show ?case
  proof (cases "stop (device s (io_log s) e)")
    case True
    then show ?thesis using 2 by (intro conjI exI [of _ 1]) (auto simp: io_ask_def)
  next
    case False
    then have "poll n e stop (io_do e s) = (b, s')" using "2.prems" by (simp add: io_ask_def)
    with "2.IH" False obtain k where k: "k \<le> n" "io_log s' = replicate k e @ e # io_log s"
        "hw.more s' = hw.more s" "device s' = device s"
      by (fastforce simp: io_ask_def)
    then have "io_log s' = replicate (Suc k) e @ io_log s" by (simp add: replicate_app_Cons_same)
    with k show ?thesis by (intro conjI exI [of _ "Suc k"]) simp_all
  qed
qed simp

section \<open>The interrupt controllers and the timer\<close>

text \<open>
  An 8259A: after ICW1 (a command byte with bit 4) the next bytes on its data port are ICW2, the
  vector base, ICW3 and, when ICW1 announces it, ICW4; later data bytes set the mask.
\<close>

record pic =
  pic_expect :: "nat list"
  pic_base :: u8
  pic_cascade :: u8
  pic_8086 :: bool
  pic_mask :: u8

definition pic_command :: "u8 \<Rightarrow> pic \<Rightarrow> pic" where
  "pic_command v p =
     (if bit v 4 then p\<lparr>pic_expect := [2, 3] @ (if bit v 0 then [4] else []), pic_mask := 0\<rparr> else p)"

definition pic_data :: "u8 \<Rightarrow> pic \<Rightarrow> pic" where
  "pic_data v p =
     (case pic_expect p of
        [] \<Rightarrow> p\<lparr>pic_mask := v\<rparr>
      | k # ks \<Rightarrow>
          (if k = 2 then p\<lparr>pic_base := v AND 0xF8\<rparr>
           else if k = 3 then p\<lparr>pic_cascade := v\<rparr> else p\<lparr>pic_8086 := bit v 0\<rparr>)\<lparr>pic_expect := ks\<rparr>)"

definition pic_io :: "u16 \<Rightarrow> io \<Rightarrow> pic \<Rightarrow> pic" where
  "pic_io base e p =
     (case e of
        Out8 port v \<Rightarrow> if port = base then pic_command v p else if port = base + 1 then pic_data v p else p
      | _ \<Rightarrow> p)"

definition pic_run :: "u16 \<Rightarrow> io list \<Rightarrow> pic \<Rightarrow> pic" where
  "pic_run base evs p = foldr (pic_io base) evs p"

text \<open>Channel 0 of the 8254: control words, then the reload value low byte first.\<close>

record pit =
  pit_mode :: nat
  pit_low :: "u8 option"
  pit_reload :: u16

definition pit_io :: "io \<Rightarrow> pit \<Rightarrow> pit" where
  "pit_io e p =
     (case e of
        Out8 port v \<Rightarrow>
          if port = 0x43 \<and> drop_bit 6 v = 0 \<and> drop_bit 4 v AND 3 = 3
          then p\<lparr>pit_mode := unat (drop_bit 1 v AND 7), pit_low := None\<rparr>
          else if port = 0x40 then
            (case pit_low p of
               None \<Rightarrow> p\<lparr>pit_low := Some v\<rparr>
             | Some l \<Rightarrow> p\<lparr>pit_low := None, pit_reload := ucast l OR push_bit 8 (ucast v)\<rparr>)
          else p
      | _ \<Rightarrow> p)"

definition pit_run :: "io list \<Rightarrow> pit \<Rightarrow> pit" where
  "pit_run evs p = foldr pit_io evs p"

end
