(* ===== verification/Input.thy ===== *)
theory Input
  imports Memory
begin

text \<open>
  The keyboard input queue, \<^verbatim>\<open>src/drivers/input.c\<close>: a ring buffer of 256 bytes filled by the
  interrupt handlers (\<^verbatim>\<open>input_push\<close>) and drained by the read system call (\<^verbatim>\<open>input_pop\<close>).
  One slot stays empty to tell a full buffer from an empty one, so it holds 255 bytes; a push
  on a full buffer drops the byte.

  The interface its clients rely on is the locale \<open>byte_queue\<close>: every operation acts on the
  list of pending bytes. The interpretation \<open>iq\<close> discharges it for the ring buffer.
\<close>

section \<open>The ring buffer\<close>

abbreviation INPUT_BUFFER_SIZE :: nat where "INPUT_BUFFER_SIZE \<equiv> 256"

record input_state =
  buffer :: "u8 list"
  head :: u32
  tail :: u32

definition input_init :: "input_state \<Rightarrow> input_state" where
  "input_init s = s\<lparr>head := 0, tail := 0\<rparr>"

definition input_push :: "u8 \<Rightarrow> input_state \<Rightarrow> input_state" where
  "input_push c s =
     (let next = (head s + 1) mod 256
      in if next = tail s then s
         else s\<lparr>buffer := (buffer s)[unat (head s) := c], head := next\<rparr>)"

definition input_pop :: "input_state \<Rightarrow> int \<times> input_state" where
  "input_pop s =
     (if head s = tail s then (-1, s)
      else let c = buffer s ! unat (tail s)
           in (int (unat c), s\<lparr>tail := (tail s + 1) mod 256\<rparr>))"

definition input_available :: "input_state \<Rightarrow> bool" where
  "input_available s \<longleftrightarrow> head s \<noteq> tail s"

definition input_flush :: "input_state \<Rightarrow> input_state" where
  "input_flush s = s\<lparr>head := 0, tail := 0\<rparr>"

text \<open>The indices are in range and the array has its declared size.\<close>

definition input_ok :: "input_state \<Rightarrow> bool" where
  "input_ok s \<longleftrightarrow> length (buffer s) = INPUT_BUFFER_SIZE \<and> head s < 256 \<and> tail s < 256"

text \<open>The pending bytes, oldest first.\<close>

definition pending :: "input_state \<Rightarrow> u8 list" where
  "pending s =
     map (\<lambda>i. buffer s ! ((unat (tail s) + i) mod INPUT_BUFFER_SIZE))
       [0..<(unat (head s) + INPUT_BUFFER_SIZE - unat (tail s)) mod INPUT_BUFFER_SIZE]"

section \<open>The queue interface\<close>

datatype queue_op = Push u8 | Pop

text \<open>
  A run of pushes (from interrupts) and pops (from a reader) in any interleaving: the values
  the pops return, and the final queue.
\<close>

fun queue_run :: "(u8 \<Rightarrow> 'q \<Rightarrow> 'q) \<Rightarrow> ('q \<Rightarrow> int \<times> 'q) \<Rightarrow> queue_op list \<Rightarrow> 'q \<Rightarrow> int list \<times> 'q" where
  "queue_run push pop [] q = ([], q)"
| "queue_run push pop (Push c # ops) q = queue_run push pop ops (push c q)"
| "queue_run push pop (Pop # ops) q =
     (let (v, q1) = pop q; (vs, q2) = queue_run push pop ops q1 in (v # vs, q2))"

text \<open>The abstract queue: a list of at most \<open>cap\<close> bytes.\<close>

definition spec_push :: "nat \<Rightarrow> u8 \<Rightarrow> u8 list \<Rightarrow> u8 list" where
  "spec_push cap c q = (if length q < cap then q @ [c] else q)"

fun spec_pop :: "u8 list \<Rightarrow> int \<times> u8 list" where
  "spec_pop [] = (-1, [])"
| "spec_pop (c # q) = (int (unat c), q)"

locale byte_queue =
  fixes ok :: "'q \<Rightarrow> bool"
    and contents :: "'q \<Rightarrow> u8 list"
    and cap :: nat
    and push :: "u8 \<Rightarrow> 'q \<Rightarrow> 'q"
    and pop :: "'q \<Rightarrow> int \<times> 'q"
    and avail :: "'q \<Rightarrow> bool"
  assumes contents_push: "ok q \<Longrightarrow> contents (push c q) = spec_push cap c (contents q)"
    and contents_pop: "ok q \<Longrightarrow> pop q = (v, q') \<Longrightarrow> spec_pop (contents q) = (v, contents q')"
    and avail_iff: "ok q \<Longrightarrow> avail q \<longleftrightarrow> contents q \<noteq> []"
    and ok_push: "ok q \<Longrightarrow> ok (push c q)"
    and ok_pop: "ok q \<Longrightarrow> pop q = (v, q') \<Longrightarrow> ok q'"
begin

lemma run_refines:
  "ok q \<Longrightarrow> queue_run push pop ops q = (vs, q') \<Longrightarrow>
     ok q' \<and> queue_run (spec_push cap) spec_pop ops (contents q) = (vs, contents q')"
proof (induction ops arbitrary: q vs q')
  case (Cons x ops)
  show ?case
  proof (cases x)
    case (Push c)
    then show ?thesis using Cons.IH [OF ok_push [OF Cons.prems(1)]] Cons.prems
      by (simp add: contents_push)
  next
    case Pop
    obtain v q1 where v: "pop q = (v, q1)" by force
    obtain ws q2 where ws: "queue_run push pop ops q1 = (ws, q2)" by force
    show ?thesis
      using Cons.IH [OF ok_pop [OF Cons.prems(1) v] ws] Cons.prems Pop v ws
        contents_pop [OF Cons.prems(1) v]
      by simp
  qed
qed simp

lemma avail_pop:
  assumes "ok q" "avail q"
  obtains c q' where "pop q = (int (unat c), q')" "contents q = c # contents q'" "ok q'"
proof -
  obtain c cs where cs: "contents q = c # cs"
    using assms avail_iff by (cases "contents q") auto
  obtain v q' where v: "pop q = (v, q')" by force
  show thesis
    using that contents_pop [OF assms(1) v] ok_pop [OF assms(1) v] v cs by auto
qed

lemma pop_empty: "ok q \<Longrightarrow> \<not> avail q \<Longrightarrow> fst (pop q) = -1"
  by (metis avail_iff contents_pop fst_conv spec_pop.simps(1) surj_pair)

end

section \<open>The ring buffer is a queue\<close>

lemma succ_mod_256:
  fixes h :: u32
  assumes "h < 256"
  shows "unat ((h + 1) mod 256) = Suc (unat h) mod 256"
proof -
  have "unat (h + 1) = Suc (unat h)"
    using assms by (rule unat_Suc_less)
  then show ?thesis by (simp add: unat_mod)
qed

lemma ring_mod: "x < 512 \<Longrightarrow> x mod 256 = (if x < 256 then x else x - 256)" for x :: nat
  by (simp add: le_mod_geq)

lemma ring_count_succ:
  fixes h t :: nat
  assumes "h < 256" "t < 256" "Suc h mod 256 \<noteq> t"
  shows "(Suc h mod 256 + 256 - t) mod 256 = Suc ((h + 256 - t) mod 256)"
    and "(t + (h + 256 - t) mod 256) mod 256 = h"
    and "Suc ((h + 256 - t) mod 256) < 256"
  using assms by (auto simp: ring_mod split: if_splits)

lemma ring_count_pred:
  fixes h t :: nat
  assumes "h < 256" "t < 256" "h \<noteq> t"
  shows "(h + 256 - t) mod 256 = Suc ((h + 256 - Suc t mod 256) mod 256)"
  using assms by (auto simp: ring_mod split: if_splits)

lemma ring_slot_distinct:
  fixes h t i :: nat
  assumes "h < 256" "t < 256" "i < (h + 256 - t) mod 256"
  shows "h \<noteq> (t + i) mod 256"
  using assms by (auto simp: ring_mod split: if_splits)

lemma input_ok_indices:
  "input_ok s \<Longrightarrow> length (buffer s) = 256 \<and> unat (head s) < 256 \<and> unat (tail s) < 256"
  by (simp add: input_ok_def word_less_nat_alt)

lemma input_ok_push: "input_ok s \<Longrightarrow> input_ok (input_push c s)"
  by (auto simp: input_ok_def input_push_def Let_def word_less_nat_alt unat_mod)

lemma input_ok_pop: "input_ok s \<Longrightarrow> input_pop s = (v, s') \<Longrightarrow> input_ok s'"
  by (auto simp: input_ok_def input_pop_def Let_def word_less_nat_alt unat_mod split: if_splits)

lemma pending_full:
  assumes "input_ok s"
  shows "(head s + 1) mod 256 = tail s \<longleftrightarrow> \<not> length (pending s) < 255"
proof -
  have "(head s + 1) mod 256 = tail s \<longleftrightarrow> Suc (unat (head s)) mod 256 = unat (tail s)"
    using assms by (simp add: word_unat_eq_iff succ_mod_256 input_ok_def)
  also have "\<dots> \<longleftrightarrow> \<not> (unat (head s) + 256 - unat (tail s)) mod 256 < 255"
    using input_ok_indices [OF assms] by (auto simp: ring_mod split: if_splits)
  finally show ?thesis by (simp add: pending_def)
qed

lemma pending_push:
  assumes "input_ok s"
  shows "pending (input_push c s) = spec_push 255 c (pending s)"
proof (cases "(head s + 1) mod 256 = tail s")
  case True
  then show ?thesis using pending_full [OF assms] by (simp add: input_push_def spec_push_def)
next
  case False
  let ?h = "unat (head s)" and ?t = "unat (tail s)"
  let ?n = "(?h + 256 - ?t) mod 256"
  have idx: "length (buffer s) = 256" "?h < 256" "?t < 256"
    using input_ok_indices [OF assms] by auto
  have nt: "Suc ?h mod 256 \<noteq> ?t"
    using False assms by (simp add: word_unat_eq_iff succ_mod_256 input_ok_def)
  note cnt = ring_count_succ [OF idx(2,3) nt]
  have h': "unat ((head s + 1) mod 256) = Suc ?h mod 256"
    using assms by (simp add: succ_mod_256 input_ok_def)
  have "pending (input_push c s) =
      map (\<lambda>i. (buffer s)[?h := c] ! ((?t + i) mod 256)) [0..<Suc ?n]"
    using False by (simp add: input_push_def pending_def h' cnt(1))
  also have "\<dots> = pending s @ [c]"
    using idx cnt(2) by (auto simp: pending_def ring_slot_distinct [OF idx(2,3)])
  finally show ?thesis using False pending_full [OF assms] by (simp add: spec_push_def)
qed

lemma pending_pop:
  assumes "input_ok s" "input_pop s = (v, s')"
  shows "spec_pop (pending s) = (v, pending s')"
proof (cases "head s = tail s")
  case True
  then have "pending s = []" by (simp add: pending_def)
  then show ?thesis using True assms by (simp add: input_pop_def)
next
  case False
  let ?h = "unat (head s)" and ?t = "unat (tail s)"
  have idx: "length (buffer s) = 256" "?h < 256" "?t < 256" "?h \<noteq> ?t"
    using input_ok_indices [OF assms(1)] False by (auto simp: word_unat_eq_iff)
  have t': "unat ((tail s + 1) mod 256) = Suc ?t mod 256"
    using assms by (simp add: succ_mod_256 input_ok_def)
  note cnt = ring_count_pred [OF idx(2-4)]
  have s': "v = int (unat (buffer s ! ?t))" "s' = s\<lparr>tail := (tail s + 1) mod 256\<rparr>"
    using assms False by (simp_all add: input_pop_def Let_def)
  have "pending s = buffer s ! ?t # pending s'"
    using idx by (simp add: pending_def s' t' cnt upt_conv_Cons map_Suc_upt [symmetric]
        mod_add_left_eq mod_add_right_eq comp_def del: upt_Suc)
  then show ?thesis using s' by simp
qed

lemma available_pending: "input_ok s \<Longrightarrow> input_available s \<longleftrightarrow> pending s \<noteq> []"
proof -
  assume ok: "input_ok s"
  have "unat (head s) = unat (tail s) \<longleftrightarrow>
      (unat (head s) + 256 - unat (tail s)) mod 256 = 0"
    using input_ok_indices [OF ok] by (subst ring_mod) auto
  then show ?thesis by (simp add: pending_def input_available_def word_unat_eq_iff)
qed

interpretation iq: byte_queue input_ok pending 255 input_push input_pop input_available
  by unfold_locales
    (auto simp: pending_push pending_pop available_pending input_ok_push intro: input_ok_pop)

section \<open>Properties\<close>

definition empty_input :: input_state where
  "empty_input = \<lparr>buffer = replicate 256 0, head = 0, tail = 0\<rparr>"

text \<open>
  C11: under any interleaving of pushes by interrupt handlers and pops by a reader, the ring
  buffer behaves as a first-in first-out queue of at most 255 bytes: the pops return the
  same values and the pending bytes are the same as for the list, and the indices stay in
  range.
\<close>

theorem input_queue_refines:
  assumes "input_ok s" "queue_run input_push input_pop ops s = (vs, s')"
  shows "input_ok s' \<and>
    queue_run (spec_push 255) spec_pop ops (pending s) = (vs, pending s')"
  by (rule iq.run_refines [OF assms])

theorem input_queue_refines_witness:
  "\<exists>s'. queue_run input_push input_pop [Push 65, Push 66, Pop, Pop, Pop] empty_input =
     ([65, 66, -1], s') \<and> pending s' = []"
proof -
  let ?ops = "[Push 65, Push 66, Pop, Pop, Pop]"
  obtain vs s' where r: "queue_run input_push input_pop ?ops empty_input = (vs, s')"
    using prod.exhaust by blast
  have "input_ok empty_input" by (simp add: input_ok_def empty_input_def)
  from input_queue_refines [OF this r]
  have "queue_run (spec_push 255) spec_pop ?ops [] = (vs, pending s')"
    by (simp add: pending_def empty_input_def)
  then show ?thesis using r by (simp add: spec_push_def)
qed

end
