(* ===== verification/Idt.thy ===== *)
theory Idt
  imports Hardware Input
begin

text \<open>
  Interrupt entry, \<^verbatim>\<open>src/arch/x86_64/idt.c\<close> and \<^verbatim>\<open>idt.h\<close>: the interrupt descriptor table, the saved
  registers, the programming of the interrupt controllers, and the PS/2 keyboard handler. The
  assembly stubs are known only by their addresses, which are parameters.
\<close>

section \<open>The descriptor table\<close>

record idt_entry =
  base_low :: u16
  sel :: u16
  ist :: u8
  flags :: u8
  base_mid :: u16
  base_high :: u32
  reserved :: u32

record idt_ptr =
  limit :: u16
  base :: u64

record regs =
  r15 :: u64
  r14 :: u64
  r13 :: u64
  r12 :: u64
  r11 :: u64
  r10 :: u64
  r9 :: u64
  r8 :: u64
  rdi :: u64
  rsi :: u64
  rbp :: u64
  rbx :: u64
  rdx :: u64
  rcx :: u64
  rax :: u64
  vector :: u64
  error :: u64
  rip :: u64
  cs_reg :: u64
  rflags :: u64
  rsp :: u64
  ss_reg :: u64

type_synonym idt_table = "u8 \<Rightarrow> idt_entry"

definition idt_set_gate :: "u8 \<Rightarrow> u64 \<Rightarrow> u16 \<Rightarrow> u8 \<Rightarrow> idt_table \<Rightarrow> idt_table" where
  "idt_set_gate num b s f idt = idt(num :=
     \<lparr>base_low = ucast (b AND 0xFFFF), sel = s, ist = 0, flags = f,
      base_mid = ucast (drop_bit 16 b AND 0xFFFF), base_high = ucast (drop_bit 32 b AND 0xFFFFFFFF),
      reserved = 0\<rparr>)"

abbreviation IDT_ENTRIES :: u32 where "IDT_ENTRIES \<equiv> 256"
abbreviation IRQ_STUB_COUNT :: u32 where "IRQ_STUB_COUNT \<equiv> 48"

text \<open>
  \<open>isr\<close>, \<open>irq\<close> and \<open>isr128\<close> are the stub tables of the assembly files, \<open>idt_addr\<close> and \<open>ptr_addr\<close> the
  addresses of \<^verbatim>\<open>idt\<close> and \<^verbatim>\<open>idt_ptr\<close>. \<^verbatim>\<open>idt_flush\<close> loads the table register.
\<close>

definition fill_idt :: "(u32 \<Rightarrow> u64) \<Rightarrow> (u32 \<Rightarrow> u64) \<Rightarrow> u64 \<Rightarrow> idt_table \<Rightarrow> idt_table" where
  "fill_idt isr irq isr128 idt =
     (let idt = for_loop 0 IDT_ENTRIES (\<lambda>i. idt_set_gate (ucast i) 0 0 0) idt;
          idt = for_loop 0 32 (\<lambda>i. idt_set_gate (ucast i) (isr i) 0x08 0x8E) idt;
          idt = for_loop 0 IRQ_STUB_COUNT (\<lambda>i. idt_set_gate (ucast (32 + i)) (irq i) 0x08 0x8E) idt
      in idt_set_gate 0x80 isr128 0x08 0xEE idt)"

definition init_idt ::
  "(u32 \<Rightarrow> u64) \<Rightarrow> (u32 \<Rightarrow> u64) \<Rightarrow> u64 \<Rightarrow> u64 \<Rightarrow> idt_table \<Rightarrow> 'z hw_scheme \<Rightarrow> idt_ptr \<times> idt_table \<times> 'z hw_scheme" where
  "init_idt isr irq isr128 idt_addr idt s =
     (let p = \<lparr>limit = 16 * 256 - 1, base = idt_addr\<rparr>
      in (p, fill_idt isr irq isr128 idt, io_do (Load_Idt (limit p) (base p)) s))"

section \<open>The interrupt controllers\<close>

definition pic_remap :: "'z hw_scheme \<Rightarrow> 'z hw_scheme" where
  "pic_remap s =
     (let s = io_wait (outb 0x20 0x11 s);
          s = io_wait (outb 0xA0 0x11 s);
          s = io_wait (outb 0x21 0x20 s);
          s = io_wait (outb 0xA1 0x28 s);
          s = io_wait (outb 0x21 0x04 s);
          s = io_wait (outb 0xA1 0x02 s);
          s = io_wait (outb 0x21 0x01 s);
          s = io_wait (outb 0xA1 0x01 s)
      in outb 0xA1 0xFF (outb 0x21 0xFF s))"

section \<open>The PS/2 keyboard\<close>

definition keyboard_map :: "u8 list" where
  "keyboard_map =
     [0, 27, 0x31, 0x32, 0x33, 0x34, 0x35, 0x36, 0x37, 0x38, 0x39, 0x30, 0x2D, 0x3D, 0x08,
      0x09, 0x71, 0x77, 0x65, 0x72, 0x74, 0x79, 0x75, 0x69, 0x6F, 0x70, 0x5B, 0x5D, 0x0A,
      0, 0x61, 0x73, 0x64, 0x66, 0x67, 0x68, 0x6A, 0x6B, 0x6C, 0x3B, 0x27, 0x60, 0,
      0x5C, 0x7A, 0x78, 0x63, 0x76, 0x62, 0x6E, 0x6D, 0x2C, 0x2E, 0x2F, 0, 0x2A, 0, 0x20] @ replicate 70 0"

text \<open>The character a scan code stands for, 0 when the handler ignores it.\<close>

definition scancode_char :: "u8 \<Rightarrow> u8" where
  "scancode_char scancode =
     (if scancode AND 0x80 \<noteq> 0 then 0
      else if 0 < scancode \<and> scancode < 58 then keyboard_map ! unat scancode else 0)"

definition ps2_keyboard_handler :: "input_state \<Rightarrow> 'z hw_scheme \<Rightarrow> input_state \<times> 'z hw_scheme" where
  "ps2_keyboard_handler q s =
     (let (scancode, s) = inb 0x60 s in
      if scancode AND 0x80 \<noteq> 0 then (q, s)
      else if 0 < scancode \<and> scancode < 58 then
        (let ascii_char = keyboard_map ! unat scancode
         in if ascii_char \<noteq> 0 then (input_push ascii_char q, s) else (q, s))
      else (q, s))"

section \<open>Gates\<close>

text \<open>How the processor reads a gate: the handler address and the privilege it can be called from.\<close>

definition gate_base :: "idt_entry \<Rightarrow> u64" where
  "gate_base g = ucast (base_low g) OR push_bit 16 (ucast (base_mid g)) OR push_bit 32 (ucast (base_high g))"

definition gate_present :: "idt_entry \<Rightarrow> bool" where "gate_present g \<longleftrightarrow> bit (flags g) 7"
definition gate_dpl :: "idt_entry \<Rightarrow> nat" where "gate_dpl g = unat (drop_bit 5 (flags g) AND 3)"
definition gate_type :: "idt_entry \<Rightarrow> nat" where "gate_type g = unat (flags g AND 0xF)"


definition gate_view :: "idt_entry \<Rightarrow> (u64 \<times> u16 \<times> nat \<times> nat) option" where
  "gate_view g = (if gate_present g then Some (gate_base g, sel g, gate_dpl g, gate_type g) else None)"

text \<open>
  What the table is to hold: exceptions and interrupts enter ring 0 through interrupt gates
  (type 14) that user code cannot call, except the system call vector.
\<close>

definition gate_spec :: "(u32 \<Rightarrow> u64) \<Rightarrow> (u32 \<Rightarrow> u64) \<Rightarrow> u64 \<Rightarrow> u8 \<Rightarrow> (u64 \<times> u16 \<times> nat \<times> nat) option" where
  "gate_spec isr irq isr128 v =
     (if v < 32 then Some (isr (ucast v), 0x08, 0, 14)
      else if v < 80 then Some (irq (ucast v - 32), 0x08, 0, 14)
      else if v = 0x80 then Some (isr128, 0x08, 3, 14)
      else None)"

definition gate :: "u64 \<Rightarrow> u16 \<Rightarrow> u8 \<Rightarrow> idt_entry" where
  "gate b s f = idt_set_gate 0 b s f (\<lambda>_. undefined) 0"

lemma set_gate: "idt_set_gate num b s f idt = idt(num := gate b s f)"
  by (simp add: idt_set_gate_def gate_def)

lemma low_masks: "(0xFFFF :: u64) = mask 16" "(0xFFFFFFFF :: u64) = mask 32"
  by (simp_all add: mask_eq_exp_minus_1)

lemma gate_base: "gate_base (gate b s f) = b"
proof (rule bit_word_eqI)
  fix n :: nat assume "n < LENGTH(64)"
  then consider "n < 16" | "16 \<le> n" "n < 32" | "32 \<le> n" "n < 64" by force
  then show "bit (gate_base (gate b s f)) n \<longleftrightarrow> bit b n"
    by cases (auto simp: gate_base_def gate_def idt_set_gate_def low_masks bit_simps)
qed

lemma gate_fields [simp]: "sel (gate b s f) = s" "flags (gate b s f) = f"
  by (simp_all add: gate_def idt_set_gate_def)

lemma gate_loop:
  fixes k n :: u32
  assumes "unat k + unat n \<le> 256"
  shows "for_loop 0 n (\<lambda>i. idt_set_gate (ucast (k + i)) (b i) s f) t v =
    (if unat k \<le> unat v \<and> unat v < unat k + unat n then gate (b (ucast v - k)) s f else t v)"
proof -
  let ?P = "\<lambda>i t'. \<forall>v. t' v =
    (if unat k \<le> unat v \<and> unat v < unat k + unat (i :: u32) then gate (b (ucast v - k)) s f else t v)"
  have "?P n (for_loop 0 n (\<lambda>i. idt_set_gate (ucast (k + i)) (b i) s f) t)"
  proof (rule for_loop_inv [where P = ?P])
    fix j t' assume j: "j < n" and inv: "?P j t'"
    have "unat j < unat n" using j by (simp add: word_less_nat_alt)
    then have kj: "unat (k + j) = unat k + unat j" using assms
      by (intro unat_add_lem [THEN iffD1]) simp
    then have c: "unat (ucast (k + j) :: u8) = unat k + unat j"
      using \<open>unat j < unat n\<close> assms by (simp add: unat_ucast_mod)
    have j': "ucast (ucast (k + j) :: u8) - k = j"
    proof -
      have "(ucast (ucast (k + j) :: u8) :: u32) = k + j"
        using c kj by (intro word_unat_eq_iff [THEN iffD2]) (simp add: unat_ucast_mod)
      then show ?thesis by simp
    qed
    show "?P (j + 1) (idt_set_gate (ucast (k + j)) (b j) s f t')"
    proof
      fix v :: u8
      show "idt_set_gate (ucast (k + j)) (b j) s f t' v =
        (if unat k \<le> unat v \<and> unat v < unat k + unat (j + 1) then gate (b (ucast v - k)) s f else t v)"
      proof (cases "v = ucast (k + j)")
        case True
        then show ?thesis using c j' by (simp add: set_gate unat_Suc_less [OF j])
      next
        case False
        then have "unat v \<noteq> unat k + unat j" using c by (metis unsigned_word_eqI)
        then show ?thesis using False inv by (auto simp: set_gate unat_Suc_less [OF j])
      qed
    qed
  qed auto
  then show ?thesis by blast
qed

lemma fill_idt_view: "gate_view (fill_idt isr irq isr128 idt v) = gate_spec isr irq isr128 v"
proof -
  have n: "unat (256 :: u32) = 256" "unat (32 :: u32) = 32" "unat (48 :: u32) = 48" by simp_all
  have v: "unat v < 256" using unat_bound [of v] by simp
  show ?thesis
    using gate_loop [of 0 256 "\<lambda>_. 0" 0 0 idt] gate_loop [of 0 32 isr "0x08" "0x8E"]
      gate_loop [of 32 48 irq "0x08" "0x8E"] v
    by (auto simp: fill_idt_def Let_def n set_gate gate_spec_def gate_view_def gate_present_def
        gate_base gate_dpl_def gate_type_def word_less_nat_alt)
qed

section \<open>Properties\<close>

text \<open>
  C25: after \<^verbatim>\<open>init_idt\<close> the loaded table covers all 256 vectors, and read as the processor reads
  it, holds exactly the exception stubs, the interrupt stubs and the system call stub, each
  with the address it was given; only vector 0x80 can be invoked from user mode.
\<close>

theorem init_idt_correct:
  "(case init_idt isr irq isr128 idt_addr idt s of (p, idt', s') \<Rightarrow>
      (\<forall>v. gate_view (idt' v) = gate_spec isr irq isr128 v) \<and>
      unat (limit p) + 1 = 16 * 256 \<and> io_log s' = Load_Idt (limit p) idt_addr # io_log s)"
  by (simp add: init_idt_def Let_def fill_idt_view)

end
