(* ===== verification/Irq.thy ===== *)
theory Irq
  imports Idt
begin

text \<open>
  Interrupt dispatch, \<^verbatim>\<open>src/arch/x86_64/irq.c\<close>: a table of 256 handlers with a name and a count. A
  function pointer is the name of the function (\<open>irq_handler\<close> lists the handlers the kernel
  registers) and is called through \<open>run\<close>.

  Handlers that leave the table alone form the locale \<open>irq_handlers\<close>: under it, any sequence of
  registrations, removals and interrupts acts on each vector as the small machine \<open>vector_step\<close>
  does. The kernel's handlers are an interpretation of it (theory Kernel).
\<close>

section \<open>The table\<close>

datatype irq_handler = Pit_handler | Ps2_keyboard_handler | Lapic_timer_handler | Usb_handler_c

record irq_entry =
  handler :: "irq_handler option"
  irq_name :: "string option"
  irq_count :: u64

record irq = hw +
  irq_table :: "u8 \<Rightarrow> irq_entry"

definition irq_init :: "'z irq_scheme \<Rightarrow> 'z irq_scheme" where
  "irq_init s = s\<lparr>irq_table := for_loop 0 (256 :: u32)
     (\<lambda>i t. t(ucast i := \<lparr>handler = None, irq_name = None, irq_count = 0\<rparr>)) (irq_table s)\<rparr>"

definition irq_register :: "u8 \<Rightarrow> irq_handler \<Rightarrow> string \<Rightarrow> 'z irq_scheme \<Rightarrow> int \<times> 'z irq_scheme" where
  "irq_register vec h n s =
     (if handler (irq_table s vec) \<noteq> None then (-1, s)
      else (0, s\<lparr>irq_table := (irq_table s)(vec := \<lparr>handler = Some h, irq_name = Some n, irq_count = 0\<rparr>)\<rparr>))"

definition irq_unregister :: "u8 \<Rightarrow> 'z irq_scheme \<Rightarrow> 'z irq_scheme" where
  "irq_unregister vec s =
     s\<lparr>irq_table := (irq_table s)(vec := (irq_table s vec)\<lparr>handler := None, irq_name := None\<rparr>)\<rparr>"

definition irq_ack :: "u8 \<Rightarrow> 'z irq_scheme \<Rightarrow> 'z irq_scheme" where
  "irq_ack v s =
     (if 32 \<le> v \<and> v < 48 then outb 0x20 0x20 (if 40 \<le> v then outb 0xA0 0x20 s else s)
      else if 48 \<le> v then mmio_write 0xFEE000B0 0 s
      else s)"

definition irq_dispatch ::
  "(irq_handler \<Rightarrow> regs \<Rightarrow> 'z irq_scheme \<Rightarrow> 'z irq_scheme) \<Rightarrow> regs \<Rightarrow> 'z irq_scheme \<Rightarrow> 'z irq_scheme" where
  "irq_dispatch run r s =
     (let v = ucast (vector r); s = irq_ack v s in
      case handler (irq_table s v) of
        None \<Rightarrow> s
      | Some h \<Rightarrow>
          run h r (s\<lparr>irq_table := (irq_table s)(v := (irq_table s v)\<lparr>irq_count := irq_count (irq_table s v) + 1\<rparr>)\<rparr>))"

definition irq_get_count :: "u8 \<Rightarrow> 'z irq_scheme \<Rightarrow> u64" where
  "irq_get_count vec s = irq_count (irq_table s vec)"

definition irq_get_name :: "u8 \<Rightarrow> 'z irq_scheme \<Rightarrow> string option" where
  "irq_get_name vec s = irq_name (irq_table s vec)"

section \<open>One vector at a time\<close>

datatype irq_op = Register u8 irq_handler string | Unregister u8 | Interrupt regs

fun irq_op_run ::
  "(irq_handler \<Rightarrow> regs \<Rightarrow> 'z irq_scheme \<Rightarrow> 'z irq_scheme) \<Rightarrow> irq_op \<Rightarrow> 'z irq_scheme \<Rightarrow> 'z irq_scheme" where
  "irq_op_run run (Register v h n) s = snd (irq_register v h n s)"
| "irq_op_run run (Unregister v) s = irq_unregister v s"
| "irq_op_run run (Interrupt r) s = irq_dispatch run r s"

text \<open>
  What an operation does to the entry of vector \<open>v\<close>: only operations on \<open>v\<close> count, the first
  registration wins until it is removed, and the interrupts are counted from it on.
\<close>

fun vector_step :: "u8 \<Rightarrow> irq_op \<Rightarrow> irq_entry \<Rightarrow> irq_entry" where
  "vector_step v (Register w h n) e =
     (if w = v \<and> handler e = None then \<lparr>handler = Some h, irq_name = Some n, irq_count = 0\<rparr> else e)"
| "vector_step v (Unregister w) e = (if w = v then e\<lparr>handler := None, irq_name := None\<rparr> else e)"
| "vector_step v (Interrupt r) e =
     (if ucast (vector r) = v \<and> handler e \<noteq> None then e\<lparr>irq_count := irq_count e + 1\<rparr> else e)"

lemma irq_ack_simps [simp]:
  "irq_table (irq_ack v s) = irq_table s" "device (irq_ack v s) = device s"
  "irq.more (irq_ack v s) = irq.more s"
  by (simp_all add: irq_ack_def port_defs)

lemma irq_init_table: "irq_table (irq_init s) v = \<lparr>handler = None, irq_name = None, irq_count = 0\<rparr>"
proof -
  let ?e = "\<lparr>handler = None, irq_name = None, irq_count = 0\<rparr>"
  let ?P = "\<lambda>(i :: u32) t. \<forall>v :: u8. unat v < unat i \<longrightarrow> t v = ?e"
  have "?P (256 :: u32) (for_loop 0 (256 :: u32) (\<lambda>i t. t(ucast i := ?e)) (irq_table s))"
  proof (rule for_loop_inv [where P = ?P])
    fix j :: u32 and t assume j: "j < 256" and inv: "?P j t"
    have u: "unat j < 256" using j by (simp add: word_less_nat_alt)
    show "?P (j + 1) (t(ucast j := ?e))"
    proof (intro allI impI)
      fix v :: u8 assume "unat v < unat (j + 1)"
      then consider "unat v < unat j" | "unat v = unat j" by (auto simp: unat_Suc_less [OF j] less_Suc_eq)
      then show "(t(ucast j := ?e)) v = ?e"
      proof cases
        case 2
        then have "v = ucast j" using u by (intro word_unat_eq_iff [THEN iffD2]) (simp add: unat_ucast_mod)
        then show ?thesis by simp
      qed (use inv in simp)
    qed
  qed auto
  then show ?thesis using unat_bound [of v] by (simp add: irq_init_def)
qed

locale irq_handlers =
  fixes run :: "irq_handler \<Rightarrow> regs \<Rightarrow> 'z irq_scheme \<Rightarrow> 'z irq_scheme"
  assumes run_table: "irq_table (run h r s) = irq_table s"
begin

lemma dispatch_table:
  "irq_table (irq_dispatch run r s) v = vector_step v (Interrupt r) (irq_table s v)"
  by (auto simp: irq_dispatch_def Let_def run_table split: option.split)

lemma op_table: "irq_table (irq_op_run run x s) v = vector_step v x (irq_table s v)"
  by (cases x) (auto simp: dispatch_table irq_register_def irq_unregister_def simp del: vector_step.simps(3))

lemma history: "irq_table (fold (irq_op_run run) ops s) v = fold (vector_step v) ops (irq_table s v)"
  by (induction ops arbitrary: s) (simp_all add: op_table)

end

end
