(* ===== verification/Multiboot.thy ===== *)
theory Multiboot
  imports Memory
begin

text \<open>
  Boot information. \<^verbatim>\<open>src/boot/multiboot.h\<close> and \<^verbatim>\<open>src/boot/multiboot2.h\<close> give the two layouts;
  \<^verbatim>\<open>convert_mb2_to_mb1\<close> of \<^verbatim>\<open>src/kernel/kernel.c\<close> walks the Multiboot2 tags the boot loader left
  in memory and fills the Multiboot1 structure \<^verbatim>\<open>g_mb_info\<close> and the array \<^verbatim>\<open>g_mmap_buffer\<close> that
  the rest of the kernel reads.

  \<^verbatim>\<open>g_mb_info\<close> is a C object of its own and is a record here. \<^verbatim>\<open>g_mmap_buffer\<close> is later read
  through a raw pointer, so it lives in memory, at the address given as a parameter (the
  linker chooses it). The tag walk may not end (a tag of size 0), so it is a partial
  function; \<open>None\<close> is a walk that never returns.

  The specification is what the boot loader says: a list of \<open>boot_tag\<close>, encoded in memory by \<open>tags_at\<close>;
  \<open>boot_info\<close> and \<open>kept_ranges\<close> are what the kernel must make of it. The proof follows the walk tag by
  tag (\<open>walked\<close>) and the copy of a memory map entry by entry (\<open>copied\<close>).
\<close>

section \<open>Structures\<close>

record multiboot_info =
  flags :: u32
  mem_lower :: u32
  mem_upper :: u32
  boot_device :: u32
  cmdline :: u32
  mods_count :: u32
  mods_addr :: u32
  sym_table :: "u32 \<times> u32 \<times> u32 \<times> u32"
  mmap_length :: u32
  mmap_addr :: u32
  drives_length :: u32
  drives_addr :: u32
  config_table :: u32
  boot_loader_name :: u32
  apm_table :: u32
  vbe_control_info :: u32
  vbe_mode_info :: u32
  vbe_mode :: u16
  vbe_interface_seg :: u16
  vbe_interface_off :: u16
  vbe_interface_len :: u16
  framebuffer_addr :: u64
  framebuffer_pitch :: u32
  framebuffer_width :: u32
  framebuffer_height :: u32
  framebuffer_bpp :: u8
  framebuffer_type :: u8
  framebuffer_palette_addr :: u32
  framebuffer_palette_num_colors :: u16

text \<open>
  The union of the two symbol tables is four words in either reading, the union of the colour
  descriptions six bytes; the kernel only ever zeroes them.
\<close>

text \<open>The packed C structure has 118 bytes; a memory map entry has 24.\<close>

abbreviation sizeof_multiboot_info :: u64 where "sizeof_multiboot_info \<equiv> 118"

abbreviation MULTIBOOT_INFO_MEMORY :: u32 where "MULTIBOOT_INFO_MEMORY \<equiv> 0x1"
abbreviation MULTIBOOT_INFO_MEM_MAP :: u32 where "MULTIBOOT_INFO_MEM_MAP \<equiv> 0x40"
abbreviation MULTIBOOT_INFO_BOOT_LOADER_NAME :: u32 where
  "MULTIBOOT_INFO_BOOT_LOADER_NAME \<equiv> 0x200"
abbreviation MULTIBOOT_INFO_FRAMEBUFFER_INFO :: u32 where
  "MULTIBOOT_INFO_FRAMEBUFFER_INFO \<equiv> 0x1000"

text \<open>Fields of a packed \<^verbatim>\<open>multiboot_memory_map_t\<close> at address \<open>e\<close>.\<close>

definition mmap_size :: "mem \<Rightarrow> u64 \<Rightarrow> u32" where "mmap_size m e = rd32 m e"
definition mmap_entry_addr :: "mem \<Rightarrow> u64 \<Rightarrow> u64" where "mmap_entry_addr m e = rd64 m (e + 4)"
definition mmap_len :: "mem \<Rightarrow> u64 \<Rightarrow> u64" where "mmap_len m e = rd64 m (e + 12)"
definition mmap_type :: "mem \<Rightarrow> u64 \<Rightarrow> u32" where "mmap_type m e = rd32 m (e + 20)"

text \<open>The pointer step every walk over the map makes.\<close>

definition mmap_next :: "mem \<Rightarrow> u64 \<Rightarrow> u64" where
  "mmap_next m e = e + ucast (mmap_size m e) + 4"

text \<open>Fields of the packed Multiboot2 structures, from the address of the structure.\<close>

abbreviation (input) MB2_TAG_END :: u32 where "MB2_TAG_END \<equiv> 0"
abbreviation (input) MB2_TAG_BOOTLOADER :: u32 where "MB2_TAG_BOOTLOADER \<equiv> 2"
abbreviation (input) MB2_TAG_BASIC_MEM :: u32 where "MB2_TAG_BASIC_MEM \<equiv> 4"
abbreviation (input) MB2_TAG_MMAP :: u32 where "MB2_TAG_MMAP \<equiv> 6"
abbreviation (input) MB2_TAG_FRAMEBUFFER :: u32 where "MB2_TAG_FRAMEBUFFER \<equiv> 8"

definition total_size :: "mem \<Rightarrow> u64 \<Rightarrow> u32" where "total_size m info = rd32 m info"

definition tag_type :: "mem \<Rightarrow> u64 \<Rightarrow> u32" where "tag_type m p = rd32 m p"
definition tag_size :: "mem \<Rightarrow> u64 \<Rightarrow> u32" where "tag_size m p = rd32 m (p + 4)"

definition tag_string :: "u64 \<Rightarrow> u64" where "tag_string p = p + 8"

definition tag_mem_lower :: "mem \<Rightarrow> u64 \<Rightarrow> u32" where "tag_mem_lower m p = rd32 m (p + 8)"
definition tag_mem_upper :: "mem \<Rightarrow> u64 \<Rightarrow> u32" where "tag_mem_upper m p = rd32 m (p + 12)"

definition tag_entry_size :: "mem \<Rightarrow> u64 \<Rightarrow> u32" where "tag_entry_size m p = rd32 m (p + 8)"
definition tag_entries :: "u64 \<Rightarrow> u64" where "tag_entries p = p + 16"

definition mb2_entry_addr :: "mem \<Rightarrow> u64 \<Rightarrow> u64" where "mb2_entry_addr m e = rd64 m e"
definition mb2_entry_len :: "mem \<Rightarrow> u64 \<Rightarrow> u64" where "mb2_entry_len m e = rd64 m (e + 8)"
definition mb2_entry_type :: "mem \<Rightarrow> u64 \<Rightarrow> u32" where "mb2_entry_type m e = rd32 m (e + 16)"

definition tag_fb_addr :: "mem \<Rightarrow> u64 \<Rightarrow> u64" where "tag_fb_addr m p = rd64 m (p + 8)"
definition tag_fb_pitch :: "mem \<Rightarrow> u64 \<Rightarrow> u32" where "tag_fb_pitch m p = rd32 m (p + 16)"
definition tag_fb_width :: "mem \<Rightarrow> u64 \<Rightarrow> u32" where "tag_fb_width m p = rd32 m (p + 20)"
definition tag_fb_height :: "mem \<Rightarrow> u64 \<Rightarrow> u32" where "tag_fb_height m p = rd32 m (p + 24)"
definition tag_fb_bpp :: "mem \<Rightarrow> u64 \<Rightarrow> u8" where "tag_fb_bpp m p = m (p + 28)"
definition tag_fb_type :: "mem \<Rightarrow> u64 \<Rightarrow> u8" where "tag_fb_type m p = m (p + 29)"

section \<open>From Multiboot2 to Multiboot1\<close>

record boot_state =
  g_mb_info :: multiboot_info
  bmem :: mem
  mmap_count :: u32

datatype boot_error = DivideError

definition zero_mb_info :: multiboot_info where
  "zero_mb_info = \<lparr>flags = 0, mem_lower = 0, mem_upper = 0, boot_device = 0, cmdline = 0,
     mods_count = 0, mods_addr = 0, sym_table = (0, 0, 0, 0), mmap_length = 0, mmap_addr = 0,
     drives_length = 0, drives_addr = 0, config_table = 0, boot_loader_name = 0, apm_table = 0,
     vbe_control_info = 0, vbe_mode_info = 0, vbe_mode = 0, vbe_interface_seg = 0,
     vbe_interface_off = 0, vbe_interface_len = 0, framebuffer_addr = 0, framebuffer_pitch = 0,
     framebuffer_width = 0, framebuffer_height = 0, framebuffer_bpp = 0, framebuffer_type = 0,
     framebuffer_palette_addr = 0, framebuffer_palette_num_colors = 0\<rparr>"

definition set_flag :: "u32 \<Rightarrow> boot_state \<Rightarrow> boot_state" where
  "set_flag f s = s\<lparr>g_mb_info := (g_mb_info s)\<lparr>flags := flags (g_mb_info s) OR f\<rparr>\<rparr>"

definition tag_basic_mem :: "u64 \<Rightarrow> boot_state \<Rightarrow> boot_state" where
  "tag_basic_mem p s =
     set_flag MULTIBOOT_INFO_MEMORY
       (s\<lparr>g_mb_info := (g_mb_info s)\<lparr>mem_lower := tag_mem_lower (bmem s) p,
                                     mem_upper := tag_mem_upper (bmem s) p\<rparr>\<rparr>)"

text \<open>Copy of one map entry: \<^verbatim>\<open>size\<close>, \<^verbatim>\<open>addr\<close>, \<^verbatim>\<open>len\<close>, \<^verbatim>\<open>type\<close> in the order of the assignments.\<close>

definition copy_entry :: "u64 \<Rightarrow> u64 \<Rightarrow> mem \<Rightarrow> mem" where
  "copy_entry dst e m =
     (let m = wr32 m dst 20;
          m = wr64 m (dst + 4) (mb2_entry_addr m e);
          m = wr64 m (dst + 12) (mb2_entry_len m e)
      in wr32 m (dst + 20) (mb2_entry_type m e))"

definition copy_entries :: "u64 \<Rightarrow> u64 \<Rightarrow> u32 \<Rightarrow> u32 \<Rightarrow> u32 \<Rightarrow> mem \<Rightarrow> u32 \<times> u64 \<times> mem" where
  "copy_entries buf e esz n count m =
     after_break (for_ctl 0 n (\<lambda>i (count, e, m).
       if count < 128
       then Next (count + 1, e + ucast esz, copy_entry (buf + 24 * ucast count) e m)
       else Return (count, e, m)) (count, e, m))"

definition tag_mmap :: "u64 \<Rightarrow> u64 \<Rightarrow> boot_state \<Rightarrow> boot_error + boot_state" where
  "tag_mmap buf p s =
     (let esz = tag_entry_size (bmem s) p
      in if esz = 0 then Inl DivideError
         else
           let n = (tag_size (bmem s) p - 16) div esz;
               (count, _, m) = copy_entries buf (tag_entries p) esz n (mmap_count s) (bmem s)
           in Inr (set_flag MULTIBOOT_INFO_MEM_MAP
                (s\<lparr>bmem := m, mmap_count := count,
                   g_mb_info := (g_mb_info s)\<lparr>mmap_length := count * 24,
                                              mmap_addr := ucast buf\<rparr>\<rparr>)))"

definition tag_bootloader :: "u64 \<Rightarrow> boot_state \<Rightarrow> boot_state" where
  "tag_bootloader p s =
     set_flag MULTIBOOT_INFO_BOOT_LOADER_NAME
       (s\<lparr>g_mb_info := (g_mb_info s)\<lparr>boot_loader_name := ucast (tag_string p)\<rparr>\<rparr>)"

definition tag_framebuffer :: "u64 \<Rightarrow> boot_state \<Rightarrow> boot_state" where
  "tag_framebuffer p s =
     set_flag MULTIBOOT_INFO_FRAMEBUFFER_INFO
       (s\<lparr>g_mb_info := (g_mb_info s)\<lparr>framebuffer_addr := tag_fb_addr (bmem s) p,
            framebuffer_pitch := tag_fb_pitch (bmem s) p,
            framebuffer_width := tag_fb_width (bmem s) p,
            framebuffer_height := tag_fb_height (bmem s) p,
            framebuffer_bpp := tag_fb_bpp (bmem s) p,
            framebuffer_type := tag_fb_type (bmem s) p\<rparr>\<rparr>)"

definition mb2_tag :: "u64 \<Rightarrow> u64 \<Rightarrow> boot_state \<Rightarrow> boot_error + boot_state" where
  "mb2_tag buf p s =
     (let type = tag_type (bmem s) p
      in if type = MB2_TAG_BASIC_MEM then Inr (tag_basic_mem p s)
         else if type = MB2_TAG_MMAP then tag_mmap buf p s
         else if type = MB2_TAG_BOOTLOADER then Inr (tag_bootloader p s)
         else if type = MB2_TAG_FRAMEBUFFER then Inr (tag_framebuffer p s)
         else Inr s)"

text \<open>The step to the next tag: \<^verbatim>\<open>(tag->size + 7) & ~7u\<close> in 32 bits.\<close>

definition mb2_aligned :: "mem \<Rightarrow> u64 \<Rightarrow> u32" where
  "mb2_aligned m p = (tag_size m p + 7) AND NOT 7"

partial_function (option) mb2_walk ::
    "u64 \<Rightarrow> u64 \<Rightarrow> u64 \<Rightarrow> boot_state \<Rightarrow> (boot_error + boot_state) option" where
  "mb2_walk buf p endp s =
     (if p < endp then
        if tag_type (bmem s) p = MB2_TAG_END then Some (Inr s)
        else
          case mb2_tag buf p s of
            Inl e \<Rightarrow> Some (Inl e)
          | Inr s' \<Rightarrow> mb2_walk buf (p + ucast (mb2_aligned (bmem s') p)) endp s'
      else Some (Inr s))"

definition convert_mb2_to_mb1 ::
    "u64 \<Rightarrow> u32 \<Rightarrow> mem \<Rightarrow> (boot_error + boot_state) option" where
  "convert_mb2_to_mb1 buf mb2_addr m =
     (let s = \<lparr>g_mb_info = zero_mb_info, bmem = m, mmap_count = 0\<rparr>
      in if mb2_addr = 0 then Some (Inr s)
         else mb2_walk buf (ucast mb2_addr + 8) (ucast mb2_addr + ucast (total_size m (ucast mb2_addr))) s)"

section \<open>The map the kernel keeps\<close>

text \<open>Entry \<open>i\<close> of a map of 24-byte entries at \<open>A\<close>.\<close>

definition map_entry :: "u64 \<Rightarrow> nat \<Rightarrow> u64" where "map_entry A i = A + of_nat (24 * i)"

lemma entry_region:
  assumes "i < n" "k + j \<le> 24" "24 * n < 2 ^ 64"
  shows "region (map_entry A i + of_nat k) j \<subseteq> region A (24 * n)"
  using region_offset [of "24 * i + k" j "24 * n" A] assms by (simp add: map_entry_def add.assoc)

text \<open>Writes outside the map do not change what the walks read.\<close>

lemma map_fields_frame:
  assumes "\<And>x. x \<in> region A (24 * n) \<Longrightarrow> m' x = m x" "i < n" "24 * n < 2 ^ 64"
  shows "mmap_size m' (map_entry A i) = mmap_size m (map_entry A i)"
    and "mmap_entry_addr m' (map_entry A i) = mmap_entry_addr m (map_entry A i)"
    and "mmap_len m' (map_entry A i) = mmap_len m (map_entry A i)"
    and "mmap_type m' (map_entry A i) = mmap_type m (map_entry A i)"
proof -
  have sub: "region (map_entry A i + of_nat k) j \<subseteq> region A (24 * n)" if "k + j \<le> 24" for k j
    using entry_region [OF assms(2) that assms(3)] .
  show "mmap_size m' (map_entry A i) = mmap_size m (map_entry A i)"
    unfolding mmap_size_def rd32_def using sub [of 0 4] assms(1) by (intro rdn_cong) auto
  show "mmap_entry_addr m' (map_entry A i) = mmap_entry_addr m (map_entry A i)"
    unfolding mmap_entry_addr_def using sub [of 4 8] assms(1) by (intro rd64_cong) auto
  show "mmap_len m' (map_entry A i) = mmap_len m (map_entry A i)"
    unfolding mmap_len_def using sub [of 12 8] assms(1) by (intro rd64_cong) auto
  show "mmap_type m' (map_entry A i) = mmap_type m (map_entry A i)"
    unfolding mmap_type_def rd32_def using sub [of 20 4] assms(1) by (intro rdn_cong) auto
qed

section \<open>Boot information as a list of tags\<close>

text \<open>
  What a boot loader says, independent of its encoding: the tags the kernel understands with
  their contents, and all others by their type.
\<close>

type_synonym mem_range = "u64 \<times> u64 \<times> u32"

datatype boot_tag =
    BasicMem u32 u32
  | MemMap "mem_range list"
  | LoaderName u64
  | FbInfo u64 u32 u32 u32 u8 u8
  | OtherTag u32

text \<open>The tag \<open>t\<close> is encoded at \<open>p\<close> as the Multiboot2 specification lays it out.\<close>

definition range_at :: "mem \<Rightarrow> u64 \<Rightarrow> mem_range" where
  "range_at m e = (mb2_entry_addr m e, mb2_entry_len m e, mb2_entry_type m e)"

fun tag_at :: "mem \<Rightarrow> u64 \<Rightarrow> boot_tag \<Rightarrow> bool" where
  "tag_at m p (BasicMem lower upper) \<longleftrightarrow>
     tag_type m p = MB2_TAG_BASIC_MEM \<and> 16 \<le> unat (tag_size m p) \<and>
     tag_mem_lower m p = lower \<and> tag_mem_upper m p = upper"
| "tag_at m p (MemMap rs) \<longleftrightarrow>
     tag_type m p = MB2_TAG_MMAP \<and> 24 \<le> unat (tag_entry_size m p) \<and>
     unat (tag_size m p) = 16 + unat (tag_entry_size m p) * length rs \<and>
     (\<forall>i < length rs. range_at m (tag_entries p + of_nat (unat (tag_entry_size m p) * i)) = rs ! i)"
| "tag_at m p (LoaderName a) \<longleftrightarrow>
     tag_type m p = MB2_TAG_BOOTLOADER \<and> 8 \<le> unat (tag_size m p) \<and> a = p + 8"
| "tag_at m p (FbInfo fa pitch width height bpp type) \<longleftrightarrow>
     tag_type m p = MB2_TAG_FRAMEBUFFER \<and> 32 \<le> unat (tag_size m p) \<and>
     tag_fb_addr m p = fa \<and> tag_fb_pitch m p = pitch \<and> tag_fb_width m p = width \<and>
     tag_fb_height m p = height \<and> tag_fb_bpp m p = bpp \<and> tag_fb_type m p = type"
| "tag_at m p (OtherTag ty) \<longleftrightarrow> tag_type m p = ty \<and> 8 \<le> unat (tag_size m p) \<and>
     ty \<noteq> MB2_TAG_END \<and> ty \<noteq> MB2_TAG_BASIC_MEM \<and> ty \<noteq> MB2_TAG_MMAP \<and>
     ty \<noteq> MB2_TAG_BOOTLOADER \<and> ty \<noteq> MB2_TAG_FRAMEBUFFER"

text \<open>
  The tags follow each other at multiples of 8 bytes, inside the first \<open>e\<close> bytes of memory, and
  are ended by an end tag or by the size of the whole.
\<close>

fun tags_at :: "mem \<Rightarrow> nat \<Rightarrow> boot_tag list \<Rightarrow> nat \<Rightarrow> bool" where
  "tags_at m p [] e \<longleftrightarrow> e \<le> p \<or> p + 8 \<le> e \<and> tag_type m (of_nat p) = MB2_TAG_END"
| "tags_at m p (t # ts) e \<longleftrightarrow> tag_at m (of_nat p) t \<and>
     p + unat (tag_size m (of_nat p)) \<le> e \<and>
     tags_at m (p + (unat (tag_size m (of_nat p)) + 7) div 8 * 8) ts e"

text \<open>
  The contract of the conversion: of several tags of a kind the last one counts, except that
  the memory maps are joined, and of the joined map the first 128 entries are kept.
\<close>

fun basic_mem_of :: "boot_tag \<Rightarrow> (u32 \<times> u32) option" where
  "basic_mem_of (BasicMem lower upper) = Some (lower, upper)"
| "basic_mem_of _ = None"

fun ranges_of :: "boot_tag \<Rightarrow> mem_range list option" where
  "ranges_of (MemMap rs) = Some rs"
| "ranges_of _ = None"

fun loader_name_of :: "boot_tag \<Rightarrow> u64 option" where
  "loader_name_of (LoaderName a) = Some a"
| "loader_name_of _ = None"

fun fb_info_of :: "boot_tag \<Rightarrow> (u64 \<times> u32 \<times> u32 \<times> u32 \<times> u8 \<times> u8) option" where
  "fb_info_of (FbInfo a pitch width height bpp type) = Some (a, pitch, width, height, bpp, type)"
| "fb_info_of _ = None"

definition latest :: "(boot_tag \<Rightarrow> 'a option) \<Rightarrow> boot_tag list \<Rightarrow> 'a option" where
  "latest f ts = (case rev (List.map_filter f ts) of [] \<Rightarrow> None | x # _ \<Rightarrow> Some x)"

definition all_ranges :: "boot_tag list \<Rightarrow> mem_range list" where
  "all_ranges ts = concat (List.map_filter ranges_of ts)"

definition kept_ranges :: "boot_tag list \<Rightarrow> mem_range list" where
  "kept_ranges ts = take 128 (all_ranges ts)"

text \<open>Flags and fields of \<^verbatim>\<open>g_mb_info\<close> that the tags call for.\<close>

definition flag_if :: "u32 \<Rightarrow> 'a option \<Rightarrow> u32" where
  "flag_if f x = (if x = None then 0 else f)"

definition boot_info :: "u64 \<Rightarrow> boot_tag list \<Rightarrow> multiboot_info" where
  "boot_info buf ts =
     zero_mb_info
       \<lparr>flags := flag_if MULTIBOOT_INFO_MEMORY (latest basic_mem_of ts) OR
          flag_if MULTIBOOT_INFO_MEM_MAP (latest ranges_of ts) OR
          flag_if MULTIBOOT_INFO_BOOT_LOADER_NAME (latest loader_name_of ts) OR
          flag_if MULTIBOOT_INFO_FRAMEBUFFER_INFO (latest fb_info_of ts),
        mem_lower := (case latest basic_mem_of ts of Some (lower, _) \<Rightarrow> lower | None \<Rightarrow> 0),
        mem_upper := (case latest basic_mem_of ts of Some (_, upper) \<Rightarrow> upper | None \<Rightarrow> 0),
        mmap_length := of_nat (24 * length (kept_ranges ts)),
        mmap_addr := (case latest ranges_of ts of Some _ \<Rightarrow> ucast buf | None \<Rightarrow> 0),
        boot_loader_name := (case latest loader_name_of ts of Some a \<Rightarrow> ucast a | None \<Rightarrow> 0),
        framebuffer_addr := (case latest fb_info_of ts of Some (a, _) \<Rightarrow> a | None \<Rightarrow> 0),
        framebuffer_pitch := (case latest fb_info_of ts of Some (_, x, _) \<Rightarrow> x | None \<Rightarrow> 0),
        framebuffer_width := (case latest fb_info_of ts of Some (_, _, x, _) \<Rightarrow> x | None \<Rightarrow> 0),
        framebuffer_height := (case latest fb_info_of ts of Some (_, _, _, x, _) \<Rightarrow> x | None \<Rightarrow> 0),
        framebuffer_bpp := (case latest fb_info_of ts of Some (_, _, _, _, x, _) \<Rightarrow> x | None \<Rightarrow> 0),
        framebuffer_type := (case latest fb_info_of ts of Some (_, _, _, _, _, x) \<Rightarrow> x | None \<Rightarrow> 0)\<rparr>"

text \<open>The map in memory holds these ranges, each entry with the size 20.\<close>

definition kept_at :: "mem \<Rightarrow> u64 \<Rightarrow> mem_range list \<Rightarrow> bool" where
  "kept_at m A rs \<longleftrightarrow>
     (\<forall>i < length rs. mmap_size m (map_entry A i) = 20 \<and>
        (mmap_entry_addr m (map_entry A i), mmap_len m (map_entry A i), mmap_type m (map_entry A i)) =
          rs ! i)"

subsection \<open>One tag more\<close>

lemma latest_Nil [simp]: "latest f [] = None"
  by (simp add: latest_def map_filter_def)

lemma latest_snoc [simp]:
  "latest f (ts @ [t]) = (case f t of Some x \<Rightarrow> Some x | None \<Rightarrow> latest f ts)"
  by (simp add: latest_def map_filter_def split: option.split)

lemma kept_ranges_Nil [simp]: "kept_ranges [] = []"
  by (simp add: kept_ranges_def all_ranges_def map_filter_def)

lemma kept_ranges_snoc:
  "kept_ranges (ts @ [t]) = (case ranges_of t of
     Some rs \<Rightarrow> take 128 (kept_ranges ts @ rs) | None \<Rightarrow> kept_ranges ts)"
proof (cases "length (all_ranges ts) < 128")
  case True
  then show ?thesis
    by (simp add: kept_ranges_def all_ranges_def map_filter_def split: option.split)
next
  case False
  then show ?thesis
    by (simp add: kept_ranges_def all_ranges_def map_filter_def split: option.split)
qed

lemma kept_ranges_bound: "length (kept_ranges ts) \<le> 128"
  by (simp add: kept_ranges_def)

lemma boot_info_Nil: "boot_info buf [] = zero_mb_info"
  by (simp add: boot_info_def flag_if_def zero_mb_info_def)

lemma flag_or_flag: "(a OR b) OR (b :: u32) = a OR b"
  by (simp add: or.assoc)
text \<open>What each tag adds to the contract.\<close>

lemma boot_info_BasicMem:
  "boot_info buf (ts @ [BasicMem lower upper]) =
     (boot_info buf ts)\<lparr>mem_lower := lower, mem_upper := upper,
        flags := flags (boot_info buf ts) OR MULTIBOOT_INFO_MEMORY\<rparr>"
  by (simp add: boot_info_def flag_if_def kept_ranges_snoc zero_mb_info_def)

lemma boot_info_MemMap:
  "boot_info buf (ts @ [MemMap rs]) =
     (boot_info buf ts)\<lparr>mmap_length := of_nat (24 * length (kept_ranges (ts @ [MemMap rs]))),
        mmap_addr := ucast buf, flags := flags (boot_info buf ts) OR MULTIBOOT_INFO_MEM_MAP\<rparr>"
  by (simp add: boot_info_def flag_if_def zero_mb_info_def)

lemma boot_info_LoaderName:
  "boot_info buf (ts @ [LoaderName a]) =
     (boot_info buf ts)\<lparr>boot_loader_name := ucast a,
        flags := flags (boot_info buf ts) OR MULTIBOOT_INFO_BOOT_LOADER_NAME\<rparr>"
  by (simp add: boot_info_def flag_if_def kept_ranges_snoc zero_mb_info_def)

lemma boot_info_FbInfo:
  "boot_info buf (ts @ [FbInfo a pitch width height bpp type]) =
     (boot_info buf ts)\<lparr>framebuffer_addr := a, framebuffer_pitch := pitch,
        framebuffer_width := width, framebuffer_height := height, framebuffer_bpp := bpp,
        framebuffer_type := type,
        flags := flags (boot_info buf ts) OR MULTIBOOT_INFO_FRAMEBUFFER_INFO\<rparr>"
  by (simp add: boot_info_def flag_if_def kept_ranges_snoc zero_mb_info_def)

lemma boot_info_OtherTag: "boot_info buf (ts @ [OtherTag ty]) = boot_info buf ts"
  by (simp add: boot_info_def kept_ranges_snoc)

lemmas boot_info_snoc = boot_info_BasicMem boot_info_MemMap boot_info_LoaderName boot_info_FbInfo
  boot_info_OtherTag

subsection \<open>Copying the map\<close>

text \<open>\<^verbatim>\<open>g_mmap_buffer\<close> has 128 entries.\<close>

abbreviation mmap_buffer :: "u64 \<Rightarrow> u64 set" where "mmap_buffer buf \<equiv> region buf 3072"

definition off_buffer :: "u64 \<Rightarrow> mem \<Rightarrow> mem \<Rightarrow> bool" where
  "off_buffer buf m m' \<longleftrightarrow> (\<forall>x. x \<notin> mmap_buffer buf \<longrightarrow> m' x = m x)"

lemma off_buffer_refl [simp]: "off_buffer buf m m"
  by (simp add: off_buffer_def)

lemma off_buffer_trans [trans]:
  "off_buffer buf m m1 \<Longrightarrow> off_buffer buf m1 m2 \<Longrightarrow> off_buffer buf m m2"
  by (simp add: off_buffer_def)

lemma map_slot_fields:
  fixes d :: u64
  shows "region d 4 \<inter> region (d + 4) 8 = {}" "region d 4 \<inter> region (d + 12) 8 = {}"
    "region d 4 \<inter> region (d + 20) 4 = {}" "region (d + 4) 8 \<inter> region (d + 12) 8 = {}"
    "region (d + 4) 8 \<inter> region (d + 20) 4 = {}" "region (d + 12) 8 \<inter> region (d + 20) 4 = {}"
  using region_offset_disjoint [of 0 4 4 8 d] region_offset_disjoint [of 0 4 12 8 d]
    region_offset_disjoint [of 0 4 20 4 d] region_offset_disjoint [of 4 8 12 8 d]
    region_offset_disjoint [of 4 8 20 4 d] region_offset_disjoint [of 12 8 20 4 d]
  by simp_all

lemma map_slot_inside:
  fixes d :: u64
  shows "region d 4 \<subseteq> region d 24" "region d 8 \<subseteq> region d 24" "region (d + 4) 8 \<subseteq> region d 24"
    "region (d + 8) 8 \<subseteq> region d 24" "region (d + 12) 8 \<subseteq> region d 24"
    "region (d + 16) 4 \<subseteq> region d 24" "region (d + 20) 4 \<subseteq> region d 24"
  using region_offset [of 0 4 24 d] region_offset [of 0 8 24 d] region_offset [of 4 8 24 d]
    region_offset [of 8 8 24 d] region_offset [of 12 8 24 d] region_offset [of 16 4 24 d]
    region_offset [of 20 4 24 d]
  by simp_all

lemma copy_entry_outside: "x \<notin> region d 24 \<Longrightarrow> copy_entry d e m x = m x"
  using map_slot_inside [of d] unfolding copy_entry_def Let_def
  by (subst wr32_outside wr64_outside, blast)+ simp

lemma copy_entry_fields:
  assumes "region e 24 \<inter> region d 24 = {}"
  shows "mmap_size (copy_entry d e m) d = 20"
    "mmap_entry_addr (copy_entry d e m) d = mb2_entry_addr m e"
    "mmap_len (copy_entry d e m) d = mb2_entry_len m e"
    "mmap_type (copy_entry d e m) d = mb2_entry_type m e"
proof -
  have src: "region a j \<inter> region b k = {}" if "region a j \<subseteq> region e 24" "region b k \<subseteq> region d 24" for a b j k
    using that assms by blast
  note acc = copy_entry_def Let_def mmap_size_def mmap_entry_addr_def mmap_len_def mmap_type_def
    mb2_entry_addr_def mb2_entry_len_def mb2_entry_type_def rd32_def rd64_def wr32_def wr64_def
  note rw = rdn_wrn_same rdn_wrn_disjoint map_slot_fields map_slot_inside src
  show "mmap_size (copy_entry d e m) d = 20" by (simp add: acc rw)
  show "mmap_entry_addr (copy_entry d e m) d = mb2_entry_addr m e" by (simp add: acc rw)
  show "mmap_len (copy_entry d e m) d = mb2_entry_len m e" by (simp add: acc rw)
  show "mmap_type (copy_entry d e m) d = mb2_entry_type m e" by (simp add: acc rw)
qed

lemma map_entries_apart:
  assumes "i \<noteq> j" "i < 128" "j < 128"
  shows "region (map_entry A i) 24 \<inter> region (map_entry A j) 24 = {}"
proof (cases "i < j")
  case True
  then show ?thesis
    unfolding map_entry_def using assms by (intro region_offset_disjoint) simp_all
next
  case False
  then have "region (map_entry A j) 24 \<inter> region (map_entry A i) 24 = {}"
    unfolding map_entry_def using assms by (intro region_offset_disjoint) simp_all
  then show ?thesis by blast
qed

lemma map_entry_buffer: "i < 128 \<Longrightarrow> region (map_entry buf i) 24 \<subseteq> mmap_buffer buf"
  unfolding map_entry_def by (rule region_offset) simp_all

text \<open>The next free slot takes one entry; the entries before it stay.\<close>

lemma copy_entry_kept:
  assumes rs: "kept_at m buf rs" "length rs < 128" and e: "region e 24 \<inter> mmap_buffer buf = {}"
  defines "m' \<equiv> copy_entry (map_entry buf (length rs)) e m"
  shows "kept_at m' buf (rs @ [range_at m e])" "off_buffer buf m m'"
proof -
  let ?d = "map_entry buf (length rs)"
  have d: "region ?d 24 \<subseteq> mmap_buffer buf" using rs(2) by (rule map_entry_buffer)
  then have "region e 24 \<inter> region ?d 24 = {}" using e by blast
  note new = copy_entry_fields [OF this, of m, folded m'_def]
  have out: "m' x = m x" if "x \<notin> region ?d 24" for x
    unfolding m'_def using that by (rule copy_entry_outside)
  then show "off_buffer buf m m'" using d by (auto simp: off_buffer_def)
  have old: "mmap_size m' (map_entry buf i) = mmap_size m (map_entry buf i)"
    "mmap_entry_addr m' (map_entry buf i) = mmap_entry_addr m (map_entry buf i)"
    "mmap_len m' (map_entry buf i) = mmap_len m (map_entry buf i)"
    "mmap_type m' (map_entry buf i) = mmap_type m (map_entry buf i)" if i: "i < length rs" for i
  proof -
    have "m' x = m x" if "x \<in> region (map_entry buf i) 24" for x
      using map_entries_apart [of i "length rs" buf] i rs(2) that by (intro out) auto
    from map_fields_frame [of "map_entry buf i" 1 m' m 0] this show
      "mmap_size m' (map_entry buf i) = mmap_size m (map_entry buf i)"
      "mmap_entry_addr m' (map_entry buf i) = mmap_entry_addr m (map_entry buf i)"
      "mmap_len m' (map_entry buf i) = mmap_len m (map_entry buf i)"
      "mmap_type m' (map_entry buf i) = mmap_type m (map_entry buf i)"
      by (simp_all add: map_entry_def)
  qed
  show "kept_at m' buf (rs @ [range_at m e])"
    using rs(1) by (auto simp: kept_at_def nth_append less_Suc_eq old new range_at_def)
qed

lemma range_at_off_buffer:
  assumes "off_buffer buf m m'" "region e 24 \<inter> mmap_buffer buf = {}"
  shows "range_at m' e = range_at m e"
proof -
  have "m' x = m x" if "x \<in> region e 24" for x using assms that by (auto simp: off_buffer_def)
  then show ?thesis
    using map_slot_inside [of e]
    by (auto simp: range_at_def mb2_entry_addr_def mb2_entry_len_def mb2_entry_type_def
        intro!: rd64_cong rd32_cong)
qed

text \<open>
  The loop after \<open>k\<close> entries: they are in the map behind the entries \<open>rs\<close> of earlier tags, the
  pointer is behind them, and nothing else has changed.
\<close>

definition copied :: "u64 \<Rightarrow> mem \<Rightarrow> u64 \<Rightarrow> u32 \<Rightarrow> mem_range list \<Rightarrow> nat \<Rightarrow> u32 \<times> u64 \<times> mem \<Rightarrow> bool" where
  "copied buf m e esz rs k = (\<lambda>(count, e', m'). length rs \<le> 128 \<and> count = of_nat (length rs) \<and>
     e' = e + of_nat (unat esz * k) \<and> kept_at m' buf rs \<and> off_buffer buf m m')"

definition copy_step :: "u64 \<Rightarrow> u32 \<Rightarrow> u32 \<times> u64 \<times> mem \<Rightarrow> (u32 \<times> u64 \<times> mem, u32 \<times> u64 \<times> mem) ctl" where
  "copy_step buf esz = (\<lambda>(count, e, m).
     if count < 128
     then Next (count + 1, e + ucast esz, copy_entry (buf + 24 * ucast count) e m)
     else Return (count, e, m))"

lemma copied_count: "copied buf m e esz rs k (c, e', m') \<Longrightarrow> unat c = length rs"
  by (auto simp: copied_def intro!: unat_of_nat_small)

lemma copy_step_next:
  assumes inv: "copied buf m e esz rs k t" and step: "copy_step buf esz t = Next t'"
    and src: "region (e + of_nat (unat esz * k)) 24 \<inter> mmap_buffer buf = {}"
  shows "copied buf m e esz (rs @ [range_at m (e + of_nat (unat esz * k))]) (Suc k) t'"
proof -
  obtain c e' m1 where t: "t = (c, e', m1)" by (cases t) auto
  have I: "e' = e + of_nat (unat esz * k)" "kept_at m1 buf rs" "off_buffer buf m m1"
    "c = of_nat (length rs)" using inv by (simp_all add: t copied_def)
  have uc: "unat c = length rs" using inv unfolding t by (rule copied_count)
  have c: "c < 128" "t' = (c + 1, e' + ucast esz, copy_entry (buf + 24 * ucast c) e' m1)"
    using step by (auto simp: t copy_step_def split: if_splits)
  have lt: "length rs < 128" using c(1) uc by (simp add: word_less_nat_alt)
  have slot: "buf + 24 * ucast c = map_entry buf (length rs)"
    by (simp add: map_entry_def uc [symmetric])
  have "region e' 24 \<inter> mmap_buffer buf = {}" using src I(1) by simp
  note K = copy_entry_kept [OF I(2) lt this] and R = range_at_off_buffer [OF I(3) this]
  show ?thesis
    using K off_buffer_trans [OF I(3)] lt I(4) unfolding R c(2) slot
    by (simp add: copied_def I(1) algebra_simps)
qed

lemma copy_step_stop:
  assumes inv: "copied buf m e esz rs k t" and step: "copy_step buf esz t = Return r"
  shows "length rs = 128 \<and> copied buf m e esz rs k r"
proof -
  obtain c e' m1 where t: "t = (c, e', m1)" by (cases t) auto
  have "\<not> c < 128" "r = t" using step by (auto simp: t copy_step_def split: if_splits)
  moreover have "unat c = length rs" using inv unfolding t by (rule copied_count)
  moreover have "length rs \<le> 128" using inv by (simp add: t copied_def)
  ultimately show ?thesis using inv by (simp add: word_less_nat_alt)
qed

text \<open>The loop stops at the end of the tag's map or when all 128 slots are taken.\<close>

lemma copy_entries_result:
  assumes kept: "kept_at m buf rs" "length rs \<le> 128" and n: "unat n = length xs"
    and src: "\<And>i. i < length xs \<Longrightarrow> range_at m (e + of_nat (unat esz * i)) = xs ! i"
    and apart: "\<And>i. i < length xs \<Longrightarrow> region (e + of_nat (unat esz * i)) 24 \<inter> mmap_buffer buf = {}"
  shows "\<exists>k. copied buf m e esz (take 128 (rs @ xs)) k
    (copy_entries buf e esz n (of_nat (length rs)) m)"
proof -
  let ?P = "\<lambda>i. copied buf m e esz (rs @ take (unat i) xs) (unat i)"
  let ?Q = "\<lambda>t. \<exists>k. copied buf m e esz (take 128 (rs @ xs)) k t"
  let ?loop = "for_ctl 0 n (\<lambda>_. copy_step buf esz) (of_nat (length rs), e, m)"
  have "case ?loop of Next t \<Rightarrow> ?P n t | Return r \<Rightarrow> ?Q r"
  proof (rule for_ctl_inv)
    show "?P 0 (of_nat (length rs), e, m)" using kept by (simp add: copied_def)
  next
    fix j t t' assume j: "j < n" and t: "?P j t" "copy_step buf esz t = Next t'"
    have J: "unat j < length xs" using j n by (simp add: word_less_nat_alt)
    show "?P (j + 1) t'"
      using copy_step_next [OF t apart [OF J]] src [OF J] J
      by (simp add: unat_Suc_less [OF j] take_Suc_conv_app_nth)
  next
    fix j t r assume "?P j t" "copy_step buf esz t = Return r"
    from copy_step_stop [OF this] have r: "length (rs @ take (unat j) xs) = 128" "?P j r" by simp_all
    then have "take 128 (rs @ xs) = rs @ take (unat j) xs"
      by (metis append_take_drop_id append_assoc append_eq_conv_conj)
    then show "?Q r" using r by auto
  qed simp
  moreover have "?Q t" if "?P n t" for t
  proof -
    have "length (rs @ xs) \<le> 128" using that n by (auto simp: copied_def split: prod.splits)
    then show ?thesis using that n by auto
  qed
  ultimately have "?Q (after_break ?loop)" by (cases ?loop) auto
  then show ?thesis unfolding copy_entries_def copy_step_def .
qed

subsection \<open>The walk\<close>

text \<open>
  The boot information in memory: an address below 4 GB, a total size, and the tags behind the
  8 bytes of the header; \<^verbatim>\<open>g_mmap_buffer\<close> lies elsewhere.
\<close>

definition boot_info_at :: "mem \<Rightarrow> u32 \<Rightarrow> boot_tag list \<Rightarrow> bool" where
  "boot_info_at m a ts \<longleftrightarrow> a \<noteq> 0 \<and>
     unat a + unat (total_size m (ucast a)) \<le> 2 ^ 32 \<and>
     tags_at m (unat a + 8) ts (unat a + unat (total_size m (ucast a)))"

definition info_region :: "mem \<Rightarrow> u32 \<Rightarrow> u64 set" where
  "info_region m a = region (ucast a) (unat (total_size m (ucast a)))"

text \<open>What the walk has done after the tags \<open>ts\<close>.\<close>

definition walked :: "u64 \<Rightarrow> mem \<Rightarrow> boot_tag list \<Rightarrow> boot_state \<Rightarrow> bool" where
  "walked buf m ts s \<longleftrightarrow> g_mb_info s = boot_info buf ts \<and>
     mmap_count s = of_nat (length (kept_ranges ts)) \<and> kept_at (bmem s) buf (kept_ranges ts) \<and>
     off_buffer buf m (bmem s)"

lemma walked_Nil: "walked buf m [] \<lparr>g_mb_info = zero_mb_info, bmem = m, mmap_count = 0\<rparr>"
  by (simp add: walked_def boot_info_Nil kept_at_def)

text \<open>A tag off the buffer reads the same throughout the walk.\<close>

lemma tag_reads_off_buffer:
  assumes "off_buffer buf m m'" "region p n \<inter> mmap_buffer buf = {}" "n \<le> 2 ^ 64"
  shows "8 \<le> n \<Longrightarrow> tag_type m' p = tag_type m p" "8 \<le> n \<Longrightarrow> tag_size m' p = tag_size m p"
    "16 \<le> n \<Longrightarrow> tag_mem_lower m' p = tag_mem_lower m p"
    "16 \<le> n \<Longrightarrow> tag_mem_upper m' p = tag_mem_upper m p"
    "16 \<le> n \<Longrightarrow> tag_entry_size m' p = tag_entry_size m p"
    "32 \<le> n \<Longrightarrow> tag_fb_addr m' p = tag_fb_addr m p"
    "32 \<le> n \<Longrightarrow> tag_fb_pitch m' p = tag_fb_pitch m p"
    "32 \<le> n \<Longrightarrow> tag_fb_width m' p = tag_fb_width m p"
    "32 \<le> n \<Longrightarrow> tag_fb_height m' p = tag_fb_height m p"
    "32 \<le> n \<Longrightarrow> tag_fb_bpp m' p = tag_fb_bpp m p"
    "32 \<le> n \<Longrightarrow> tag_fb_type m' p = tag_fb_type m p"
proof -
  have eq: "m' x = m x" if "x \<in> region (p + of_nat i) k" "i + k \<le> n" for x i k
    using assms region_offset [OF that(2) assms(3), of p] that(1) by (auto simp: off_buffer_def)
  have r32: "rd32 m' (p + of_nat i) = rd32 m (p + of_nat i)" if "i + 4 \<le> n" for i
    using eq [OF _ that] by (intro rd32_cong) auto
  have r64: "rd64 m' (p + of_nat i) = rd64 m (p + of_nat i)" if "i + 8 \<le> n" for i
    using eq [OF _ that] by (intro rd64_cong) auto
  have r8: "m' (p + of_nat i) = m (p + of_nat i)" if "i + 1 \<le> n" for i
    using eq [of "p + of_nat i" i 1] that by (simp add: region_def)
  show "8 \<le> n \<Longrightarrow> tag_type m' p = tag_type m p" "8 \<le> n \<Longrightarrow> tag_size m' p = tag_size m p"
    "16 \<le> n \<Longrightarrow> tag_mem_lower m' p = tag_mem_lower m p"
    "16 \<le> n \<Longrightarrow> tag_mem_upper m' p = tag_mem_upper m p"
    "16 \<le> n \<Longrightarrow> tag_entry_size m' p = tag_entry_size m p"
    "32 \<le> n \<Longrightarrow> tag_fb_addr m' p = tag_fb_addr m p"
    "32 \<le> n \<Longrightarrow> tag_fb_pitch m' p = tag_fb_pitch m p"
    "32 \<le> n \<Longrightarrow> tag_fb_width m' p = tag_fb_width m p"
    "32 \<le> n \<Longrightarrow> tag_fb_height m' p = tag_fb_height m p"
    "32 \<le> n \<Longrightarrow> tag_fb_bpp m' p = tag_fb_bpp m p"
    "32 \<le> n \<Longrightarrow> tag_fb_type m' p = tag_fb_type m p"
    using r32 [of 0] r32 [of 4] r32 [of 8] r32 [of 12] r32 [of 16] r32 [of 20] r32 [of 24] r64 [of 8]
      r8 [of 28] r8 [of 29]
    by (simp_all add: tag_type_def tag_size_def tag_mem_lower_def tag_mem_upper_def
        tag_entry_size_def tag_fb_addr_def tag_fb_pitch_def tag_fb_width_def tag_fb_height_def
        tag_fb_bpp_def tag_fb_type_def)
qed

lemma tag_size_min: "tag_at m p t \<Longrightarrow> 8 \<le> unat (tag_size m p)"
  by (cases t) auto

lemma tag_not_end: "tag_at m p t \<Longrightarrow> tag_type m p \<noteq> MB2_TAG_END"
  by (cases t) auto

lemma map_entry_in_tag:
  assumes t: "tag_at m p (MemMap rs)" and i: "i < length rs"
  shows "region (tag_entries p + of_nat (unat (tag_entry_size m p) * i)) 24 \<subseteq>
    region p (unat (tag_size m p))"
proof -
  let ?esz = "unat (tag_entry_size m p)"
  have "?esz * i + 24 \<le> ?esz * Suc i" using t by simp
  also have "\<dots> \<le> ?esz * length rs" using i by (intro mult_le_mono2) simp
  finally have "region (p + of_nat (16 + ?esz * i)) 24 \<subseteq> region p (unat (tag_size m p))"
    using t unat_bound [of "tag_size m p"] by (intro region_offset) simp_all
  then show ?thesis by (simp add: tag_entries_def add.assoc)
qed

text \<open>One tag: the state follows the contract, and a map tag's division is defined.\<close>

lemma mb2_tag_map:
  assumes w: "walked buf m ts s" and t: "tag_at m p (MemMap rs)"
    and apart: "region p (unat (tag_size m p)) \<inter> mmap_buffer buf = {}"
  shows "\<exists>s'. mb2_tag buf p s = Inr s' \<and> walked buf m (ts @ [MemMap rs]) s'"
proof -
  let ?esz = "tag_entry_size m p" and ?n = "(tag_size m p - 16) div tag_entry_size m p"
  have T: "tag_type m p = MB2_TAG_MMAP" "24 \<le> unat ?esz" "unat (tag_size m p) = 16 + unat ?esz * length rs"
    "\<And>i. i < length rs \<Longrightarrow> range_at m (tag_entries p + of_nat (unat ?esz * i)) = rs ! i"
    using t by simp_all
  have I: "g_mb_info s = boot_info buf ts" "mmap_count s = of_nat (length (kept_ranges ts))"
    "kept_at (bmem s) buf (kept_ranges ts)" "off_buffer buf m (bmem s)"
    using w by (simp_all add: walked_def)
  note rd = tag_reads_off_buffer [OF I(4) apart]
  have esz: "?esz \<noteq> 0" using T(2) by auto
  have "unat (tag_size m p - 16) = unat ?esz * length rs"
    using T(3) by (subst unat_sub) (simp_all add: word_le_nat_alt)
  then have n: "unat ?n = length rs" using T(2) by (simp add: unat_div)
  have sub: "region (tag_entries p + of_nat (unat ?esz * i)) 24 \<inter> mmap_buffer buf = {}" if "i < length rs" for i
    using map_entry_in_tag [OF t that] apart by blast
  have src: "range_at (bmem s) (tag_entries p + of_nat (unat ?esz * i)) = rs ! i" if "i < length rs" for i
    using range_at_off_buffer [OF I(4) sub [OF that]] T(4) [OF that] by simp
  obtain k where k: "copied buf (bmem s) (tag_entries p) ?esz (take 128 (kept_ranges ts @ rs)) k
      (copy_entries buf (tag_entries p) ?esz ?n (mmap_count s) (bmem s))"
    using copy_entries_result [OF I(3) kept_ranges_bound n src sub] unfolding I(2) by blast
  obtain c e' m' where cc: "copy_entries buf (tag_entries p) ?esz ?n (mmap_count s) (bmem s) = (c, e', m')"
    by (metis prod_cases3)
  have kr: "kept_ranges (ts @ [MemMap rs]) = take 128 (kept_ranges ts @ rs)" by (simp add: kept_ranges_snoc)
  have K: "c = of_nat (length (kept_ranges (ts @ [MemMap rs])))"
    "kept_at m' buf (kept_ranges (ts @ [MemMap rs]))" "off_buffer buf m m'"
    using k off_buffer_trans [OF I(4)] unfolding cc kr by (auto simp: copied_def)
  have "unat (tag_size m p) \<le> 2 ^ 64" using unat_bound [of "tag_size m p"] by simp
  note rd = rd [OF this]
  show ?thesis
    using K esz T I(1) rd cc
    by (simp add: mb2_tag_def tag_mmap_def walked_def boot_info_MemMap set_flag_def mult.commute)
qed

lemma mb2_tag_result:
  assumes w: "walked buf m ts s" and t: "tag_at m p t"
    and apart: "region p (unat (tag_size m p)) \<inter> mmap_buffer buf = {}"
  shows "\<exists>s'. mb2_tag buf p s = Inr s' \<and> walked buf m (ts @ [t]) s'"
proof (cases "\<exists>rs. t = MemMap rs")
  case True
  then show ?thesis using mb2_tag_map [OF w _ apart] t by blast
next
  case False
  have off: "off_buffer buf m (bmem s)" using w by (simp add: walked_def)
  have "unat (tag_size m p) \<le> 2 ^ 64" using unat_bound [of "tag_size m p"] by simp
  note rd = tag_reads_off_buffer [OF off apart this]
  note upd = mb2_tag_def tag_basic_mem_def tag_bootloader_def tag_framebuffer_def set_flag_def
    tag_string_def walked_def
  show ?thesis
    using False t w rd by (cases t) (auto simp: upd boot_info_snoc kept_ranges_snoc)
qed

lemma unat_mb2_aligned:
  assumes "unat (tag_size m p) + 7 < 2 ^ 32"
  shows "unat (mb2_aligned m p) = (unat (tag_size m p) + 7) div 8 * 8"
proof -
  have "unat (tag_size m p + 7) = unat (tag_size m p) + 7"
    using assms by (simp add: unat_word_ariths)
  then show ?thesis
    using unat_and_not_mask [of 3 "tag_size m p + 7"]
    by (simp add: mb2_aligned_def mask_eq_exp_minus_1)
qed

text \<open>The walk ends, behind the last tag or at the end tag, with all tags taken in.\<close>

lemma mb2_walk_result:
  assumes "tags_at m p us e" "walked buf m ts s" "8 \<le> p" "e \<le> 2 ^ 32" "p < 2 ^ 33"
    and apart: "\<And>q n. p \<le> q \<Longrightarrow> q + n \<le> e \<Longrightarrow> region (of_nat q) n \<inter> mmap_buffer buf = {}"
  shows "\<exists>s'. mb2_walk buf (of_nat p) (of_nat e) s = Some (Inr s') \<and> walked buf m (ts @ us) s'"
  using assms
proof (induction us arbitrary: p ts s)
  case Nil
  have lt: "(of_nat p :: u64) < of_nat e \<longleftrightarrow> p < e"
    using Nil.prems by (simp add: word_less_nat_alt unat_of_nat_small)
  have "off_buffer buf m (bmem s)" using Nil.prems by (simp add: walked_def)
  then have "p < e \<Longrightarrow> tag_type (bmem s) (of_nat p) = MB2_TAG_END"
    using Nil.prems(1) tag_reads_off_buffer(1) [OF _ Nil.prems(6) [of p 8]] by auto
  then show ?case using lt Nil.prems(2) by (subst mb2_walk.simps) auto
next
  case (Cons t us)
  let ?p = "of_nat p :: u64" and ?sz = "unat (tag_size m (of_nat p))"
  let ?q = "p + (?sz + 7) div 8 * 8"
  have T: "tag_at m ?p t" "p + ?sz \<le> e" "tags_at m ?q us e" using Cons.prems(1) by simp_all
  note min = tag_size_min [OF T(1)]
  have lt: "?p < of_nat e"
    using Cons.prems(4) T(2) min by (simp add: word_less_nat_alt unat_of_nat_small)
  have apart: "region ?p ?sz \<inter> mmap_buffer buf = {}" using Cons.prems(6) T(2) by blast
  obtain s' where s': "mb2_tag buf ?p s = Inr s'" "walked buf m (ts @ [t]) s'"
    using mb2_tag_result [OF Cons.prems(2) T(1) apart] by blast
  have big: "?sz \<le> 2 ^ 64" using unat_bound [of "tag_size m ?p"] by simp
  have off: "off_buffer buf m (bmem s)" "off_buffer buf m (bmem s')"
    using Cons.prems(2) s'(2) by (simp_all add: walked_def)
  have ty: "tag_type (bmem s) ?p \<noteq> MB2_TAG_END"
    using tag_not_end [OF T(1)] tag_reads_off_buffer(1) [OF off(1) apart big min] by simp
  have "tag_size (bmem s') ?p = tag_size m ?p"
    using tag_reads_off_buffer(2) [OF off(2) apart big min] .
  then have "unat (mb2_aligned (bmem s') ?p) = (?sz + 7) div 8 * 8"
    using unat_mb2_aligned [of "bmem s'" ?p] T(2) Cons.prems(3,4) by simp
  then have nx: "?p + ucast (mb2_aligned (bmem s') ?p) = of_nat ?q"
    by (metis of_nat_add of_nat_unat)
  have "\<exists>s''. mb2_walk buf (of_nat ?q) (of_nat e) s' = Some (Inr s'') \<and> walked buf m ((ts @ [t]) @ us) s''"
    using Cons.prems(3-6) T(2) by (intro Cons.IH [OF T(3) s'(2)]) auto
  then show ?case using lt ty s'(1) nx by (subst mb2_walk.simps) simp
qed

lemma convert_result:
  assumes at: "boot_info_at m a ts" and apart: "info_region m a \<inter> mmap_buffer buf = {}"
  shows "\<exists>s. convert_mb2_to_mb1 buf a m = Some (Inr s) \<and> walked buf m ts s"
proof -
  let ?a = "ucast a :: u64" and ?sz = "unat (total_size m (ucast a))"
  have ptr: "?a + 8 = of_nat (unat a + 8)" "?a + ucast (total_size m ?a) = of_nat (unat a + ?sz)"
    by simp_all
  have sub: "region (of_nat q) n \<subseteq> info_region m a" if "unat a \<le> q" "q + n \<le> unat a + ?sz" for q n
  proof -
    have "(of_nat q :: u64) = ?a + of_nat (q - unat a)" using that(1) by (simp add: of_nat_diff)
    then show ?thesis
      using region_offset [of "q - unat a" n ?sz ?a] that unat_bound [of "total_size m ?a"]
      by (simp add: info_region_def)
  qed
  have "region (of_nat q) n \<inter> mmap_buffer buf = {}" if "unat a + 8 \<le> q" "q + n \<le> unat a + ?sz" for q n
    using sub [of q n] that apart by auto
  moreover have "unat a + 8 < 2 ^ 33" using unat_bound [of a] by simp
  ultimately have "\<exists>s. mb2_walk buf (of_nat (unat a + 8)) (of_nat (unat a + ?sz))
      \<lparr>g_mb_info = zero_mb_info, bmem = m, mmap_count = 0\<rparr> = Some (Inr s) \<and> walked buf m ([] @ ts) s"
    using at by (intro mb2_walk_result [OF _ walked_Nil]) (auto simp: boot_info_at_def)
  then show ?thesis using at unfolding convert_mb2_to_mb1_def Let_def ptr by (auto simp: boot_info_at_def)
qed

text \<open>
  C9: \<^verbatim>\<open>convert_mb2_to_mb1\<close> returns on every well-formed boot information that lies off
  \<^verbatim>\<open>g_mmap_buffer\<close>. \<^verbatim>\<open>g_mb_info\<close> then says exactly what the tags say (the last tag of each kind,
  the flag of each kind that occurs, everything else 0), \<^verbatim>\<open>g_mmap_buffer\<close> holds the first 128
  entries of the joined memory maps in the Multiboot1 layout, and no other memory has changed.
\<close>

theorem convert_mb2_to_mb1_correct:
  assumes "boot_info_at m mb2_addr ts" "info_region m mb2_addr \<inter> mmap_buffer buf = {}"
  shows "\<exists>s. convert_mb2_to_mb1 buf mb2_addr m = Some (Inr s) \<and> g_mb_info s = boot_info buf ts \<and>
    kept_at (bmem s) buf (kept_ranges ts) \<and> (\<forall>x. x \<notin> mmap_buffer buf \<longrightarrow> bmem s x = m x)"
  using convert_result [OF assms] by (auto simp: walked_def off_buffer_def)

text \<open>640 KB of lower memory, one available range of 64 MB and the loader's name, at \<open>0x9000\<close>.\<close>

definition demo_tags :: "boot_tag list" where
  "demo_tags = [BasicMem 640 64512, MemMap [(0x100000, 0x4000000, 1)], LoaderName 0x9048]"

definition demo_bytes :: "u8 list" where
  "demo_bytes =
     [88, 0, 0, 0, 0, 0, 0, 0,
      4, 0, 0, 0, 16, 0, 0, 0, 128, 2, 0, 0, 0, 252, 0, 0,
      6, 0, 0, 0, 40, 0, 0, 0, 24, 0, 0, 0, 0, 0, 0, 0,
      0, 0, 16, 0, 0, 0, 0, 0, 0, 0, 0, 4, 0, 0, 0, 0, 1, 0, 0, 0, 0, 0, 0, 0,
      2, 0, 0, 0, 13, 0, 0, 0, 71, 82, 85, 66, 0, 0, 0, 0,
      0, 0, 0, 0, 8, 0, 0, 0]"

definition demo_boot_mem :: mem where
  "demo_boot_mem x = (if x - 0x9000 < 88 then demo_bytes ! unat (x - 0x9000) else 0)"

lemma demo_boot_at: "boot_info_at demo_boot_mem 0x9000 demo_tags"
  by (simp add: boot_info_at_def demo_tags_def demo_boot_mem_def demo_bytes_def total_size_def
      tag_type_def tag_size_def tag_mem_lower_def tag_mem_upper_def tag_entry_size_def
      tag_entries_def range_at_def mb2_entry_addr_def mb2_entry_len_def mb2_entry_type_def mem_eval)

lemma demo_boot_apart: "info_region demo_boot_mem 0x9000 \<inter> mmap_buffer 0x200000 = {}"
  unfolding info_region_def
  by (rule region_disjoint) (simp_all add: demo_boot_mem_def demo_bytes_def total_size_def mem_eval)

theorem convert_mb2_to_mb1_correct_witness:
  "\<exists>s. convert_mb2_to_mb1 0x200000 0x9000 demo_boot_mem = Some (Inr s) \<and>
     g_mb_info s = zero_mb_info\<lparr>flags := 0x241, mem_lower := 640, mem_upper := 64512,
       mmap_length := 24, mmap_addr := 0x200000, boot_loader_name := 0x9048\<rparr> \<and>
     mmap_entry_addr (bmem s) 0x200000 = 0x100000 \<and> mmap_len (bmem s) 0x200000 = 0x4000000"
proof -
  have "boot_info 0x200000 demo_tags = zero_mb_info\<lparr>flags := 0x241, mem_lower := 640,
      mem_upper := 64512, mmap_length := 24, mmap_addr := 0x200000, boot_loader_name := 0x9048\<rparr>"
    "kept_ranges demo_tags = [(0x100000, 0x4000000, 1)]"
    by (simp_all add: boot_info_def latest_def flag_if_def kept_ranges_def all_ranges_def demo_tags_def
        map_filter_def zero_mb_info_def)
  then show ?thesis
    using convert_mb2_to_mb1_correct [OF demo_boot_at demo_boot_apart]
    by (auto simp: kept_at_def map_entry_def)
qed

end
