(* ===== verification/Framebuffer.thy ===== *)
theory Framebuffer
  imports Multiboot Font
begin

text \<open>
  The linear frame buffer, \<^verbatim>\<open>src/kernel/graphics/fb.c\<close>. The pixels are 32-bit words in memory,
  \<open>fb_pitch\<close> bytes per row; row offsets are computed in 32 bits, as in the code.

  \<open>pixel f m x y\<close> is the pixel read back, \<open>fb_bytes\<close> the bytes of the buffer, and \<open>fb_wf\<close> says that
  the buffer lies in the address space and its size fits 32 bits. \<open>paints f S C\<close> is the
  specification of a drawing operation: the pixels of \<open>S\<close> get the colours \<open>C\<close>, and nothing else
  changes.
\<close>

section \<open>State and operations\<close>

record fb =
  fb_base :: u64
  fb_w :: u32
  fb_h :: u32
  fb_pitch :: u32
  fb_bpp :: u32
  fb_ok :: bool

definition fb_initial :: fb where
  "fb_initial = \<lparr>fb_base = 0, fb_w = 0, fb_h = 0, fb_pitch = 0, fb_bpp = 0, fb_ok = False\<rparr>"

definition fb_fill_rect :: "fb \<Rightarrow> u32 \<Rightarrow> u32 \<Rightarrow> u32 \<Rightarrow> u32 \<Rightarrow> u32 \<Rightarrow> mem \<Rightarrow> mem" where
  "fb_fill_rect f x y w h rgb m =
     (if x \<ge> fb_w f \<or> y \<ge> fb_h f then m
      else
        let w = (if x + w > fb_w f then fb_w f - x else w);
            h = (if y + h > fb_h f then fb_h f - y else h)
        in for_loop 0 h (\<lambda>j m.
             let row = fb_base f + ucast ((y + j) * fb_pitch f)
             in for_loop 0 w (\<lambda>i m. wr32 m (row + 4 * ucast (x + i)) rgb) m) m)"

definition fb_clear :: "fb \<Rightarrow> u32 \<Rightarrow> mem \<Rightarrow> mem" where
  "fb_clear f rgb m = fb_fill_rect f 0 0 (fb_w f) (fb_h f) rgb m"

definition fb_init :: "multiboot_info \<Rightarrow> fb \<Rightarrow> mem \<Rightarrow> fb \<times> mem" where
  "fb_init mbd f m =
     (if flags mbd AND MULTIBOOT_INFO_FRAMEBUFFER_INFO = 0 then (f, m)
      else if framebuffer_type mbd \<noteq> 1 then (f, m)
      else if framebuffer_bpp mbd \<noteq> 32 then (f, m)
      else
        let f = \<lparr>fb_base = framebuffer_addr mbd, fb_w = framebuffer_width mbd,
                 fb_h = framebuffer_height mbd, fb_pitch = framebuffer_pitch mbd,
                 fb_bpp = ucast (framebuffer_bpp mbd), fb_ok = True\<rparr>
        in (f, fb_clear f 0 m))"

definition fb_pitch_pixels :: "fb \<Rightarrow> u32" where "fb_pitch_pixels f = fb_pitch f div 4"

definition fb_put_pixel :: "fb \<Rightarrow> u32 \<Rightarrow> u32 \<Rightarrow> u32 \<Rightarrow> mem \<Rightarrow> mem" where
  "fb_put_pixel f x y rgb m =
     (if x \<ge> fb_w f \<or> y \<ge> fb_h f then m
      else wr32 m (fb_base f + ucast (y * fb_pitch f) + 4 * ucast x) rgb)"

definition glyph_row :: "u8 list \<Rightarrow> u32 \<Rightarrow> u8" where "glyph_row glyph row = glyph ! unat row"

definition fb_draw_glyph :: "fb \<Rightarrow> u32 \<Rightarrow> u32 \<Rightarrow> u8 list \<Rightarrow> u32 \<Rightarrow> u32 \<Rightarrow> u32 \<Rightarrow> mem \<Rightarrow> mem" where
  "fb_draw_glyph f cx cy glyph fg bg scale m =
     (if \<not> fb_ok f then m
      else if cx + 8 * scale > fb_w f \<or> cy + 8 * scale > fb_h f then m
      else
        let stride = fb_pitch f div 4
        in for_loop 0 8 (\<lambda>row m.
             let bits = glyph_row glyph row
             in for_loop 0 scale (\<lambda>s_row m.
                  let current_y = cy + row * scale + s_row;
                      dest_row = fb_base f + 4 * ucast (current_y * stride + cx)
                  in for_loop 0 8 (\<lambda>col m.
                       let color = (if bit bits (unat (7 - col)) then fg else bg)
                       in for_loop 0 scale (\<lambda>s_col m.
                            wr32 m (dest_row + 4 * ucast (col * scale + s_col)) color) m) m) m) m)"

definition fb_scroll_up :: "fb \<Rightarrow> u32 \<Rightarrow> mem \<Rightarrow> mem" where
  "fb_scroll_up f pixels m =
     (if pixels \<ge> fb_h f then m
      else
        let bytes_to_move = (fb_h f - pixels) * fb_pitch f;
            src = fb_base f + ucast (pixels * fb_pitch f);
            m = for_loop 0 bytes_to_move (\<lambda>i m. m(fb_base f + ucast i := m (src + ucast i))) m
        in fb_fill_rect f 0 (fb_h f - pixels) (fb_w f) pixels 0 m)"

section \<open>Pixels\<close>

definition fb_wf :: "fb \<Rightarrow> bool" where
  "fb_wf f \<longleftrightarrow> 4 * unat (fb_w f) \<le> unat (fb_pitch f) \<and> 4 dvd unat (fb_pitch f) \<and>
     unat (fb_h f) * unat (fb_pitch f) < 2 ^ 32 \<and>
     unat (fb_base f) + unat (fb_h f) * unat (fb_pitch f) \<le> 2 ^ 64"

definition fb_bytes :: "fb \<Rightarrow> u64 set" where
  "fb_bytes f = region (fb_base f) (unat (fb_h f) * unat (fb_pitch f))"

definition pixel_at :: "fb \<Rightarrow> nat \<Rightarrow> nat \<Rightarrow> u64" where
  "pixel_at f x y = fb_base f + of_nat (y * unat (fb_pitch f) + 4 * x)"

definition pixel :: "fb \<Rightarrow> mem \<Rightarrow> nat \<Rightarrow> nat \<Rightarrow> u32" where
  "pixel f m x y = rd32 m (pixel_at f x y)"

definition on_screen :: "fb \<Rightarrow> (nat \<times> nat) set" where
  "on_screen f = {..<unat (fb_w f)} \<times> {..<unat (fb_h f)}"

definition paints :: "fb \<Rightarrow> (nat \<times> nat) set \<Rightarrow> (nat \<Rightarrow> nat \<Rightarrow> u32) \<Rightarrow> mem \<Rightarrow> mem \<Rightarrow> bool" where
  "paints f S C m m' \<longleftrightarrow>
     (\<forall>(x, y) \<in> on_screen f. pixel f m' x y = (if (x, y) \<in> S then C x y else pixel f m x y)) \<and>
     (\<forall>a. a \<notin> fb_bytes f \<longrightarrow> m' a = m a)"

lemma paints_refl: "paints f {} C m m"
  by (simp add: paints_def)

lemma paints_trans: "paints f S C m m1 \<Longrightarrow> paints f T C m1 m2 \<Longrightarrow> paints f (S \<union> T) C m m2"
  by (fastforce simp: paints_def)

lemma paints_loop:
  assumes "\<And>i m. i < n \<Longrightarrow> paints f (S (unat i)) C m (body i m)"
  shows "paints f (\<Union>i < unat n. S i) C m (for_loop 0 n body m)"
proof -
  have "paints f (\<Union>i < unat n. S i) C m (for_loop 0 n body m)"
  proof (rule for_loop_inv [where P = "\<lambda>i m'. paints f (\<Union>k < unat i. S k) C m m'"])
    fix j t assume j: "j < n" and t: "paints f (\<Union>k < unat j. S k) C m t"
    have "(\<Union>k < unat (j + 1). S k) = (\<Union>k < unat j. S k) \<union> S (unat j)"
      using unat_Suc_less [OF j] by (auto simp: lessThan_Suc)
    then show "paints f (\<Union>k < unat (j + 1). S k) C m (body j t)"
      using paints_trans [OF t assms [OF j]] by simp
  qed (simp_all add: paints_refl)
  then show ?thesis .
qed

lemma pixel_offset:
  assumes "fb_wf f" "x < unat (fb_w f)" "y < unat (fb_h f)"
  shows "y * unat (fb_pitch f) + 4 * x + 4 \<le> unat (fb_h f) * unat (fb_pitch f)"
proof -
  have "Suc y * unat (fb_pitch f) \<le> unat (fb_h f) * unat (fb_pitch f)"
    using assms(3) by (intro mult_le_mono1) simp
  then show ?thesis using assms(1,2) by (simp add: fb_wf_def)
qed

lemma unat_pixel_at:
  assumes "fb_wf f" "x < unat (fb_w f)" "y < unat (fb_h f)"
  shows "unat (pixel_at f x y) = unat (fb_base f) + (y * unat (fb_pitch f) + 4 * x)"
  unfolding pixel_at_def using pixel_offset [OF assms] assms(1)
  by (intro unat_add_of_nat) (simp add: fb_wf_def)

lemma pixel_bytes:
  assumes "fb_wf f" "x < unat (fb_w f)" "y < unat (fb_h f)"
  shows "region (pixel_at f x y) 4 \<subseteq> fb_bytes f"
proof
  fix a assume "a \<in> region (pixel_at f x y) 4"
  then obtain k where k: "k < 4" "a = pixel_at f x y + of_nat k" using region_nth by blast
  have "a = fb_base f + of_nat (y * unat (fb_pitch f) + 4 * x + k)" using k(2) by (simp add: pixel_at_def)
  moreover have "y * unat (fb_pitch f) + 4 * x + k < unat (fb_h f) * unat (fb_pitch f)"
    using pixel_offset [OF assms] k(1) by linarith
  moreover have "unat (fb_h f) * unat (fb_pitch f) < 2 ^ 64" using assms(1) by (simp add: fb_wf_def)
  ultimately show "a \<in> fb_bytes f" unfolding fb_bytes_def
    using in_region_add [of "y * unat (fb_pitch f) + 4 * x + k" "unat (fb_h f) * unat (fb_pitch f)" "fb_base f"]
    by (simp del: of_nat_add of_nat_mult)
qed

lemma pixel_disjoint:
  assumes wf: "fb_wf f" and xy: "x < unat (fb_w f)" "y < unat (fb_h f)" and xy': "x' < unat (fb_w f)" "y' < unat (fb_h f)"
    and ne: "(x, y) \<noteq> (x', y')"
  shows "region (pixel_at f x y) 4 \<inter> region (pixel_at f x' y') 4 = {}"
proof -
  let ?P = "unat (fb_pitch f)"
  have lim: "unat (pixel_at f x y) + 4 \<le> 2 ^ 64" "unat (pixel_at f x' y') + 4 \<le> 2 ^ 64"
    using pixel_offset [OF wf xy] pixel_offset [OF wf xy'] unat_pixel_at [OF wf xy] unat_pixel_at [OF wf xy'] wf
    by (simp_all add: fb_wf_def)
  have w: "4 * unat (fb_w f) \<le> ?P" using wf by (simp add: fb_wf_def)
  have row: "a * ?P + 4 * u + 4 \<le> b * ?P + 4 * v" if "a < b" "u < unat (fb_w f)" for a b u v
  proof -
    have "Suc a * ?P \<le> b * ?P" using that(1) by (intro mult_le_mono1) simp
    then show ?thesis using w that(2) by simp
  qed
  have "unat (pixel_at f x y) + 4 \<le> unat (pixel_at f x' y') \<or> unat (pixel_at f x' y') + 4 \<le> unat (pixel_at f x y)"
  proof (cases "y = y'")
    case True
    then have "x < x' \<or> x' < x" using ne by auto
    then show ?thesis using True unat_pixel_at [OF wf xy] unat_pixel_at [OF wf xy'] by auto
  next
    case False
    then show ?thesis using row [of y y' x x'] row [of y' y x' x] xy(1) xy'(1)
      unfolding unat_pixel_at [OF wf xy] unat_pixel_at [OF wf xy'] by (cases "y < y'") auto
  qed
  then show ?thesis using region_disjoint lim by blast
qed

text \<open>Writing one pixel.\<close>

lemma paints_pixel:
  assumes wf: "fb_wf f" and xy: "x < unat (fb_w f)" "y < unat (fb_h f)" and c: "C x y = v"
  shows "paints f {(x, y)} C m (wr32 m (pixel_at f x y) v)"
proof -
  have "pixel f (wr32 m (pixel_at f x y) v) x' y' = (if (x', y') \<in> {(x, y)} then C x' y' else pixel f m x' y')"
    if "x' < unat (fb_w f)" "y' < unat (fb_h f)" for x' y'
  proof (cases "(x', y') = (x, y)")
    case True
    then show ?thesis using c by (simp add: pixel_def rd32_wr32)
  next
    case False
    then have "pixel f (wr32 m (pixel_at f x y) v) x' y' = pixel f m x' y'"
      unfolding pixel_def using pixel_disjoint [OF wf xy that] by (intro rd32_cong wr32_outside) auto
    then show ?thesis using False by auto
  qed
  moreover have "wr32 m (pixel_at f x y) v a = m a" if "a \<notin> fb_bytes f" for a
    using that pixel_bytes [OF wf xy] by (intro wr32_outside) blast
  ultimately show ?thesis by (auto simp: paints_def on_screen_def)
qed

section \<open>Drawing operations\<close>

lemma unat_add_u32: "unat x + unat y < 2 ^ 32 \<Longrightarrow> unat (x + y) = unat x + unat y" for x y :: u32
  by (simp add: unat_add_lem [THEN iffD1])

lemma unat_mult_u32: "unat x * unat y < 2 ^ 32 \<Longrightarrow> unat (x * y) = unat x * unat y" for x y :: u32
  by (simp add: unat_word_ariths)

lemma row_product:
  assumes "fb_wf f" "y < fb_h f" shows "unat (y * fb_pitch f) = unat y * unat (fb_pitch f)"
proof -
  have "unat y * unat (fb_pitch f) \<le> unat (fb_h f) * unat (fb_pitch f)"
    using assms(2) by (intro mult_le_mono1) (simp add: word_less_nat_alt)
  moreover have "unat (fb_h f) * unat (fb_pitch f) < 2 ^ 32" using assms(1) by (simp add: fb_wf_def)
  ultimately show ?thesis by (intro unat_mult_u32) (rule le_less_trans)
qed

lemma ucast_unat: "(ucast (x :: u32) :: u64) = of_nat (unat x)"
  by (rule of_nat_unat [symmetric])

text \<open>The address computed from a row pointer is the address of the pixel.\<close>

lemma row_address:
  assumes "fb_wf f" "y < fb_h f"
  shows "fb_base f + ucast (y * fb_pitch f) + 4 * ucast x = pixel_at f (unat x) (unat y)"
  unfolding pixel_at_def ucast_unat row_product [OF assms] by (simp add: add.assoc)

lemma fill_rect_paints:
  assumes wf: "fb_wf f" and xw: "unat x + unat w < 2 ^ 32" and yh: "unat y + unat h < 2 ^ 32"
  shows "paints f (({unat x..<unat x + unat w} \<times> {unat y..<unat y + unat h}) \<inter> on_screen f) (\<lambda>_ _. rgb) m
    (fb_fill_rect f x y w h rgb m)"
proof (cases "x \<ge> fb_w f \<or> y \<ge> fb_h f")
  case True
  then have e: "({unat x..<unat x + unat w} \<times> {unat y..<unat y + unat h}) \<inter> on_screen f = {}"
    by (auto simp: on_screen_def word_le_nat_alt)
  show ?thesis unfolding e using True by (simp add: fb_fill_rect_def paints_refl)
next
  case False
  define w' where "w' = (if x + w > fb_w f then fb_w f - x else w)"
  define h' where "h' = (if y + h > fb_h f then fb_h f - y else h)"
  have in0: "unat x < unat (fb_w f)" "unat y < unat (fb_h f)" using False by (simp_all add: word_le_nat_alt not_le)
  have w': "unat w' = min (unat w) (unat (fb_w f) - unat x)"
    using unat_add_u32 [OF xw] in0 by (auto simp: w'_def word_less_nat_alt unat_sub_if')
  have h': "unat h' = min (unat h) (unat (fb_h f) - unat y)"
    using unat_add_u32 [OF yh] in0 by (auto simp: h'_def word_less_nat_alt unat_sub_if')
  have cell: "paints f {(unat x + unat i, unat y + unat j)} (\<lambda>_ _. rgb) m
      (wr32 m (fb_base f + ucast ((y + j) * fb_pitch f) + 4 * ucast (x + i)) rgb)" if "i < w'" "j < h'" for i j m
  proof -
    have ij: "unat x + unat i < unat (fb_w f)" "unat y + unat j < unat (fb_h f)"
      using that w' h' by (auto simp: word_less_nat_alt)
    have "unat (fb_w f) < 2 ^ 32" "unat (fb_h f) < 2 ^ 32" using unat_bound [of "fb_w f"] unat_bound [of "fb_h f"] by simp_all
    then have u: "unat (x + i) = unat x + unat i" "unat (y + j) = unat y + unat j"
      using ij by (intro unat_add_u32; simp)+
    then have "y + j < fb_h f" using ij by (simp add: word_less_nat_alt)
    from row_address [OF wf this, of "x + i"] show ?thesis
      using paints_pixel [OF wf, of "unat x + unat i" "unat y + unat j"] ij u by simp
  qed
  have "paints f (\<Union>j < unat h'. \<Union>i < unat w'. {(unat x + i, unat y + j)}) (\<lambda>_ _. rgb) m
      (for_loop 0 h' (\<lambda>j m. let row = fb_base f + ucast ((y + j) * fb_pitch f)
         in for_loop 0 w' (\<lambda>i m. wr32 m (row + 4 * ucast (x + i)) rgb) m) m)"
    unfolding Let_def by (intro paints_loop cell)
  moreover have "(\<Union>j < unat h'. \<Union>i < unat w'. {(unat x + i, unat y + j)}) =
      ({unat x..<unat x + unat w} \<times> {unat y..<unat y + unat h}) \<inter> on_screen f" (is "?L = ?R")
  proof
    show "?L \<subseteq> ?R" using w' h' by (auto simp: on_screen_def)
    show "?R \<subseteq> ?L"
    proof
      fix p assume p: "p \<in> ?R"
      obtain a b where ab: "p = (a, b)" by (cases p)
      have "a - unat x < unat w'" "b - unat y < unat h'" "a = unat x + (a - unat x)" "b = unat y + (b - unat y)"
        using p ab w' h' by (auto simp: on_screen_def)
      then show "p \<in> ?L" unfolding ab by blast
    qed
  qed
  moreover have "fb_fill_rect f x y w h rgb m =
      for_loop 0 h' (\<lambda>j m. let row = fb_base f + ucast ((y + j) * fb_pitch f)
         in for_loop 0 w' (\<lambda>i m. wr32 m (row + 4 * ucast (x + i)) rgb) m) m"
    using False by (simp add: fb_fill_rect_def w'_def h'_def Let_def)
  ultimately show ?thesis by simp
qed

lemma put_pixel_paints:
  assumes "fb_wf f"
  shows "paints f ({(unat x, unat y)} \<inter> on_screen f) (\<lambda>_ _. rgb) m (fb_put_pixel f x y rgb m)"
proof (cases "x \<ge> fb_w f \<or> y \<ge> fb_h f")
  case True
  then have e: "{(unat x, unat y)} \<inter> on_screen f = {}" by (auto simp: on_screen_def word_le_nat_alt)
  show ?thesis unfolding e using True by (simp add: fb_put_pixel_def paints_refl)
next
  case False
  then have i: "unat x < unat (fb_w f)" "unat y < unat (fb_h f)" "y < fb_h f" by (simp_all add: word_le_nat_alt not_le word_less_nat_alt)
  then have e: "{(unat x, unat y)} \<inter> on_screen f = {(unat x, unat y)}" by (auto simp: on_screen_def)
  show ?thesis unfolding e using False paints_pixel [OF assms i(1,2)] row_address [OF assms i(3), of x]
    by (simp add: fb_put_pixel_def)
qed

subsection \<open>Glyphs\<close>

text \<open>The colour a glyph gives to the pixel \<open>(x, y)\<close> when drawn at \<open>(cx, cy)\<close>.\<close>

definition glyph_colour :: "u8 list \<Rightarrow> nat \<Rightarrow> nat \<Rightarrow> nat \<Rightarrow> u32 \<Rightarrow> u32 \<Rightarrow> nat \<Rightarrow> nat \<Rightarrow> u32" where
  "glyph_colour glyph s cx cy fg bg x y =
     (if bit (glyph ! ((y - cy) div s)) (7 - (x - cx) div s) then fg else bg)"

lemma cell_bound: "col < 8 \<Longrightarrow> sc < s \<Longrightarrow> col * s + sc < 8 * s" for col sc s :: nat
proof -
  assume "col < 8" "sc < s"
  then have "Suc col * s \<le> 8 * s" by (intro mult_le_mono1) simp
  then have "s + col * s \<le> 8 * s" by (simp only: mult_Suc)
  then show ?thesis using \<open>sc < s\<close> by linarith
qed

lemma glyph_cells:
  "(\<Union>row < 8. \<Union>sr < s. \<Union>col < 8. \<Union>sc < s. {(cx + (col * s + sc), cy + (row * s + sr))}) =
     {cx..<cx + 8 * s} \<times> {cy..<cy + 8 * s}" (is "?L = ?R") for s cx cy :: nat
proof
  show "?L \<subseteq> ?R" using cell_bound by fastforce
  show "?R \<subseteq> ?L"
  proof
    fix p assume p: "p \<in> ?R"
    obtain a b where ab: "p = (a, b)" by (cases p)
    have d: "(v - c) div s < 8" "(v - c) mod s < s" "v = c + ((v - c) div s * s + (v - c) mod s)"
      if "v \<in> {c..<c + 8 * s}" for v c
    proof -
      have "0 < s" using that by (cases s) auto
      then show "(v - c) div s < 8" "(v - c) mod s < s" using that by (auto simp: less_mult_imp_div_less)
      show "v = c + ((v - c) div s * s + (v - c) mod s)" using that by simp
    qed
    show "p \<in> ?L" unfolding ab using d [of a cx] d [of b cy] p ab by (simp only: UN_iff lessThan_iff) blast
  qed
qed

lemma glyph_address:
  assumes wf: "fb_wf f" and y: "y < fb_h f" and x: "unat cx + unat k < unat (fb_w f)"
  shows "fb_base f + 4 * ucast (y * (fb_pitch f div 4) + cx) + 4 * ucast k = pixel_at f (unat cx + unat k) (unat y)"
proof -
  let ?P = "unat (fb_pitch f)"
  have st: "4 * unat (fb_pitch f div 4) = ?P" using wf by (auto simp: fb_wf_def unat_div)
  have yP: "unat y * ?P + 4 * (unat cx + unat k) + 4 \<le> unat (fb_h f) * ?P"
    using pixel_offset [OF wf x, of "unat y"] y by (simp add: word_less_nat_alt)
  have lt: "unat (fb_h f) * ?P < 2 ^ 32" using wf by (simp add: fb_wf_def)
  have e: "4 * (unat y * unat (fb_pitch f div 4)) = unat y * ?P" unfolding st [symmetric] by simp
  have q: "A + c < 2 ^ 32" "A < 2 ^ 32" if "4 * A = B" "B + 4 * (c + k) + 4 \<le> T" "T < 2 ^ 32" for A B T c k :: nat
    using that by simp_all
  have "unat y * unat (fb_pitch f div 4) + unat cx < 2 ^ 32" by (rule q(1) [OF e yP lt])
  moreover have m: "unat (y * (fb_pitch f div 4)) = unat y * unat (fb_pitch f div 4)"
    by (rule unat_mult_u32 [OF q(2) [OF e yP lt]])
  ultimately have "unat (y * (fb_pitch f div 4) + cx) = unat y * unat (fb_pitch f div 4) + unat cx"
    by (subst unat_add_u32) simp_all
  then have "fb_base f + 4 * ucast (y * (fb_pitch f div 4) + cx) + 4 * ucast k =
      fb_base f + of_nat (4 * (unat y * unat (fb_pitch f div 4)) + 4 * (unat cx + unat k))"
    unfolding ucast_unat by (simp add: algebra_simps)
  then show ?thesis unfolding e pixel_at_def .
qed

lemma draw_glyph_paints:
  assumes wf: "fb_wf f" and ok: "fb_ok f"
    and x: "unat cx + 8 * unat scale \<le> unat (fb_w f)" and y: "unat cy + 8 * unat scale \<le> unat (fb_h f)"
  shows "paints f ({unat cx..<unat cx + 8 * unat scale} \<times> {unat cy..<unat cy + 8 * unat scale})
    (glyph_colour glyph (unat scale) (unat cx) (unat cy) fg bg) m (fb_draw_glyph f cx cy glyph fg bg scale m)"
proof -
  let ?s = "unat scale"
  let ?C = "glyph_colour glyph ?s (unat cx) (unat cy) fg bg"
  have lim: "unat (fb_w f) < 2 ^ 32" "unat (fb_h f) < 2 ^ 32"
    using unat_bound [of "fb_w f"] unat_bound [of "fb_h f"] by simp_all
  have s8: "unat (8 * scale) = 8 * ?s" using x lim unat_mult_u32 [of 8 scale] by simp
  have no: "\<not> (cx + 8 * scale > fb_w f \<or> cy + 8 * scale > fb_h f)"
    using x y lim s8 unat_add_u32 [of cx "8 * scale"] unat_add_u32 [of cy "8 * scale"] by (simp add: word_less_nat_alt)
  have mul: "unat (a * scale + b) = unat a * ?s + unat b" "unat a * ?s + unat b < 8 * ?s"
    if "a < 8" "b < scale" for a b
  proof -
    show c: "unat a * ?s + unat b < 8 * ?s" using that by (intro cell_bound) (simp_all add: word_less_nat_alt)
    then have "unat (a * scale) = unat a * ?s" using x lim by (intro unat_mult_u32) simp
    then show "unat (a * scale + b) = unat a * ?s + unat b" using c x lim by (subst unat_add_u32) simp_all
  qed
  have cell: "paints f {(unat cx + (unat col * ?s + unat sc), unat cy + (unat row * ?s + unat sr))} ?C m
      (wr32 m (fb_base f + 4 * ucast ((cy + row * scale + sr) * (fb_pitch f div 4) + cx) + 4 * ucast (col * scale + sc))
        (if bit (glyph_row glyph row) (unat (7 - col)) then fg else bg))"
    if b: "row < 8" "sr < scale" "col < 8" "sc < scale" for row sr col sc m
  proof -
    note mr = mul [OF b(1,2)] and mc = mul [OF b(3,4)]
    have Y: "unat (cy + row * scale + sr) = unat cy + (unat row * ?s + unat sr)"
      using mr y lim unat_add_u32 [of cy "row * scale + sr"] by (simp add: add.assoc)
    have yl: "cy + row * scale + sr < fb_h f" using Y mr y by (simp add: word_less_nat_alt)
    have xl: "unat cx + unat (col * scale + sc) < unat (fb_w f)" using mc x by simp
    have c7: "unat (7 - col) = 7 - unat col" using b(3) by (simp add: unat_sub_if' word_less_nat_alt)
    have dv: "(unat a * ?s + unat d) div ?s = unat a" if "d < scale" for a d :: u32
      using that by (simp add: word_less_nat_alt)
    have C: "?C (unat cx + (unat col * ?s + unat sc)) (unat cy + (unat row * ?s + unat sr)) =
        (if bit (glyph_row glyph row) (unat (7 - col)) then fg else bg)"
      by (simp add: glyph_colour_def glyph_row_def c7 dv b)
    show ?thesis
      using paints_pixel [OF wf, where C = ?C, OF _ _ C] glyph_address [OF wf yl xl] xl yl Y mc(1)
      by (simp add: word_less_nat_alt)
  qed
  have "paints f (\<Union>row < unat (8 :: u32). \<Union>sr < ?s. \<Union>col < unat (8 :: u32). \<Union>sc < ?s.
      {(unat cx + (col * ?s + sc), unat cy + (row * ?s + sr))}) ?C m (fb_draw_glyph f cx cy glyph fg bg scale m)"
    by (simp only: fb_draw_glyph_def Let_def ok no not_True_eq_False if_False) (intro paints_loop cell)
  moreover have "unat (8 :: u32) = 8" by simp
  ultimately show ?thesis by (simp only: glyph_cells)
qed

subsection \<open>Scrolling\<close>

text \<open>The forward copy of overlapping memory: the source lies \<open>d\<close> bytes behind the target.\<close>

lemma copy_forward:
  fixes n :: u32
  assumes lim: "unat b + (d + unat n) \<le> 2 ^ 64"
  shows "for_loop 0 n (\<lambda>i m. m(b + ucast i := m (b + of_nat d + ucast i))) m =
    (\<lambda>a. if a \<in> region b (unat n) then m (a + of_nat d) else m a)"
proof -
  let ?P = "\<lambda>i t. t = (\<lambda>a. if a \<in> region b (unat (i :: u32)) then m (a + of_nat d) else m a)"
  have "?P n (for_loop 0 n (\<lambda>i m. m(b + ucast i := m (b + of_nat d + ucast i))) m)"
  proof (rule for_loop_inv [where P = ?P])
    fix j :: u32 and t assume j: "j < n" and t: "?P j t"
    have jn: "unat j < unat n" using j by (simp add: word_less_nat_alt)
    have uc: "(ucast j :: u64) = of_nat (unat j)" by simp
    have s: "b + of_nat d + ucast j = b + of_nat (d + unat j)" by simp
    have "b + of_nat (d + unat j) \<notin> region b (unat j)"
    proof -
      have "unat (b + of_nat (d + unat j)) = unat b + (d + unat j)" using lim jn by (intro unat_add_of_nat) simp
      moreover have "unat b + unat j \<le> 2 ^ 64" using lim jn by simp
      ultimately show ?thesis using region_unat(2) [of "b + of_nat (d + unat j)" b "unat j"] by auto
    qed
    then have rd: "t (b + of_nat d + ucast j) = m (b + of_nat (d + unat j))"
      using t unfolding s by (simp del: of_nat_add)
    have "x \<in> region b (unat (j + 1)) \<longleftrightarrow> x \<in> region b (unat j) \<or> x = b + ucast j" for x
    proof -
      have "unat (x - b) = unat j \<longleftrightarrow> x = b + ucast j"
      proof
        assume "unat (x - b) = unat j"
        then have "x - b = ucast j" by (metis of_nat_unat ucast_id)
        then show "x = b + ucast j" by (simp add: algebra_simps)
      next
        have "unat (ucast j :: u64) = unat j" using unat_bound [of j] by (simp add: unat_ucast_mod)
        then show "x = b + ucast j \<Longrightarrow> unat (x - b) = unat j" by simp
      qed
      then show ?thesis using unat_Suc_less [OF j] by (auto simp: in_region_iff less_Suc_eq)
    qed
    then show "?P (j + 1) (t(b + ucast j := t (b + of_nat d + ucast j)))"
      using t rd by (auto simp: fun_eq_iff ac_simps)
  qed simp_all
  then show ?thesis .
qed

lemma rd32_shift: "(\<And>k. k < 4 \<Longrightarrow> m' (a + of_nat k) = m (b + of_nat k)) \<Longrightarrow> rd32 m' a = rd32 m b"
proof -
  assume s: "\<And>k. k < 4 \<Longrightarrow> m' (a + of_nat k) = m (b + of_nat k)"
  show ?thesis using s [of 0] s [of 1] s [of 2] s [of 3] by (simp add: rd32_bytes)
qed

lemma scroll_pixels:
  assumes wf: "fb_wf f" and p: "p < fb_h f" and m'_def: "m' = fb_scroll_up f p m"
  shows "\<forall>(x, y) \<in> on_screen f. pixel f m' x y = (if y + unat p < unat (fb_h f) then pixel f m x (y + unat p) else 0)"
    and "\<forall>a. a \<notin> fb_bytes f \<longrightarrow> m' a = m a"
proof -
  let ?P = "unat (fb_pitch f)" and ?H = "unat (fb_h f)"
  have ph: "unat p < ?H" using p by (simp add: word_less_nat_alt)
  define n where "n = (fb_h f - p) * fb_pitch f"
  define m1 where "m1 = for_loop 0 n (\<lambda>i m. m(fb_base f + ucast i := m (fb_base f + of_nat (unat p * ?P) + ucast i))) m"
  have hp: "unat (fb_h f - p) = ?H - unat p" using ph by (simp add: unat_sub_if')
  have "(?H - unat p) * ?P \<le> ?H * ?P" by (intro mult_le_mono1) simp
  also have "?H * ?P < 2 ^ 32" using wf by (simp add: fb_wf_def)
  finally have n: "unat n = (?H - unat p) * ?P"
    unfolding n_def hp [symmetric] by (rule unat_mult_u32)
  have sum: "unat p * ?P + unat n = ?H * ?P" using ph unfolding n by (simp add: diff_mult_distrib)
  have lim: "unat (fb_base f) + (unat p * ?P + unat n) \<le> 2 ^ 64" using wf sum by (simp add: fb_wf_def)
  have m1: "m1 a = (if a \<in> region (fb_base f) (unat n) then m (a + of_nat (unat p * ?P)) else m a)" for a
    unfolding m1_def copy_forward [OF lim] by simp
  have src: "(ucast (p * fb_pitch f) :: u64) = of_nat (unat p * ?P)" unfolding ucast_unat row_product [OF wf p] ..
  have m': "m' = fb_fill_rect f 0 (fb_h f - p) (fb_w f) p 0 m1"
    using p by (simp add: m'_def fb_scroll_up_def m1_def n_def src Let_def not_le [symmetric] del: of_nat_mult)
  have fill: "paints f (({0..<unat (fb_w f)} \<times> {?H - unat p..<?H}) \<inter> on_screen f) (\<lambda>_ _. 0) m1 m'"
  proof -
    have "unat (fb_h f - p) + unat p = ?H" using hp ph by simp
    then show ?thesis unfolding m'
      using fill_rect_paints [OF wf, of 0 "fb_w f" "fb_h f - p" p 0 m1] unat_bound [of "fb_w f"] unat_bound [of "fb_h f"] hp
      by simp
  qed
  have keep: "pixel f m1 x y = pixel f m x (y + unat p)" if xy: "x < unat (fb_w f)" "y + unat p < ?H" for x y
  proof -
    have "y * ?P + 4 * x + 4 \<le> unat n"
    proof -
      have "Suc y * ?P \<le> (?H - unat p) * ?P" using xy(2) by (intro mult_le_mono1) simp
      then show ?thesis using wf xy(1) unfolding n by (simp add: fb_wf_def)
    qed
    then have "pixel_at f x y + of_nat k \<in> region (fb_base f) (unat n)" if "k < 4" for k
      using that in_region_add [of "y * ?P + 4 * x + k" "unat n" "fb_base f"] unat_bound [of n]
      by (simp add: pixel_at_def add.assoc)
    moreover have e: "pixel_at f x y + of_nat k + of_nat (unat p * ?P) = pixel_at f x (y + unat p) + of_nat k" for k
      by (simp add: pixel_at_def algebra_simps)
    ultimately show ?thesis unfolding pixel_def by (intro rd32_shift) (simp only: m1 if_True e)
  qed
  show "\<forall>(x, y) \<in> on_screen f. pixel f m' x y = (if y + unat p < ?H then pixel f m x (y + unat p) else 0)"
    using fill keep by (auto simp: paints_def on_screen_def)
  have "m1 a = m a" if "a \<notin> fb_bytes f" for a
    using that region_mono [of "unat n" "?H * ?P" "fb_base f"] sum by (auto simp: m1 fb_bytes_def)
  then show "\<forall>a. a \<notin> fb_bytes f \<longrightarrow> m' a = m a" using fill by (simp add: paints_def)
qed

section \<open>Properties\<close>

definition demo_fb :: fb where
  "demo_fb = \<lparr>fb_base = 0xE0000000, fb_w = 1024, fb_h = 768, fb_pitch = 4096, fb_bpp = 32, fb_ok = True\<rparr>"

lemma demo_fb_wf: "fb_wf demo_fb"
  by (simp add: fb_wf_def demo_fb_def)

text \<open>
  C20: \<^verbatim>\<open>fb_fill_rect\<close> sets exactly the pixels of the rectangle that are on the screen and writes
  no byte outside the frame buffer, for rectangles whose corner sums fit 32 bits.
\<close>

theorem fb_fill_rect_correct:
  assumes "fb_wf f" "unat x + unat w < 2 ^ 32" "unat y + unat h < 2 ^ 32"
  shows "paints f (({unat x..<unat x + unat w} \<times> {unat y..<unat y + unat h}) \<inter> on_screen f) (\<lambda>_ _. rgb) m
    (fb_fill_rect f x y w h rgb m)"
  by (rule fill_rect_paints [OF assms])

theorem fb_fill_rect_correct_witness:
  "pixel demo_fb (fb_fill_rect demo_fb 1000 10 100 5 0xFF (\<lambda>_. 0)) 1023 12 = 0xFF"
  using fb_fill_rect_correct [OF demo_fb_wf, of 1000 100 10 5 "0xFF" "\<lambda>_. 0"]
  by (auto simp: paints_def on_screen_def demo_fb_def)

text \<open>
  C21: \<^verbatim>\<open>fb_draw_glyph\<close> of a glyph that fits the screen paints the scaled square with the
  foreground where the glyph has a bit and the background elsewhere, and changes nothing else.
\<close>

theorem fb_draw_glyph_correct:
  assumes "fb_wf f" "fb_ok f"
    and "unat cx + 8 * unat scale \<le> unat (fb_w f)" "unat cy + 8 * unat scale \<le> unat (fb_h f)"
  shows "paints f ({unat cx..<unat cx + 8 * unat scale} \<times> {unat cy..<unat cy + 8 * unat scale})
    (glyph_colour glyph (unat scale) (unat cx) (unat cy) fg bg) m (fb_draw_glyph f cx cy glyph fg bg scale m)"
  by (rule draw_glyph_paints [OF assms])

theorem fb_draw_glyph_correct_witness:
  "pixel demo_fb (fb_draw_glyph demo_fb 16 32 [0x80, 0, 0, 0, 0, 0, 0, 0] 0xAAAAAA 0 2 (\<lambda>_. 0)) 17 33 = 0xAAAAAA"
proof -
  have "bit (0x80 :: u8) 7" by simp
  then show ?thesis
    using fb_draw_glyph_correct [OF demo_fb_wf, of 16 2 32 "[0x80, 0, 0, 0, 0, 0, 0, 0]" "0xAAAAAA" 0 "\<lambda>_. 0"]
    by (auto simp: paints_def on_screen_def demo_fb_def glyph_colour_def)
qed

text \<open>
  C22: \<^verbatim>\<open>fb_scroll_up\<close> moves every pixel row up by the given number of rows, although source and
  target overlap, clears the rows that become free, and changes nothing outside the buffer.
\<close>

theorem fb_scroll_up_correct:
  assumes "fb_wf f" "p < fb_h f"
  shows "(\<forall>(x, y) \<in> on_screen f. pixel f (fb_scroll_up f p m) x y =
      (if y + unat p < unat (fb_h f) then pixel f m x (y + unat p) else 0)) \<and>
    (\<forall>a. a \<notin> fb_bytes f \<longrightarrow> fb_scroll_up f p m a = m a)"
  using scroll_pixels [OF assms refl] by blast

theorem fb_scroll_up_correct_witness:
  "pixel demo_fb (fb_scroll_up demo_fb 16 (\<lambda>_. 0xFF)) 5 700 = 0xFFFFFFFF \<and>
   pixel demo_fb (fb_scroll_up demo_fb 16 (\<lambda>_. 0xFF)) 5 760 = 0"
proof -
  have "pixel demo_fb (\<lambda>_. 0xFF) x y = 0xFFFFFFFF" for x y by (simp add: pixel_def mem_eval)
  then show ?thesis using fb_scroll_up_correct [OF demo_fb_wf, of 16 "\<lambda>_. 0xFF"]
    by (auto simp: on_screen_def demo_fb_def)
qed

end
