(* ===== verification/Terminal.thy ===== *)
theory Terminal
  imports Framebuffer
begin

text \<open>
  The text terminal, \<^verbatim>\<open>src/kernel/graphics/terminal.c\<close>: a cursor over either the frame buffer
  (16 by 16 pixels per character, the column counted in pixels) or the VGA text buffer at
  \<^verbatim>\<open>0xB8000\<close> (80 by 25 cells). Characters are bytes.

  \<open>terminal_ok\<close> keeps the cursor on the screen and \<open>screen_bytes\<close> are the bytes the terminal may
  write. In VGA mode the terminal refines the grid of cells \<open>vga_putchar\<close> works on.
\<close>

section \<open>State\<close>

record terminal =
  terminal_row :: u64
  terminal_column :: u64
  terminal_color :: u8
  term_fg :: u32
  term_bg :: u32
  tfb :: fb
  tmem :: mem

definition vga_palette :: "u32 list" where
  "vga_palette =
     [0x000000, 0x0000AA, 0x00AA00, 0x00AAAA, 0xAA0000, 0xAA00AA, 0xAA5500, 0xAAAAAA,
      0x555555, 0x5555FF, 0x55FF55, 0x55FFFF, 0xFF5555, 0xFF55FF, 0xFFFF55, 0xFFFFFF]"

definition terminal_initial :: "fb \<Rightarrow> mem \<Rightarrow> terminal" where
  "terminal_initial f m = \<lparr>terminal_row = 0, terminal_column = 0, terminal_color = 0, term_fg = 0xAAAAAA,
     term_bg = 0, tfb = f, tmem = m\<rparr>"

definition vga_entry_color :: "u8 \<Rightarrow> u8 \<Rightarrow> u8" where "vga_entry_color fg bg = fg OR push_bit 4 bg"

abbreviation VGA_W :: u64 where "VGA_W \<equiv> 80"
abbreviation VGA_H :: u64 where "VGA_H \<equiv> 25"

definition vga_addr :: "u64 \<Rightarrow> u64" where "vga_addr i = 0xB8000 + 2 * i"

definition vga_char :: "u8 \<Rightarrow> u8 \<Rightarrow> u16" where "vga_char c color = ucast c OR push_bit 8 (ucast color)"

definition vga_blank :: u16 where "vga_blank = vga_char 0x20 0x07"

definition scroll_vga :: "terminal \<Rightarrow> terminal" where
  "scroll_vga t =
     (let m = for_loop 1 VGA_H (\<lambda>y. for_loop 0 VGA_W (\<lambda>x m.
                wr16 m (vga_addr ((y - 1) * VGA_W + x)) (rd16 m (vga_addr (y * VGA_W + x))))) (tmem t);
          m = for_loop 0 VGA_W (\<lambda>x m. wr16 m (vga_addr ((VGA_H - 1) * VGA_W + x)) vga_blank) m
      in t\<lparr>tmem := m, terminal_row := VGA_H - 1, terminal_column := 0\<rparr>)"

section \<open>Frame buffer mode\<close>

abbreviation CHAR_H :: u64 where "CHAR_H \<equiv> 16"
abbreviation CHAR_W :: u64 where "CHAR_W \<equiv> 16"

definition draw_char_fb :: "u32 \<Rightarrow> u32 \<Rightarrow> u8 \<Rightarrow> terminal \<Rightarrow> terminal" where
  "draw_char_fb cx cy c t =
     (if sint cx < 0 \<or> sint cy < 0 then t
      else
        let c = (if c < 32 \<or> c > 126 then 0x3F else c);
            glyph = font_data ! unat (c - 32)
        in t\<lparr>tmem := fb_draw_glyph (tfb t) cx cy glyph (term_fg t) (term_bg t) 2 (tmem t)\<rparr>)"

definition scroll_fb :: "terminal \<Rightarrow> terminal" where
  "scroll_fb t = t\<lparr>tmem := fb_scroll_up (tfb t) 16 (tmem t),
     terminal_row := ucast (fb_h (tfb t) div 16 - 1), terminal_column := 0\<rparr>"

text \<open>End of line: first column of the next row, scrolling when the row does not fit.\<close>

definition newline_fb :: "terminal \<Rightarrow> terminal" where
  "newline_fb t =
     (let t = t\<lparr>terminal_column := 0, terminal_row := terminal_row t + 1\<rparr>
      in if (terminal_row t + 1) * CHAR_H > ucast (fb_h (tfb t)) then scroll_fb t else t)"

definition putchar_fb :: "u8 \<Rightarrow> terminal \<Rightarrow> terminal" where
  "putchar_fb c t =
     (if c = 0x0A then newline_fb t
      else if c = 0x08 then
        let t = t\<lparr>terminal_column := (if terminal_column t \<ge> CHAR_W then terminal_column t - CHAR_W else 0)\<rparr>
        in draw_char_fb (ucast (terminal_column t)) (ucast (terminal_row t * CHAR_H)) 0x20 t
      else
        let t = draw_char_fb (ucast (terminal_column t)) (ucast (terminal_row t * CHAR_H)) c t;
            t = t\<lparr>terminal_column := terminal_column t + CHAR_W\<rparr>
        in if terminal_column t + CHAR_W > ucast (fb_w (tfb t)) then newline_fb t else t)"

section \<open>VGA text mode\<close>

definition newline_vga :: "terminal \<Rightarrow> terminal" where
  "newline_vga t =
     (let t = t\<lparr>terminal_column := 0, terminal_row := terminal_row t + 1\<rparr>
      in if terminal_row t = VGA_H then scroll_vga t else t)"

definition put_cell :: "u16 \<Rightarrow> terminal \<Rightarrow> terminal" where
  "put_cell v t = t\<lparr>tmem := wr16 (tmem t) (vga_addr (terminal_row t * VGA_W + terminal_column t)) v\<rparr>"

definition putchar_vga :: "u8 \<Rightarrow> terminal \<Rightarrow> terminal" where
  "putchar_vga c t =
     (if c = 0x0A then newline_vga t
      else if c = 0x08 then
        let t = (if terminal_column t > 0 then t\<lparr>terminal_column := terminal_column t - 1\<rparr>
                 else if terminal_row t > 0
                 then t\<lparr>terminal_row := terminal_row t - 1, terminal_column := VGA_W - 1\<rparr> else t)
        in put_cell vga_blank t
      else
        let t = put_cell (vga_char c (terminal_color t)) t;
            t = t\<lparr>terminal_column := terminal_column t + 1\<rparr>
        in if terminal_column t = VGA_W then newline_vga t else t)"

section \<open>The terminal\<close>

definition clear_terminal :: "terminal \<Rightarrow> terminal" where
  "clear_terminal t =
     t\<lparr>tmem := (if fb_ok (tfb t) then fb_clear (tfb t) (term_bg t) (tmem t)
                else for_loop 0 (VGA_W * VGA_H) (\<lambda>i m. wr16 m (vga_addr i) vga_blank) (tmem t)),
       terminal_row := 0, terminal_column := 0\<rparr>"

definition terminal_initialize :: "terminal \<Rightarrow> terminal" where
  "terminal_initialize t = (clear_terminal t)\<lparr>terminal_color := vga_entry_color 7 0\<rparr>"

definition terminal_setcolor :: "u8 \<Rightarrow> terminal \<Rightarrow> terminal" where
  "terminal_setcolor color t =
     t\<lparr>terminal_color := color, term_fg := vga_palette ! unat (color AND 0x0F),
       term_bg := vga_palette ! unat (drop_bit 4 color AND 0x0F)\<rparr>"

definition terminal_putentryat :: "u8 \<Rightarrow> u8 \<Rightarrow> u64 \<Rightarrow> u64 \<Rightarrow> terminal \<Rightarrow> terminal" where
  "terminal_putentryat c color x y t =
     (if fb_ok (tfb t) then draw_char_fb (ucast x) (ucast y) c t
      else if x \<ge> VGA_W \<or> y \<ge> VGA_H then t
      else t\<lparr>tmem := wr16 (tmem t) (vga_addr (y * VGA_W + x)) (vga_char c color)\<rparr>)"

definition terminal_putchar :: "u8 \<Rightarrow> terminal \<Rightarrow> terminal" where
  "terminal_putchar c t = (if fb_ok (tfb t) then putchar_fb c t else putchar_vga c t)"

definition terminal_write :: "u64 \<Rightarrow> u64 \<Rightarrow> terminal \<Rightarrow> terminal" where
  "terminal_write data sz t = for_loop 0 sz (\<lambda>i t. terminal_putchar (tmem t (data + i)) t) t"

text \<open>\<^verbatim>\<open>terminal_write_string\<close> on the characters of a terminated string held elsewhere.\<close>

definition terminal_print :: "u8 list \<Rightarrow> terminal \<Rightarrow> terminal" where
  "terminal_print s t = fold terminal_putchar s t"

section \<open>Specification\<close>

definition vga_bytes :: "u64 set" where "vga_bytes = region 0xB8000 4000"

definition screen_bytes :: "terminal \<Rightarrow> u64 set" where
  "screen_bytes t = (if fb_ok (tfb t) then fb_bytes (tfb t) else vga_bytes)"

definition terminal_ok :: "terminal \<Rightarrow> bool" where
  "terminal_ok t \<longleftrightarrow>
     (if fb_ok (tfb t) then
        fb_wf (tfb t) \<and> 16 \<le> unat (fb_w (tfb t)) \<and> 16 \<le> unat (fb_h (tfb t)) \<and>
        unat (fb_w (tfb t)) < 2 ^ 31 \<and> unat (fb_h (tfb t)) < 2 ^ 31 \<and>
        (unat (terminal_row t) + 1) * 16 \<le> unat (fb_h (tfb t)) \<and>
        unat (terminal_column t) + 16 \<le> unat (fb_w (tfb t))
      else terminal_row t < VGA_H \<and> terminal_column t < VGA_W)"

text \<open>The grid of cells shown in VGA mode.\<close>

definition cells :: "mem \<Rightarrow> nat \<Rightarrow> u16" where
  "cells m i = (if i < 2000 then rd16 m (vga_addr (of_nat i)) else 0)"

record grid =
  grow :: nat
  gcol :: nat
  gcells :: "nat \<Rightarrow> u16"

definition grid_of :: "terminal \<Rightarrow> grid" where
  "grid_of t = \<lparr>grow = unat (terminal_row t), gcol = unat (terminal_column t), gcells = cells (tmem t)\<rparr>"

definition grid_newline :: "grid \<Rightarrow> grid" where
  "grid_newline g =
     (if grow g = 24
      then \<lparr>grow = 24, gcol = 0,
            gcells = (\<lambda>i. if i < 1920 then gcells g (i + 80) else if i < 2000 then vga_blank else 0)\<rparr>
      else g\<lparr>grow := grow g + 1, gcol := 0\<rparr>)"

definition grid_put :: "u16 \<Rightarrow> grid \<Rightarrow> grid" where
  "grid_put v g = g\<lparr>gcells := (gcells g)(grow g * 80 + gcol g := v)\<rparr>"

definition grid_putchar :: "u8 \<Rightarrow> u8 \<Rightarrow> grid \<Rightarrow> grid" where
  "grid_putchar color c g =
     (if c = 0x0A then grid_newline g
      else if c = 0x08 then
        grid_put vga_blank
          (if 0 < gcol g then g\<lparr>gcol := gcol g - 1\<rparr>
           else if 0 < grow g then g\<lparr>grow := grow g - 1, gcol := 79\<rparr> else g)
      else let g = grid_put (vga_char c color) g
           in if gcol g = 79 then grid_newline g else g\<lparr>gcol := gcol g + 1\<rparr>)"

section \<open>Cells in memory\<close>

definition vga_only :: "mem \<Rightarrow> mem \<Rightarrow> bool" where
  "vga_only m m' \<longleftrightarrow> (\<forall>a. a \<notin> vga_bytes \<longrightarrow> m' a = m a)"

lemma vga_only_refl [simp]: "vga_only m m"
  by (simp add: vga_only_def)

lemma vga_only_trans: "vga_only m m1 \<Longrightarrow> vga_only m1 m2 \<Longrightarrow> vga_only m m2"
  by (simp add: vga_only_def)

lemma unat_vga_addr: "unat i < 2000 \<Longrightarrow> unat (vga_addr i) = 0xB8000 + 2 * unat i"
proof -
  assume "unat i < 2000"
  then have "unat (0xB8000 + of_nat (2 * unat i) :: u64) = unat (0xB8000 :: u64) + 2 * unat i"
    by (intro unat_add_of_nat) simp
  then show ?thesis by (simp add: vga_addr_def)
qed

lemma vga_cell_bytes: "unat i < 2000 \<Longrightarrow> region (vga_addr i) 2 \<subseteq> vga_bytes"
proof
  fix x assume i: "unat i < 2000" and "x \<in> region (vga_addr i) 2"
  then obtain k where k: "k < 2" "x = vga_addr i + of_nat k" using region_nth by blast
  have "x = 0xB8000 + of_nat (2 * unat i + k)" using k(2) by (simp add: vga_addr_def)
  then show "x \<in> vga_bytes"
    using in_region_add [of "2 * unat i + k" 4000 "0xB8000"] i k(1) by (simp add: vga_bytes_def)
qed

lemma vga_cell_disjoint:
  assumes "unat i < 2000" "unat j < 2000" "i \<noteq> j"
  shows "region (vga_addr i) 2 \<inter> region (vga_addr j) 2 = {}"
proof -
  have "unat i \<noteq> unat j" using assms(3) by (simp add: word_unat_eq_iff)
  then have "unat (vga_addr i) + 2 \<le> unat (vga_addr j) \<or> unat (vga_addr j) + 2 \<le> unat (vga_addr i)"
    using unat_vga_addr [OF assms(1)] unat_vga_addr [OF assms(2)] by linarith
  moreover have "unat (vga_addr i) + 2 \<le> 2 ^ 64" "unat (vga_addr j) + 2 \<le> 2 ^ 64"
    using unat_vga_addr [OF assms(1)] unat_vga_addr [OF assms(2)] assms(1,2) by simp_all
  ultimately show ?thesis using region_disjoint by blast
qed

lemma cells_put:
  assumes "unat i < 2000"
  shows "cells (wr16 m (vga_addr i) v) = (cells m)(unat i := v)" "vga_only m (wr16 m (vga_addr i) v)"
proof -
  show "cells (wr16 m (vga_addr i) v) = (cells m)(unat i := v)"
  proof
    fix k
    show "cells (wr16 m (vga_addr i) v) k = ((cells m)(unat i := v)) k"
    proof (cases "k < 2000 \<and> k \<noteq> unat i")
      case True
      then have u: "unat (of_nat k :: u64) = k" by (intro unat_of_nat_small) simp
      then have "(of_nat k :: u64) \<noteq> i" using True by auto
      then have "region (vga_addr (of_nat k)) 2 \<inter> region (vga_addr i) 2 = {}"
        using True u assms by (intro vga_cell_disjoint) simp_all
      then show ?thesis using True by (simp add: cells_def rd16_wr16_disjoint)
    next
      case False
      then show ?thesis using assms by (cases "k = unat i") (simp_all add: cells_def rd16_wr16)
    qed
  qed
  show "vga_only m (wr16 m (vga_addr i) v)"
    using vga_cell_bytes [OF assms] unfolding vga_only_def by (meson wr16_outside subsetD)
qed

lemma cells_get: "unat i < 2000 \<Longrightarrow> rd16 m (vga_addr i) = cells m (unat i)"
  by (simp add: cells_def)

lemma cells_out: "\<not> i < 2000 \<Longrightarrow> cells m i = 0"
  by (simp add: cells_def)

lemma cell_index:
  fixes x y :: u64
  assumes "unat y < 25" "unat x < 80"
  shows "unat (y * 80 + x) = unat y * 80 + unat x" "unat y * 80 + unat x < 2000"
proof -
  have "unat (of_nat (unat y * 80 + unat x) :: u64) = unat y * 80 + unat x"
    using assms by (intro unat_of_nat_small) simp
  then show "unat (y * 80 + x) = unat y * 80 + unat x" by simp
qed (use assms in simp)

section \<open>Scrolling\<close>

lemma scroll_row:
  fixes y :: u64
  assumes y: "1 \<le> y" "y < 25"
  defines "m' \<equiv> \<lambda>m. for_loop 0 80 (\<lambda>x m. wr16 m (vga_addr ((y - 1) * 80 + x)) (rd16 m (vga_addr (y * 80 + x)))) m"
  shows "cells (m' m) = (\<lambda>k. if (unat y - 1) * 80 \<le> k \<and> k < unat y * 80 then cells m (k + 80) else cells m k) \<and>
    vga_only m (m' m)"
proof -
  let ?g = "\<lambda>x k. if (unat y - 1) * 80 \<le> k \<and> k < (unat y - 1) * 80 + unat x then cells m (k + 80) else cells m k"
  have Y: "unat y < 25" "1 \<le> unat y" "unat (y - 1) = unat y - 1"
    using y by (auto simp: word_less_nat_alt word_le_nat_alt unat_sub_if')
  have "cells (m' m) = ?g (80 :: u64) \<and> vga_only m (m' m)"
    unfolding m'_def
  proof (rule for_loop_inv [where P = "\<lambda>(x :: u64) t. cells t = ?g x \<and> vga_only m t"])
    fix x :: u64 and t assume x: "x < 80" and t: "cells t = ?g x \<and> vga_only m t"
    have X: "unat x < 80" using x by (simp add: word_less_nat_alt)
    note src = cell_index [OF Y(1) X]
    have dst: "unat ((y - 1) * 80 + x) = (unat y - 1) * 80 + unat x" "(unat y - 1) * 80 + unat x < 2000"
      using cell_index [of "y - 1" x] Y X by simp_all
    have yy: "unat y * 80 = (unat y - 1) * 80 + 80" using Y(2) by (simp add: diff_mult_distrib)
    have "rd16 t (vga_addr (y * 80 + x)) = cells m ((unat y - 1) * 80 + unat x + 80)"
      using cells_get [of "y * 80 + x" t] src t yy by (simp add: ac_simps)
    then show "cells (wr16 t (vga_addr ((y - 1) * 80 + x)) (rd16 t (vga_addr (y * 80 + x)))) = ?g (x + 1) \<and>
        vga_only m (wr16 t (vga_addr ((y - 1) * 80 + x)) (rd16 t (vga_addr (y * 80 + x))))"
      using cells_put [of "(y - 1) * 80 + x" t] dst t vga_only_trans unat_Suc_less [OF x]
      by (auto simp: fun_eq_iff)
  qed (auto simp: fun_eq_iff)
  moreover have "(unat y - 1) * 80 + unat (80 :: u64) = unat y * 80" using Y(2) by (simp add: diff_mult_distrib)
  ultimately show ?thesis by simp
qed

lemma scroll_vga_result:
  "cells (tmem (scroll_vga t)) =
     (\<lambda>k. if k < 1920 then cells (tmem t) (k + 80) else if k < 2000 then vga_blank else 0)"
  "vga_only (tmem t) (tmem (scroll_vga t))"
proof -
  define m1 where "m1 = for_loop 1 VGA_H (\<lambda>y. for_loop 0 VGA_W (\<lambda>x m.
      wr16 m (vga_addr ((y - 1) * VGA_W + x)) (rd16 m (vga_addr (y * VGA_W + x))))) (tmem t)"
  define m2 where "m2 = for_loop 0 VGA_W (\<lambda>x m. wr16 m (vga_addr ((VGA_H - 1) * VGA_W + x)) vga_blank) m1"
  let ?g = "\<lambda>y k. if k < (unat (y :: u64) - 1) * 80 then cells (tmem t) (k + 80) else cells (tmem t) k"
  have m1: "cells m1 = ?g VGA_H \<and> vga_only (tmem t) m1"
    unfolding m1_def
  proof (rule for_loop_inv [where P = "\<lambda>y s. cells s = ?g y \<and> vga_only (tmem t) s"])
    fix y s assume y: "1 \<le> y" "y < VGA_H" and s: "cells s = ?g y \<and> vga_only (tmem t) s"
    have "1 \<le> unat y" using y by (simp add: word_le_nat_alt)
    then have yy: "unat y * 80 = (unat y - 1) * 80 + 80" by (simp add: diff_mult_distrib)
    show "cells (for_loop 0 80 (\<lambda>x m. wr16 m (vga_addr ((y - 1) * 80 + x)) (rd16 m (vga_addr (y * 80 + x)))) s) = ?g (y + 1) \<and>
        vga_only (tmem t) (for_loop 0 80 (\<lambda>x m. wr16 m (vga_addr ((y - 1) * 80 + x)) (rd16 m (vga_addr (y * 80 + x)))) s)"
      using scroll_row [OF y, of s] s vga_only_trans unat_Suc_less [OF y(2)] yy by (auto simp: fun_eq_iff)
  qed (auto simp: fun_eq_iff)
  let ?h = "\<lambda>x k. if 1920 \<le> k \<and> k < 1920 + unat (x :: u64) then vga_blank else cells m1 k"
  have "cells m2 = ?h VGA_W \<and> vga_only m1 m2"
    unfolding m2_def
  proof (rule for_loop_inv [where P = "\<lambda>x s. cells s = ?h x \<and> vga_only m1 s"])
    fix x s assume x: "x < VGA_W" and s: "cells s = ?h x \<and> vga_only m1 s"
    have X: "unat x < 80" using x by (simp add: word_less_nat_alt)
    then have "unat (24 * 80 + x) = 1920 + unat x" using cell_index [of 24 x] by simp
    then show "cells (wr16 s (vga_addr ((VGA_H - 1) * VGA_W + x)) vga_blank) = ?h (x + 1) \<and>
        vga_only m1 (wr16 s (vga_addr ((VGA_H - 1) * VGA_W + x)) vga_blank)"
      using cells_put [of "24 * 80 + x" s] s X vga_only_trans unat_Suc_less [OF x] by (auto simp: fun_eq_iff)
  qed (auto simp: fun_eq_iff)
  moreover have e: "tmem (scroll_vga t) = m2" by (simp add: scroll_vga_def m2_def m1_def Let_def)
  ultimately show "cells (tmem (scroll_vga t)) =
     (\<lambda>k. if k < 1920 then cells (tmem t) (k + 80) else if k < 2000 then vga_blank else 0)"
    "vga_only (tmem t) (tmem (scroll_vga t))"
    using m1 vga_only_trans unfolding e by (auto simp: fun_eq_iff cells_out)
qed

section \<open>VGA mode refines the grid\<close>

lemma unat_succ_small: "unat x < 1000 \<Longrightarrow> unat (x + 1) = unat x + 1" for x :: u64
  using unat_add_of_nat [of x 1] by simp

lemma scroll_vga_fields [simp]:
  "terminal_row (scroll_vga t) = 24" "terminal_column (scroll_vga t) = 0" "tfb (scroll_vga t) = tfb t"
  "terminal_color (scroll_vga t) = terminal_color t"
  by (simp_all add: scroll_vga_def Let_def)

lemma newline_vga_grid:
  assumes "unat (terminal_row t) < 25"
  shows "grid_of (newline_vga t) = grid_newline (grid_of t)" "vga_only (tmem t) (tmem (newline_vga t))"
    "tfb (newline_vga t) = tfb t" "terminal_color (newline_vga t) = terminal_color t"
    "terminal_row (newline_vga t) < 25" "terminal_column (newline_vga t) < 80"
proof -
  have r: "unat (terminal_row t + 1) = unat (terminal_row t) + 1" using assms by (intro unat_succ_small) simp
  have e: "terminal_row t + 1 = 25 \<longleftrightarrow> unat (terminal_row t) = 24"
    using r by (auto simp: word_unat_eq_iff)
  show "grid_of (newline_vga t) = grid_newline (grid_of t)" "vga_only (tmem t) (tmem (newline_vga t))"
    "tfb (newline_vga t) = tfb t" "terminal_color (newline_vga t) = terminal_color t"
    "terminal_row (newline_vga t) < 25" "terminal_column (newline_vga t) < 80"
    using e r assms scroll_vga_result [of "t\<lparr>terminal_column := 0, terminal_row := terminal_row t + 1\<rparr>"]
    by (auto simp: newline_vga_def grid_newline_def grid_of_def Let_def word_less_nat_alt scroll_vga_fields)
qed


lemma put_cell_grid:
  assumes "unat (terminal_row t) < 25" "unat (terminal_column t) < 80"
  shows "grid_of (put_cell v t) = grid_put v (grid_of t)" "vga_only (tmem t) (tmem (put_cell v t))"
  using cells_put [of "terminal_row t * 80 + terminal_column t" "tmem t" v] cell_index [OF assms]
  by (simp_all add: put_cell_def grid_put_def grid_of_def)

lemma put_cell_fields [simp]:
  "terminal_row (put_cell v t) = terminal_row t" "terminal_column (put_cell v t) = terminal_column t"
  "tfb (put_cell v t) = tfb t" "terminal_color (put_cell v t) = terminal_color t"
  by (simp_all add: put_cell_def)

lemma putchar_vga_grid:
  assumes ok: "unat (terminal_row t) < 25" "unat (terminal_column t) < 80"
  shows "grid_of (putchar_vga c t) = grid_putchar (terminal_color t) c (grid_of t) \<and>
    vga_only (tmem t) (tmem (putchar_vga c t)) \<and> tfb (putchar_vga c t) = tfb t \<and>
    terminal_color (putchar_vga c t) = terminal_color t \<and>
    terminal_row (putchar_vga c t) < 25 \<and> terminal_column (putchar_vga c t) < 80"
proof -
  consider (nl) "c = 0x0A" | (bs) "c = 0x08" | (ch) "c \<noteq> 0x0A" "c \<noteq> 0x08" by blast
  then show ?thesis
  proof cases
    case nl
    then show ?thesis using newline_vga_grid [OF ok(1)] by (simp add: putchar_vga_def grid_putchar_def)
  next
    case bs
    define s where "s = (if terminal_column t > 0 then t\<lparr>terminal_column := terminal_column t - 1\<rparr>
       else if terminal_row t > 0 then t\<lparr>terminal_row := terminal_row t - 1, terminal_column := VGA_W - 1\<rparr> else t)"
    have s: "unat (terminal_row s) < 25" "unat (terminal_column s) < 80" "tmem s = tmem t" "tfb s = tfb t"
      "terminal_color s = terminal_color t"
      using ok by (auto simp: s_def word_less_nat_alt unat_sub_if')
    have g: "grid_of s = (if 0 < gcol (grid_of t) then (grid_of t)\<lparr>gcol := gcol (grid_of t) - 1\<rparr>
        else if 0 < grow (grid_of t) then (grid_of t)\<lparr>grow := grow (grid_of t) - 1, gcol := 79\<rparr> else grid_of t)"
      by (auto simp: s_def grid_of_def word_less_nat_alt unat_sub_if')
    have "putchar_vga c t = put_cell vga_blank s" using bs by (simp add: putchar_vga_def s_def)
    then show ?thesis using put_cell_grid [OF s(1,2)] s g bs by (simp add: grid_putchar_def word_less_nat_alt)
  next
    case ch
    define s where "s = (put_cell (vga_char c (terminal_color t)) t)\<lparr>terminal_column := terminal_column t + 1\<rparr>"
    have col: "unat (terminal_column t + 1) = unat (terminal_column t) + 1" using ok by (intro unat_succ_small) simp
    have e: "terminal_column t + 1 = 80 \<longleftrightarrow> unat (terminal_column t) = 79" using col by (auto simp: word_unat_eq_iff)
    have p: "putchar_vga c t = (if terminal_column t + 1 = 80 then newline_vga s else s)"
      using ch by (simp add: putchar_vga_def s_def Let_def)
    note pc = put_cell_grid [OF ok, of "vga_char c (terminal_color t)"]
    have s: "unat (terminal_row s) < 25" "vga_only (tmem t) (tmem s)" "tfb s = tfb t" "terminal_color s = terminal_color t"
      using ok pc by (simp_all add: s_def)
    have g: "grid_of s = (grid_put (vga_char c (terminal_color t)) (grid_of t))\<lparr>gcol := unat (terminal_column t) + 1\<rparr>"
      using pc(1) col by (simp add: s_def grid_of_def grid_put_def)
    have gc: "gcol (grid_put v (grid_of t)) = unat (terminal_column t)" for v by (simp add: grid_put_def grid_of_def)
    have gn: "grid_newline (h\<lparr>gcol := k\<rparr>) = grid_newline h" for h k by (simp add: grid_newline_def cong: if_cong)
    show ?thesis
    proof (cases "terminal_column t + 1 = 80")
      case True
      then show ?thesis using newline_vga_grid [OF s(1)] s g e ch p gc gn vga_only_trans [OF s(2)]
        by (simp add: grid_putchar_def Let_def)
    next
      case False
      then show ?thesis using s g e ch p gc ok col
        by (simp add: grid_putchar_def Let_def word_less_nat_alt) (simp add: s_def)
    qed
  qed
qed

section \<open>Frame buffer mode keeps the cursor on the screen\<close>

definition fb_only :: "fb \<Rightarrow> mem \<Rightarrow> mem \<Rightarrow> bool" where
  "fb_only f m m' \<longleftrightarrow> (\<forall>a. a \<notin> fb_bytes f \<longrightarrow> m' a = m a)"

lemma fb_only_refl [simp]: "fb_only f m m"
  by (simp add: fb_only_def)

lemma fb_only_trans: "fb_only f m m1 \<Longrightarrow> fb_only f m1 m2 \<Longrightarrow> fb_only f m m2"
  by (simp add: fb_only_def)

lemma paints_fb_only: "paints f S C m m' \<Longrightarrow> fb_only f m m'"
  by (simp add: paints_def fb_only_def)

text \<open>The screen in frame buffer mode, and a cursor on it.\<close>

definition fb_cursor :: "fb \<Rightarrow> u64 \<Rightarrow> u64 \<Rightarrow> bool" where
  "fb_cursor f row col \<longleftrightarrow>
     fb_wf f \<and> 16 \<le> unat (fb_w f) \<and> 16 \<le> unat (fb_h f) \<and> unat (fb_w f) < 2 ^ 31 \<and> unat (fb_h f) < 2 ^ 31 \<and>
     (unat row + 1) * 16 \<le> unat (fb_h f) \<and> unat col + 16 \<le> unat (fb_w f)"

lemma draw_char_only:
  assumes ok: "fb_ok (tfb t)" and c: "fb_cursor (tfb t) (terminal_row t) (terminal_column t)"
    and t'_def: "t' = draw_char_fb (ucast (terminal_column t)) (ucast (terminal_row t * 16)) ch t"
  shows "fb_only (tfb t) (tmem t) (tmem t')" "tfb t' = tfb t" "terminal_row t' = terminal_row t"
    "terminal_column t' = terminal_column t"
proof -
  let ?cx = "ucast (terminal_column t) :: u32" and ?cy = "ucast (terminal_row t * 16) :: u32"
  have "unat (terminal_row t * 16) = unat (terminal_row t) * 16"
    using c by (simp add: fb_cursor_def unat_word_ariths)
  then have "unat ?cx = unat (terminal_column t)" "unat ?cy = unat (terminal_row t) * 16"
    using c by (simp_all add: fb_cursor_def unat_ucast_mod)
  then have "fb_only (tfb t) (tmem t) (fb_draw_glyph (tfb t) ?cx ?cy g (term_fg t) (term_bg t) 2 (tmem t))" for g
    using c by (intro paints_fb_only [OF draw_glyph_paints [OF _ ok]]) (simp_all add: fb_cursor_def)
  then show "fb_only (tfb t) (tmem t) (tmem t')" by (simp add: t'_def draw_char_fb_def Let_def)
  show "tfb t' = tfb t" "terminal_row t' = terminal_row t" "terminal_column t' = terminal_column t"
    by (simp_all add: t'_def draw_char_fb_def Let_def)
qed

lemma newline_fb_ok:
  assumes "fb_cursor (tfb t) (terminal_row t) col"
  shows "fb_cursor (tfb t) (terminal_row (newline_fb t)) (terminal_column (newline_fb t))"
    "fb_only (tfb t) (tmem t) (tmem (newline_fb t))" "tfb (newline_fb t) = tfb t"
proof -
  let ?H = "unat (fb_h (tfb t))"
  have c: "fb_wf (tfb t)" "16 \<le> ?H" "?H < 2 ^ 31" "(unat (terminal_row t) + 1) * 16 \<le> ?H"
    using assms by (simp_all add: fb_cursor_def)
  have r1: "unat (terminal_row t + 1) = unat (terminal_row t) + 1" using c(3,4) unat_add_of_nat [of "terminal_row t" 1] by simp
  have "unat ((terminal_row t + 1 + 1) * 16) = (unat (terminal_row t) + 2) * 16"
  proof -
    have "(terminal_row t + 1 + 1) * 16 = of_nat ((unat (terminal_row t) + 2) * 16)" by (simp add: algebra_simps)
    then show ?thesis using c(3,4) unat_of_nat_small [of "(unat (terminal_row t) + 2) * 16", where 'a = 64]
      by (simp del: of_nat_add of_nat_mult)
  qed
  moreover have "unat (ucast (fb_h (tfb t)) :: u64) = ?H" using unat_bound [of "fb_h (tfb t)"] by (simp add: unat_ucast_mod)
  ultimately have g: "(terminal_row t + 1 + 1) * 16 > ucast (fb_h (tfb t)) \<longleftrightarrow> ?H < (unat (terminal_row t) + 2) * 16"
    by (simp add: word_less_nat_alt)
  have d: "unat (fb_h (tfb t) div 16 - 1) = ?H div 16 - 1" using c(2) by (simp add: unat_sub_if' unat_div)
  have d': "unat (ucast (fb_h (tfb t) div 16 - 1) :: u64) = ?H div 16 - 1"
    using d unat_bound [of "fb_h (tfb t) div 16 - 1"] by (simp add: unat_ucast_mod)
  have "(?H div 16 - 1 + 1) * 16 \<le> ?H" using c(2) by simp
  moreover have "fb_only (tfb t) (tmem t) (fb_scroll_up (tfb t) 16 (tmem t))"
    using scroll_pixels(2) [OF c(1), of 16 "fb_scroll_up (tfb t) 16 (tmem t)" "tmem t"]
    by (cases "16 < fb_h (tfb t)") (auto simp: fb_only_def fb_scroll_up_def)
  ultimately show "fb_cursor (tfb t) (terminal_row (newline_fb t)) (terminal_column (newline_fb t))"
    "fb_only (tfb t) (tmem t) (tmem (newline_fb t))" "tfb (newline_fb t) = tfb t"
    using assms g d' r1 by (auto simp: newline_fb_def Let_def scroll_fb_def fb_cursor_def)
qed

lemma putchar_fb_ok:
  assumes ok: "fb_ok (tfb t)" and c: "fb_cursor (tfb t) (terminal_row t) (terminal_column t)"
  shows "fb_cursor (tfb t) (terminal_row (putchar_fb ch t)) (terminal_column (putchar_fb ch t)) \<and>
    fb_only (tfb t) (tmem t) (tmem (putchar_fb ch t)) \<and> tfb (putchar_fb ch t) = tfb t"
proof -
  let ?W = "unat (fb_w (tfb t))"
  consider (nl) "ch = 0x0A" | (bs) "ch = 0x08" | (pr) "ch \<noteq> 0x0A" "ch \<noteq> 0x08" by blast
  then show ?thesis
  proof cases
    case nl
    then show ?thesis using newline_fb_ok [OF c] by (simp add: putchar_fb_def)
  next
    case bs
    define s where "s = t\<lparr>terminal_column := (if terminal_column t \<ge> 16 then terminal_column t - 16 else 0)\<rparr>"
    have cs: "fb_cursor (tfb s) (terminal_row s) (terminal_column s)"
      using c by (auto simp: s_def fb_cursor_def unat_sub_if' word_le_nat_alt)
    have oks: "fb_ok (tfb s)" and "tfb s = tfb t" "tmem s = tmem t" using ok by (simp_all add: s_def)
    moreover have p: "putchar_fb ch t = draw_char_fb (ucast (terminal_column s)) (ucast (terminal_row s * 16)) 0x20 s"
      using bs by (simp add: putchar_fb_def s_def Let_def)
    ultimately show ?thesis using draw_char_only [OF oks cs p] cs by simp
  next
    case pr
    define s where "s = draw_char_fb (ucast (terminal_column t)) (ucast (terminal_row t * 16)) ch t"
    define u where "u = s\<lparr>terminal_column := terminal_column t + 16\<rparr>"
    note d = draw_char_only [OF ok c s_def]
    have p: "putchar_fb ch t = (if terminal_column u + 16 > ucast (fb_w (tfb u)) then newline_fb u else u)"
      using pr d(4) by (simp add: putchar_fb_def s_def u_def Let_def)
    have W: "?W < 2 ^ 31" "unat (terminal_column t) + 16 \<le> ?W" using c by (simp_all add: fb_cursor_def)
    have c1: "unat (terminal_column t + 16) = unat (terminal_column t) + 16"
      using W unat_add_of_nat [of "terminal_column t" 16] by simp
    have e32: "terminal_column t + 16 + 16 = terminal_column t + of_nat 32" by simp
    have "unat (terminal_column t + 16 + 16) = unat (terminal_column t) + 32"
      unfolding e32 using W by (intro unat_add_of_nat) simp
    then have g: "terminal_column u + 16 > ucast (fb_w (tfb u)) \<longleftrightarrow> ?W < unat (terminal_column t) + 32"
      using unat_bound [of "fb_w (tfb t)"] d(2) by (simp add: u_def word_less_nat_alt unat_ucast_mod)
    have u: "tfb u = tfb t" "fb_only (tfb t) (tmem t) (tmem u)" "terminal_row u = terminal_row t"
      using d by (simp_all add: u_def)
    show ?thesis
    proof (cases "?W < unat (terminal_column t) + 32")
      case True
      then show ?thesis using newline_fb_ok [of u "terminal_column t"] c u p g fb_only_trans by auto
    next
      case False
      then show ?thesis using u p g c c1 d by (auto simp: fb_cursor_def u_def)
    qed
  qed
qed

section \<open>Both modes\<close>

lemma terminal_ok_fb: "fb_ok (tfb t) \<Longrightarrow> terminal_ok t \<longleftrightarrow> fb_cursor (tfb t) (terminal_row t) (terminal_column t)"
  by (simp add: terminal_ok_def fb_cursor_def)

lemma putchar_ok:
  assumes "terminal_ok t"
  shows "terminal_ok (terminal_putchar c t)" "tfb (terminal_putchar c t) = tfb t"
    "\<And>a. a \<notin> screen_bytes t \<Longrightarrow> tmem (terminal_putchar c t) a = tmem t a"
proof -
  have "terminal_ok (terminal_putchar c t) \<and> tfb (terminal_putchar c t) = tfb t \<and>
      (\<forall>a. a \<notin> screen_bytes t \<longrightarrow> tmem (terminal_putchar c t) a = tmem t a)"
  proof (cases "fb_ok (tfb t)")
    case True
    then show ?thesis using putchar_fb_ok [OF True, of c] assms terminal_ok_fb [OF True]
        terminal_ok_fb [of "putchar_fb c t"]
      by (auto simp: terminal_putchar_def screen_bytes_def fb_only_def)
  next
    case False
    then show ?thesis using putchar_vga_grid [of t c] assms
      by (auto simp: terminal_putchar_def terminal_ok_def screen_bytes_def vga_only_def word_less_nat_alt)
  qed
  then show "terminal_ok (terminal_putchar c t)" "tfb (terminal_putchar c t) = tfb t"
    "\<And>a. a \<notin> screen_bytes t \<Longrightarrow> tmem (terminal_putchar c t) a = tmem t a" by blast+
qed

lemma write_ok:
  assumes "terminal_ok t"
  shows "terminal_ok (terminal_write data n t) \<and> tfb (terminal_write data n t) = tfb t \<and>
    (\<forall>a. a \<notin> screen_bytes t \<longrightarrow> tmem (terminal_write data n t) a = tmem t a)"
  unfolding terminal_write_def
proof (rule for_loop_inv [where P = "\<lambda>i s. terminal_ok s \<and> tfb s = tfb t \<and> (\<forall>a. a \<notin> screen_bytes t \<longrightarrow> tmem s a = tmem t a)"])
  fix i s assume s: "terminal_ok s \<and> tfb s = tfb t \<and> (\<forall>a. a \<notin> screen_bytes t \<longrightarrow> tmem s a = tmem t a)"
  then have "screen_bytes s = screen_bytes t" by (simp add: screen_bytes_def)
  then show "terminal_ok (terminal_putchar (tmem s (data + i)) s) \<and> tfb (terminal_putchar (tmem s (data + i)) s) = tfb t \<and>
      (\<forall>a. a \<notin> screen_bytes t \<longrightarrow> tmem (terminal_putchar (tmem s (data + i)) s) a = tmem t a)"
    using s putchar_ok [of s] by simp
qed (use assms in auto)

lemma write_grid:
  assumes vga: "\<not> fb_ok (tfb t)" and ok: "terminal_ok t" and data: "\<And>i. i < n \<Longrightarrow> data + i \<notin> vga_bytes"
  shows "grid_of (terminal_write data n t) =
    fold (grid_putchar (terminal_color t)) (map (\<lambda>i. tmem t (data + of_nat i)) [0..<unat n]) (grid_of t)"
proof -
  let ?P = "\<lambda>i s. terminal_ok s \<and> tfb s = tfb t \<and> terminal_color s = terminal_color t \<and> vga_only (tmem t) (tmem s) \<and>
    grid_of s = fold (grid_putchar (terminal_color t)) (map (\<lambda>i. tmem t (data + of_nat i)) [0..<unat i]) (grid_of t)"
  have "?P n (terminal_write data n t)"
    unfolding terminal_write_def
  proof (rule for_loop_inv [where P = ?P])
    fix i s assume i: "i < n" and s: "?P i s"
    have "terminal_row s < 25" "terminal_column s < 80" using s vga by (simp_all add: terminal_ok_def)
    then have g: "grid_of (terminal_putchar c s) = grid_putchar (terminal_color s) c (grid_of s)"
      "vga_only (tmem s) (tmem (terminal_putchar c s))" "terminal_color (terminal_putchar c s) = terminal_color s" for c
      using putchar_vga_grid [of s c] s vga by (simp_all add: terminal_putchar_def word_less_nat_alt)
    have "tmem s (data + i) = tmem t (data + of_nat (unat i))" using s data [OF i] by (simp add: vga_only_def)
    then show "?P (i + 1) (terminal_putchar (tmem s (data + i)) s)"
      using s g putchar_ok(1,2) [of s] vga_only_trans unat_Suc_less [OF i] by auto
  qed (use ok in simp_all)
  then show ?thesis by blast
qed

lemma terminal_cleared:
  assumes "fb_ok (tfb t) \<Longrightarrow> fb_cursor (tfb t) 0 0"
  shows "terminal_ok (clear_terminal t)"
  using assms by (auto simp: clear_terminal_def terminal_ok_def fb_cursor_def)

section \<open>Properties\<close>

definition demo_terminal :: terminal where
  "demo_terminal = terminal_initial fb_initial (\<lambda>a. if a = 0x1000 then 0x48 else 0)"

lemma demo_terminal_ok: "terminal_ok demo_terminal"
  by (simp add: terminal_ok_def demo_terminal_def terminal_initial_def fb_initial_def)

text \<open>
  C23: \<^verbatim>\<open>terminal_write\<close> keeps the cursor on the screen, for any characters, in both modes, and
  writes no byte outside the frame buffer or the VGA text buffer.
\<close>

theorem terminal_write_safe:
  assumes "terminal_ok t"
  shows "terminal_ok (terminal_write data n t) \<and> tfb (terminal_write data n t) = tfb t \<and>
    (\<forall>a. a \<notin> screen_bytes t \<longrightarrow> tmem (terminal_write data n t) a = tmem t a)"
  by (rule write_ok [OF assms])

theorem terminal_write_safe_witness:
  "terminal_ok (terminal_write 0x1000 3 demo_terminal)"
  using terminal_write_safe [OF demo_terminal_ok] by blast

text \<open>
  C24: in VGA mode \<^verbatim>\<open>terminal_write\<close> of text outside the VGA buffer refines the abstract grid: cell
  contents, cursor, line wrap, backspace and scrolling are those of putting the characters on
  the grid one after the other.
\<close>

theorem terminal_write_refines_grid:
  assumes "\<not> fb_ok (tfb t)" "terminal_ok t" "\<forall>i < n. data + i \<notin> vga_bytes"
  shows "grid_of (terminal_write data n t) =
    fold (grid_putchar (terminal_color t)) (map (\<lambda>i. tmem t (data + of_nat i)) [0..<unat n]) (grid_of t)"
  using assms by (intro write_grid) auto

theorem terminal_write_refines_grid_witness:
  "gcells (grid_of (terminal_write 0x1000 1 demo_terminal)) 0 = 0x48"
proof -
  have d: "\<forall>i < 1. 0x1000 + i \<notin> vga_bytes" by (auto simp: vga_bytes_def in_region_iff)
  have n: "\<not> fb_ok (tfb demo_terminal)" by (simp add: demo_terminal_def terminal_initial_def fb_initial_def)
  have "unat (1 :: u64) = 1" by simp
  then show ?thesis using terminal_write_refines_grid [OF n demo_terminal_ok d]
    by (simp add: grid_putchar_def grid_put_def grid_of_def demo_terminal_def terminal_initial_def vga_char_def Let_def)
qed

end
