(* ===== verification/CString.thy ===== *)
theory CString
  imports Prelude
begin

text \<open>
  Strings and number printing: \<^verbatim>\<open>src/lib/string.c\<close>, \<^verbatim>\<open>src/lib/stdlib.c\<close> (kernel) and
  \<^verbatim>\<open>src/user_libc/string.c\<close>, \<^verbatim>\<open>src/user_libc/stdlib.c\<close> (user programs). A C array of characters is
  a list; a read or a write outside the array is \<open>None\<close>. \<^verbatim>\<open>memset\<close> and \<^verbatim>\<open>memcpy\<close> work on raw
  memory and are in the theory of memory.

  The specification of a terminated string is \<open>cstr\<close>; the specification of \<^verbatim>\<open>itoa\<close> is that
  reading the digits back gives the number (\<open>read_int\<close>, \<open>read_nat\<close>).
\<close>

abbreviation NUL :: char where "NUL \<equiv> CHR 0x00"

text \<open>Checked accesses to an array.\<close>

definition getc :: "string \<Rightarrow> nat \<Rightarrow> char option" where
  "getc s i = (if i < length s then Some (s ! i) else None)"

definition putc :: "string \<Rightarrow> nat \<Rightarrow> char \<Rightarrow> string option" where
  "putc s i c = (if i < length s then Some (s[i := c]) else None)"

section \<open>String functions\<close>

function strlen_from :: "string \<Rightarrow> nat \<Rightarrow> nat option" where
  "strlen_from s i =
     (case getc s i of
        None \<Rightarrow> None
      | Some c \<Rightarrow> if c \<noteq> NUL then strlen_from s (i + 1) else Some i)"
  by pat_completeness auto
termination
  by (relation "measure (\<lambda>(s, i). length s - i)") (auto simp: getc_def split: if_splits)

declare strlen_from.simps [simp del]

definition strlen :: "string \<Rightarrow> nat option" where "strlen s = strlen_from s 0"

text \<open>The loop of \<^verbatim>\<open>reverse\<close>: swap \<open>i\<close> and \<open>size - i - 1\<close> for \<open>i\<close> up to the middle.\<close>

function reverse_loop :: "nat \<Rightarrow> nat \<Rightarrow> string \<Rightarrow> string option" where
  "reverse_loop sz i s =
     (if i < sz div 2 then
        (case (getc s i, getc s (sz - i - 1)) of
           (Some temp, Some d) \<Rightarrow>
             (case putc s i d of
                None \<Rightarrow> None
              | Some s \<Rightarrow>
                  (case putc s (sz - i - 1) temp of
                     None \<Rightarrow> None
                   | Some s \<Rightarrow> reverse_loop sz (i + 1) s))
         | _ \<Rightarrow> None)
      else Some s)"
  by pat_completeness auto
termination by (relation "measure (\<lambda>(sz, i, s). sz - i)") auto

declare reverse_loop.simps [simp del]

definition reverse :: "string \<Rightarrow> string option" where
  "reverse s = (case strlen s of None \<Rightarrow> None | Some sz \<Rightarrow> reverse_loop sz 0 s)"

text \<open>\<^verbatim>\<open>strcmp\<close> and \<^verbatim>\<open>strncmp\<close> of the user library; characters compare as unsigned bytes.\<close>

definition uchar :: "char \<Rightarrow> int" where "uchar c = int (of_char c)"

function strcmp_from :: "string \<Rightarrow> string \<Rightarrow> nat \<Rightarrow> int option" where
  "strcmp_from a b i =
     (case (getc a i, getc b i) of
        (Some x, Some y) \<Rightarrow>
          if x \<noteq> NUL \<and> x = y then strcmp_from a b (i + 1) else Some (uchar x - uchar y)
      | _ \<Rightarrow> None)"
  by pat_completeness auto
termination
  by (relation "measure (\<lambda>(a, b, i). length a - i)") (auto simp: getc_def split: if_splits)

declare strcmp_from.simps [simp del]

definition strcmp :: "string \<Rightarrow> string \<Rightarrow> int option" where "strcmp a b = strcmp_from a b 0"

fun strncmp_from :: "string \<Rightarrow> string \<Rightarrow> nat \<Rightarrow> nat \<Rightarrow> int option" where
  "strncmp_from a b 0 i = Some 0"
| "strncmp_from a b (Suc n) i =
     (case (getc a i, getc b i) of
        (Some x, Some y) \<Rightarrow>
          if x \<noteq> NUL \<and> x = y then strncmp_from a b n (i + 1) else Some (uchar x - uchar y)
      | _ \<Rightarrow> None)"

definition strncmp :: "string \<Rightarrow> string \<Rightarrow> nat \<Rightarrow> int option" where
  "strncmp a b n = strncmp_from a b n 0"

section \<open>Printing numbers\<close>

definition kernel_digits :: string where "kernel_digits = ''0123456789ABCDEF''"
definition user_digits :: string where "user_digits = ''0123456789abcdef''"

text \<open>The digit loop: least significant digit first. \<open>i\<close> is the next free index of the buffer.\<close>

function itoa_loop :: "string \<Rightarrow> u64 \<Rightarrow> u64 \<Rightarrow> nat \<Rightarrow> string \<Rightarrow> (nat \<times> string) option" where
  "itoa_loop digits b uvalue i buf =
     (if uvalue \<noteq> 0 then
        if b \<le> 1 then None
        else
          (case getc digits (unat (uvalue mod b)) of
             None \<Rightarrow> None
           | Some d \<Rightarrow>
               (case putc buf i d of
                  None \<Rightarrow> None
                | Some buf \<Rightarrow> itoa_loop digits b (uvalue div b) (i + 1) buf))
      else Some (i, buf))"
  by pat_completeness auto
termination
proof (relation "measure (\<lambda>(digits, b, uvalue, i, buf). unat uvalue)")
  fix digits :: string and b uvalue :: u64 and i :: nat and buf :: string and d :: char and bu :: string
  assume u: "uvalue \<noteq> 0" and b: "\<not> b \<le> 1"
  have "1 < unat b" using b by (simp add: word_le_nat_alt)
  moreover have "0 < unat uvalue" using u by (simp add: unat_gt_0)
  ultimately have "unat uvalue div unat b < unat uvalue" by simp
  then show "((digits, b, uvalue div b, i + 1, bu), (digits, b, uvalue, i, buf))
      \<in> measure (\<lambda>(digits, b, uvalue, i, buf). unat uvalue)" by (simp add: unat_div)
qed simp

declare itoa_loop.simps [simp del]

text \<open>Sign, terminator and reversal after the digit loop.\<close>

definition itoa_finish :: "bool \<Rightarrow> nat \<times> string \<Rightarrow> string option" where
  "itoa_finish is_negative r =
     (case r of (i, buf) \<Rightarrow>
        (case (if is_negative then map_option (\<lambda>buf. (i + 1, buf)) (putc buf i (CHR ''-'')) else Some (i, buf)) of
           None \<Rightarrow> None
         | Some (i, buf) \<Rightarrow>
             (case putc buf i NUL of None \<Rightarrow> None | Some buf \<Rightarrow> reverse buf)))"

definition itoa_with :: "string \<Rightarrow> u64 \<Rightarrow> string \<Rightarrow> u64 \<Rightarrow> string option" where
  "itoa_with digits val buf b =
     (let is_negative = (b = 10 \<and> sint val < 0);
          uvalue = (if is_negative then - val else val)
      in if uvalue = 0 then
           (case putc buf 0 (CHR ''0'') of None \<Rightarrow> None | Some buf \<Rightarrow> putc buf 1 NUL)
         else
           (case itoa_loop digits b uvalue 0 buf of
              None \<Rightarrow> None
            | Some r \<Rightarrow> itoa_finish is_negative r))"

text \<open>The kernel's \<^verbatim>\<open>itoa\<close> with a buffer, and its digit count when the buffer is null.\<close>

definition kernel_itoa :: "u64 \<Rightarrow> string \<Rightarrow> u64 \<Rightarrow> string option" where
  "kernel_itoa = itoa_with kernel_digits"

definition user_itoa :: "u64 \<Rightarrow> string \<Rightarrow> u64 \<Rightarrow> string option" where
  "user_itoa = itoa_with user_digits"

function itoa_count :: "int \<Rightarrow> nat \<Rightarrow> nat" where
  "itoa_count val c = (if val > 0 then itoa_count (val div 10) (c + 1) else c)"
  by pat_completeness auto
termination by (relation "measure (\<lambda>(val, c). nat val)") auto

declare itoa_count.simps [simp del]

section \<open>Terminated strings\<close>

definition cstr :: "string \<Rightarrow> string" where "cstr s = takeWhile (\<lambda>c. c \<noteq> NUL) s"

lemma cstr_append: "NUL \<notin> set a \<Longrightarrow> cstr (a @ NUL # r) = a"
  unfolding cstr_def by (subst takeWhile_append2) auto

lemma terminated_split:
  assumes "NUL \<in> set s" obtains r where "s = cstr s @ NUL # r"
proof -
  have "dropWhile (\<lambda>c. c \<noteq> NUL) s \<noteq> []" using assms by (auto simp: dropWhile_eq_Nil_conv)
  then obtain c r where d: "dropWhile (\<lambda>c. c \<noteq> NUL) s = c # r" by (cases "dropWhile (\<lambda>c. c \<noteq> NUL) s") auto
  then have "c = NUL" using hd_dropWhile [of "\<lambda>c. c \<noteq> NUL" s] by simp
  then show ?thesis using that [of r] d takeWhile_dropWhile_id [of "\<lambda>c. c \<noteq> NUL" s] by (simp add: cstr_def)
qed

lemma cstr_no_NUL: "NUL \<notin> set (cstr s)"
  by (auto simp: cstr_def dest: set_takeWhileD)

lemma getc_append: "getc (a @ c # r) (length a) = Some c"
  by (simp add: getc_def)

lemma getc_at: "s = a @ c # r \<Longrightarrow> i = length a \<Longrightarrow> getc s i = Some c"
  by (simp add: getc_def)

lemma strlen_from_result:
  "NUL \<notin> set b \<Longrightarrow> strlen_from (a @ b @ NUL # r) (length a) = Some (length a + length b)"
proof (induction b arbitrary: a)
  case Nil
  then show ?case by (subst strlen_from.simps) (simp add: getc_append)
next
  case (Cons c b)
  have "strlen_from ((a @ [c]) @ b @ NUL # r) (length (a @ [c])) = Some (length (a @ [c]) + length b)"
    using Cons by (intro Cons.IH) simp
  then show ?case using Cons.prems by (subst strlen_from.simps) (auto simp: getc_append)
qed

lemma strlen_cstr: "NUL \<in> set s \<Longrightarrow> strlen s = Some (length (cstr s))"
  using strlen_from_result [of "cstr s" "[]"] cstr_no_NUL
  by (metis append_Nil list.size(3) plus_nat.add_0 strlen_def terminated_split)

lemma reverse_loop_result:
  assumes "sz \<le> length s0" "length s = length s0" "i \<le> sz div 2"
    and "\<And>k. k < length s \<Longrightarrow> s ! k = (if k < i \<or> sz - i \<le> k \<and> k < sz then s0 ! (sz - 1 - k) else s0 ! k)"
  shows "\<exists>s'. reverse_loop sz i s = Some s' \<and> length s' = length s0 \<and>
    (\<forall>k < length s0. s' ! k = (if k < sz then s0 ! (sz - 1 - k) else s0 ! k))"
  using assms
proof (induction sz i s rule: reverse_loop.induct)
  case (1 sz i s)
  show ?case
  proof (cases "i < sz div 2")
    case False
    then have i: "i = sz div 2" using "1.prems"(3) by simp
    have "s ! k = (if k < sz then s0 ! (sz - 1 - k) else s0 ! k)" if "k < length s0" for k
    proof -
      have "sz - 1 - k = k" if "\<not> k < i" "\<not> sz - i \<le> k" using that i by linarith
      then show ?thesis using "1.prems"(4) [of k] "1.prems"(1,2) that i by (auto split: if_splits)
    qed
    then show ?thesis using False "1.prems" by (simp add: reverse_loop.simps)
  next
    case True
    let ?j = "sz - i - 1"
    have j: "i < length s" "?j < length s" "i < ?j" using True "1.prems"(1,2) by linarith+
    have si: "s ! i = s0 ! i" "s ! ?j = s0 ! ?j" using "1.prems"(4) [of i] "1.prems"(4) [of ?j] j True by auto
    let ?s = "s[i := s ! ?j, ?j := s ! i]"
    have "\<exists>s'. reverse_loop sz (i + 1) ?s = Some s' \<and> length s' = length s0 \<and>
      (\<forall>k < length s0. s' ! k = (if k < sz then s0 ! (sz - 1 - k) else s0 ! k))"
    proof (rule "1.IH" [OF True])
      show "?s ! k = (if k < i + 1 \<or> sz - (i + 1) \<le> k \<and> k < sz then s0 ! (sz - 1 - k) else s0 ! k)"
        if "k < length ?s" for k
      proof -
        have e: "sz - 1 - ?j = i" "sz - 1 - i = ?j" using True by linarith+
        show ?thesis using "1.prems"(4) [of k] that j si e by (auto simp: nth_list_update)
      qed
    qed (use True "1.prems" j in \<open>auto simp: getc_def putc_def\<close>)
    then show ?thesis using True j by (subst reverse_loop.simps) (simp add: getc_def putc_def)
  qed
qed

lemma reverse_cstr:
  assumes "NUL \<notin> set a"
  shows "reverse (a @ NUL # r) = Some (rev a @ NUL # r)"
proof -
  let ?s = "a @ NUL # r"
  have sl: "strlen ?s = Some (length a)" using strlen_cstr [of ?s] cstr_append [OF assms] by simp
  obtain s' where s': "reverse_loop (length a) 0 ?s = Some s'" "length s' = length ?s"
    "\<And>k. k < length ?s \<Longrightarrow> s' ! k = (if k < length a then ?s ! (length a - 1 - k) else ?s ! k)"
    using reverse_loop_result [of "length a" ?s ?s 0] by force
  have "s' = rev a @ NUL # r"
    using s'(2,3) by (intro nth_equalityI) (auto simp: nth_append rev_nth)
  then show ?thesis using s'(1) sl by (simp add: reverse_def)
qed

section \<open>Comparison\<close>

lemma uchar_inject: "uchar c - uchar d = 0 \<longleftrightarrow> c = d"
  by (simp add: uchar_def)

lemma strcmp_from_step:
  "length a = length b \<Longrightarrow> strcmp_from (a @ x # r) (b @ y # q) (length a) =
     (if x \<noteq> NUL \<and> x = y then strcmp_from ((a @ [x]) @ r) ((b @ [y]) @ q) (length (a @ [x]))
      else Some (uchar x - uchar y))"
  by (subst strcmp_from.simps) (simp add: getc_at [of _ a] getc_at [of _ b])

lemma strcmp_from_result:
  "NUL \<notin> set x \<Longrightarrow> NUL \<notin> set y \<Longrightarrow> length a = length b \<Longrightarrow>
     \<exists>d. strcmp_from (a @ x @ NUL # r) (b @ y @ NUL # q) (length a) = Some d \<and> (d = 0 \<longleftrightarrow> x = y)"
proof (induction x arbitrary: y a b)
  case Nil
  then show ?case
    using strcmp_from_step [of a b NUL r] uchar_inject [of NUL] by (cases y) auto
next
  case (Cons c x)
  note step = strcmp_from_step [OF Cons.prems(3), of c "x @ NUL # r"]
  show ?case
  proof (cases y)
    case Nil
    then show ?thesis using step [of NUL q] Cons.prems(1) uchar_inject [of c NUL] by auto
  next
    case (Cons z y')
    have "\<exists>d. strcmp_from ((a @ [c]) @ x @ NUL # r) ((b @ [c]) @ y' @ NUL # q) (length (a @ [c])) = Some d \<and>
        (d = 0 \<longleftrightarrow> x = y')"
      using Cons.prems Cons by (intro Cons.IH) auto
    then show ?thesis using step [of z "y' @ NUL # q"] Cons.prems(1) Cons uchar_inject [of c z] by auto
  qed
qed

lemma strcmp_eq:
  assumes "NUL \<in> set a" "NUL \<in> set b"
  shows "\<exists>d. strcmp a b = Some d \<and> (d = 0 \<longleftrightarrow> cstr a = cstr b)"
proof -
  obtain r q where "a = cstr a @ NUL # r" "b = cstr b @ NUL # q"
    using assms terminated_split by metis
  then show ?thesis
    using strcmp_from_result [of "cstr a" "cstr b" "[]" "[]" r q] cstr_no_NUL
    unfolding strcmp_def by (metis append_Nil list.size(3))
qed

section \<open>Digits\<close>

function digs :: "string \<Rightarrow> nat \<Rightarrow> nat \<Rightarrow> string" where
  "digs D b n = (if n = 0 \<or> b \<le> 1 then [] else D ! (n mod b) # digs D b (n div b))"
  by pat_completeness auto
termination by (relation "measure (\<lambda>(D, b, n). n)") auto

declare digs.simps [simp del]

text \<open>The usual notation of a number, most significant digit first.\<close>

definition show_nat :: "string \<Rightarrow> nat \<Rightarrow> nat \<Rightarrow> string" where
  "show_nat D b n = (if n = 0 then [D ! 0] else rev (digs D b n))"

definition show_int :: "string \<Rightarrow> int \<Rightarrow> string" where
  "show_int D v = (if v < 0 then CHR ''-'' # show_nat D 10 (nat (- v)) else show_nat D 10 (nat v))"

text \<open>Reading a number back.\<close>

definition digit_value :: "string \<Rightarrow> char \<Rightarrow> nat" where
  "digit_value D c = length (takeWhile (\<lambda>d. d \<noteq> c) D)"

definition read_nat :: "string \<Rightarrow> nat \<Rightarrow> string \<Rightarrow> nat" where
  "read_nat D b s = foldl (\<lambda>n c. n * b + digit_value D c) 0 s"

definition read_int :: "string \<Rightarrow> string \<Rightarrow> int" where
  "read_int D s = (case s of c # r \<Rightarrow> if c = CHR ''-'' then - int (read_nat D 10 r) else int (read_nat D 10 s) | [] \<Rightarrow> 0)"

lemma digit_value_nth: "distinct D \<Longrightarrow> i < length D \<Longrightarrow> digit_value D (D ! i) = i"
proof -
  assume D: "distinct D" and i: "i < length D"
  have "takeWhile (\<lambda>d. d \<noteq> D ! i) D = take i D"
    using D i by (intro takeWhile_eq_take_P_nth) (auto simp: nth_eq_iff_index_eq)
  then show ?thesis using i by (simp add: digit_value_def)
qed

lemma read_rev_digs:
  assumes "distinct D" "2 \<le> b" "b \<le> length D"
  shows "foldl (\<lambda>n c. n * b + digit_value D c) 0 (rev (digs D b n)) = n"
proof (induction n rule: less_induct)
  case (less n)
  show ?case
  proof (cases "n = 0")
    case False
    then have "n div b < n" using assms(2) by simp
    then have "foldl (\<lambda>n c. n * b + digit_value D c) 0 (rev (digs D b (n div b))) = n div b" by (rule less)
    moreover have "digit_value D (D ! (n mod b)) = n mod b"
    proof (rule digit_value_nth [OF assms(1)])
      have "n mod b < b" using assms(2) by simp
      then show "n mod b < length D" using assms(3) by (rule less_le_trans)
    qed
    ultimately show ?thesis using False assms(2) by (subst digs.simps) simp
  qed (simp add: digs.simps)
qed

lemma read_show_nat:
  assumes "distinct D" "2 \<le> b" "b \<le> length D"
  shows "read_nat D b (show_nat D b n) = n"
proof -
  have "0 < length D" using assms(2,3) by linarith
  then show ?thesis using read_rev_digs [OF assms] digit_value_nth [OF assms(1)]
    by (auto simp: read_nat_def show_nat_def)
qed

lemma mod_in_range: "2 \<le> b \<Longrightarrow> b \<le> k \<Longrightarrow> n mod b < k" for n b k :: nat
  using mod_less_divisor [of b n] by linarith

lemma digs_set: "2 \<le> b \<Longrightarrow> b \<le> length D \<Longrightarrow> set (digs D b n) \<subseteq> set D"
proof (induction n rule: less_induct)
  case (less n)
  have "D ! (n mod b) \<in> set D" using less.prems by (intro nth_mem mod_in_range)
  moreover have "n \<noteq> 0 \<Longrightarrow> set (digs D b (n div b)) \<subseteq> set D" using less by simp
  ultimately show ?case by (subst digs.simps) auto
qed

lemma digs_length: "n < b ^ k \<Longrightarrow> length (digs D b n) \<le> k"
proof (induction k arbitrary: n)
  case 0
  then show ?case by (simp add: digs.simps)
next
  case (Suc k)
  show ?case
  proof (cases "n = 0 \<or> b \<le> 1")
    case False
    then have "n div b < b ^ k" using Suc.prems by (simp add: less_mult_imp_div_less mult.commute)
    then show ?thesis using Suc.IH False by (subst digs.simps) simp
  qed (simp add: digs.simps)
qed

lemma itoa_loop_result:
  assumes "2 \<le> unat b" "unat b \<le> length D" "i + length (digs D (unat b) (unat u)) \<le> length buf"
  shows "itoa_loop D b u i buf = Some (i + length (digs D (unat b) (unat u)),
    take i buf @ digs D (unat b) (unat u) @ drop (i + length (digs D (unat b) (unat u))) buf)"
  using assms(3)
proof (induction "unat u" arbitrary: u i buf rule: less_induct)
  case less
  show ?case
  proof (cases "u = 0")
    case True
    then show ?thesis by (subst itoa_loop.simps) (simp add: digs.simps)
  next
    case False
    let ?n = "length (digs D (unat b) (unat u div unat b))"
    let ?d = "D ! (unat u mod unat b)"
    have u0: "0 < unat u" using False by (simp add: unat_gt_0)
    have d: "digs D (unat b) (unat u) = ?d # digs D (unat b) (unat u div unat b)"
      using u0 assms(1) by (subst digs.simps) simp
    have dv: "unat (u div b) = unat u div unat b" "unat (u mod b) = unat u mod unat b"
      by (simp_all add: unat_div unat_mod)
    have i: "i < length buf" "i + 1 + ?n \<le> length buf" using less.prems d by simp_all
    have "itoa_loop D b (u div b) (i + 1) (buf[i := ?d]) = Some (i + 1 + ?n,
        take (i + 1) (buf[i := ?d]) @ digs D (unat b) (unat u div unat b) @ drop (i + 1 + ?n) (buf[i := ?d]))"
      using less.hyps [of "u div b" "i + 1" "buf[i := ?d]"] u0 assms(1) i by (simp add: dv)
    moreover have "unat u mod unat b < length D"
      using assms(1,2) by (rule mod_in_range)
    moreover have "\<not> b \<le> 1" using assms(1) by (simp add: word_le_nat_alt)
    ultimately show ?thesis using False i d
      by (subst itoa_loop.simps) (simp add: getc_def putc_def dv take_Suc_conv_app_nth)
  qed
qed

text \<open>The common part of both \<^verbatim>\<open>itoa\<close>: the buffer holds the number in the usual notation.\<close>

lemma finish_result:
  assumes "NUL \<notin> set ds" "length ds + (if neg then 1 else 0) < length buf"
  shows "\<exists>r. itoa_finish neg (length ds, ds @ drop (length ds) buf) =
    Some ((if neg then CHR ''-'' # rev ds else rev ds) @ NUL # r) \<and>
    length ((if neg then CHR ''-'' # rev ds else rev ds) @ NUL # r) = length buf"
proof -
  let ?a = "if neg then ds @ [CHR ''-''] else ds"
  let ?r = "drop (length ?a + 1) buf"
  have u: "(xs @ drop (length xs) buf)[length xs := c] = (xs @ [c]) @ drop (length (xs @ [c])) buf"
    if "length xs < length buf" for xs and c :: char
    using that by (simp add: list_update_append Cons_nth_drop_Suc [symmetric])
  have "itoa_finish neg (length ds, ds @ drop (length ds) buf) = reverse (?a @ NUL # ?r)"
    using assms(2) u [of ds] u [of "ds @ [CHR ''-'']"] by (auto simp: itoa_finish_def putc_def)
  moreover have "NUL \<notin> set ?a" using assms(1) by auto
  ultimately have "itoa_finish neg (length ds, ds @ drop (length ds) buf) = Some (rev ?a @ NUL # ?r)"
    using reverse_cstr by simp
  then show ?thesis using assms(2) by (intro exI [of _ ?r]) auto
qed

lemma itoa_with_result:
  assumes D: "NUL \<notin> set D" "D ! 0 = CHR ''0''" and b: "2 \<le> unat b" "unat b \<le> length D"
    and neg: "neg \<longleftrightarrow> b = 10 \<and> sint v < 0" and u: "u = (if neg then - v else v)"
    and len: "length (digs D (unat b) (unat u)) + 2 \<le> length buf"
  shows "\<exists>buf'. itoa_with D v buf b = Some buf' \<and> length buf' = length buf \<and> NUL \<in> set buf' \<and>
    cstr buf' = (if neg then CHR ''-'' # show_nat D (unat b) (unat u) else show_nat D (unat b) (unat u))"
proof (cases "u = 0")
  case True
  then have "v = 0" "\<not> neg" using u neg by (auto split: if_splits)
  then have "itoa_with D v buf b = Some (CHR ''0'' # NUL # drop 2 buf)"
    using len by (cases buf; cases "tl buf") (auto simp: itoa_with_def putc_def)
  then show ?thesis using True \<open>\<not> neg\<close> D(2) len by (auto simp: show_nat_def cstr_def)
next
  case False
  let ?ds = "digs D (unat b) (unat u)"
  have u0: "unat u \<noteq> 0" using False by (simp add: unat_eq_zero)
  have nn: "NUL \<notin> set ?ds" using digs_set [OF b, of "unat u"] D(1) by blast
  have "length ?ds + (if neg then 1 else 0) < length buf" using len by simp
  then obtain r where r: "itoa_finish neg (length ?ds, ?ds @ drop (length ?ds) buf) =
      Some ((if neg then CHR ''-'' # rev ?ds else rev ?ds) @ NUL # r)"
    "length ((if neg then CHR ''-'' # rev ?ds else rev ?ds) @ NUL # r) = length buf"
    using finish_result [OF nn] by blast
  have "itoa_with D v buf b = itoa_finish neg (length ?ds, ?ds @ drop (length ?ds) buf)"
    using False itoa_loop_result [OF b, of 0 u buf] len unfolding itoa_with_def neg [symmetric] u [symmetric] Let_def
    by simp
  moreover have "cstr ((if neg then CHR ''-'' # rev ?ds else rev ?ds) @ NUL # r) =
      (if neg then CHR ''-'' # rev ?ds else rev ?ds)"
    using nn by (intro cstr_append) auto
  ultimately show ?thesis using r u0 by (auto simp: show_nat_def)
qed

lemma digit_tables:
  "NUL \<notin> set kernel_digits" "kernel_digits ! 0 = CHR ''0''" "distinct kernel_digits" "length kernel_digits = 16"
  "NUL \<notin> set user_digits" "user_digits ! 0 = CHR ''0''" "distinct user_digits" "length user_digits = 16"
  by (simp_all add: kernel_digits_def user_digits_def)

lemma unat_sint_abs:
  "unat (if sint v < 0 then - v else v) = nat (abs (sint v))" for v :: u64
proof -
  have r: "- (2 ^ 63) \<le> sint v" "sint v < 2 ^ 63" using sint_ge [of v] sint_lt [of v] by simp_all
  have u: "uint v = sint v mod 2 ^ 64" by (simp add: uint_sint take_bit_eq_mod)
  show ?thesis
  proof (cases "sint v < 0")
    case True
    have "uint (- v) = (- (sint v mod 2 ^ 64)) mod 2 ^ 64" by (simp add: uint_word_ariths u)
    also have "\<dots> = (- sint v) mod 2 ^ 64" by (rule mod_minus_eq)
    also have "\<dots> = - sint v" using True r by (intro mod_pos_pos_trivial) simp_all
    finally show ?thesis using True by (simp add: unat_eq_nat_uint)
  next
    case False
    then have "uint v = sint v" using r unfolding u by (intro mod_pos_pos_trivial) simp_all
    then show ?thesis using False by (simp add: unat_eq_nat_uint)
  qed
qed

lemma digs_u64: "length (digs D 10 (unat (u :: u64))) \<le> 20" "length (digs D 16 (unat u)) \<le> 16"
  using unat_bound [of u] digs_length [of "unat u" 10 20] digs_length [of "unat u" 16 16] by simp_all

lemma itoa_dec_result:
  assumes D: "NUL \<notin> set D" "D ! 0 = CHR ''0''" "length D = 16" and len: "22 \<le> length buf"
  shows "\<exists>buf'. itoa_with D v buf 10 = Some buf' \<and> length buf' = length buf \<and> NUL \<in> set buf' \<and>
    cstr buf' = show_int D (sint v)"
  using itoa_with_result [OF D(1,2), of 10 "sint v < 0" v, OF _ _ _ refl, of buf] D(3) len
    digs_u64(1) [of D "if sint v < 0 then - v else v"] unat_sint_abs [of v]
  by (fastforce simp: show_int_def)

lemma itoa_hex_result:
  assumes D: "NUL \<notin> set D" "D ! 0 = CHR ''0''" "length D = 16" and len: "18 \<le> length buf"
  shows "\<exists>buf'. itoa_with D v buf 16 = Some buf' \<and> length buf' = length buf \<and> NUL \<in> set buf' \<and>
    cstr buf' = show_nat D 16 (unat v)"
  using itoa_with_result [OF D(1,2), of 16 False v v buf] D(3) len digs_u64(2) [of D v] by fastforce

lemma show_nat_not_sign:
  assumes "distinct D" "length D = 16" "CHR ''-'' \<notin> set D"
  shows "\<exists>c r. show_nat D 10 n = c # r \<and> c \<noteq> CHR ''-''"
proof (cases "n = 0")
  case True
  have "D ! 0 \<in> set D" using assms(2) by (intro nth_mem) simp
  then show ?thesis using True assms(3) by (auto simp: show_nat_def)
next
  case False
  then have "digs D 10 n \<noteq> []" by (simp add: digs.simps)
  then obtain c r where c: "rev (digs D 10 n) = c # r" by (cases "rev (digs D 10 n)") auto
  then have "c \<in> set (rev (digs D 10 n))" by simp
  then have "c \<in> set D" using digs_set [of 10 D n] assms(2) by auto
  then show ?thesis using c False assms(3) by (auto simp: show_nat_def)
qed

lemma read_show_int:
  assumes "distinct D" "length D = 16" "CHR ''-'' \<notin> set D"
  shows "read_int D (show_int D v) = v"
proof -
  have r: "read_nat D 10 (show_nat D 10 n) = n" for n using assms(1,2) by (intro read_show_nat) simp_all
  obtain c s where "show_nat D 10 (nat v) = c # s" "c \<noteq> CHR ''-''" using show_nat_not_sign [OF assms] by blast
  then show ?thesis using r [of "nat v"] r [of "nat (- v)"] by (auto simp: show_int_def read_int_def)
qed

section \<open>Properties\<close>



text \<open>
  \<^verbatim>\<open>itoa\<close> in base 16 prints the unsigned value and fits a buffer of 18 characters; the string
  reads back as the value.
\<close>

theorem itoa_hexadecimal:
  assumes "18 \<le> length buf"
  shows "\<exists>kbuf ubuf. kernel_itoa v buf 16 = Some kbuf \<and> user_itoa v buf 16 = Some ubuf \<and>
    NUL \<in> set kbuf \<and> NUL \<in> set ubuf \<and>
    cstr kbuf = show_nat kernel_digits 16 (unat v) \<and> cstr ubuf = show_nat user_digits 16 (unat v) \<and>
    read_nat kernel_digits 16 (cstr kbuf) = unat v \<and> read_nat user_digits 16 (cstr ubuf) = unat v"
  using itoa_hex_result [OF digit_tables(1,2,4) assms, of v] itoa_hex_result [OF digit_tables(5,6,8) assms, of v]
    read_show_nat [OF digit_tables(3), of 16 "unat v"] read_show_nat [OF digit_tables(7), of 16 "unat v"]
    digit_tables(4,8)
  by (fastforce simp: kernel_itoa_def user_itoa_def)

theorem itoa_hexadecimal_witness:
  "\<exists>kbuf. kernel_itoa 255 (replicate 32 NUL) 16 = Some kbuf \<and> read_nat kernel_digits 16 (cstr kbuf) = 255"
  using itoa_hexadecimal [of "replicate 32 NUL" 255] by auto



end
