(* ===== verification/Printf.thy ===== *)
theory Printf
  imports CString
begin

text \<open>
  Formatted output: \<^verbatim>\<open>printf\<close> of the kernel (\<^verbatim>\<open>src/lib/stdio.c\<close>) and of the user library
  (\<^verbatim>\<open>src/user_libc/stdio.c\<close>). The result is the text handed to \<^verbatim>\<open>sys_write\<close>, in order; \<open>None\<close> is
  undefined behaviour: a read outside the format, a number buffer overrun, an unterminated
  string, or an argument that is missing or of another type than \<^verbatim>\<open>va_arg\<close> asks for.

  The specification is \<open>render\<close>, on formats parsed into directives.
\<close>

section \<open>Arguments\<close>

text \<open>Variadic arguments: \<^verbatim>\<open>int\<close> and \<^verbatim>\<open>unsigned\<close>, \<^verbatim>\<open>long\<close> and \<^verbatim>\<open>unsigned long\<close>, strings and pointers.\<close>

datatype arg = ArgInt u32 | ArgLong u64 | ArgStr string | ArgPtr u64

type_synonym conversion = "char \<Rightarrow> arg list \<Rightarrow> (string \<times> arg list) option"

definition emit :: "string option \<Rightarrow> arg list \<Rightarrow> (string \<times> arg list) option" where
  "emit buf args = (case buf of None \<Rightarrow> None | Some b \<Rightarrow> if NUL \<in> set b then Some (cstr b, args) else None)"

definition prefix_0x :: "(string \<times> arg list) option \<Rightarrow> (string \<times> arg list) option" where
  "prefix_0x r = map_option (\<lambda>(s, args). (''0x'' @ s, args)) r"

text \<open>\<^verbatim>\<open>(char)va_arg(args, int)\<close>\<close>

definition char_of_int :: "u32 \<Rightarrow> char" where "char_of_int w = char_of (unat w)"

section \<open>Kernel\<close>

abbreviation buffer32 :: string where "buffer32 \<equiv> replicate 32 NUL"

definition kernel_lconv :: conversion where
  "kernel_lconv c args =
     (if c = CHR ''d'' \<or> c = CHR ''x'' \<or> c = CHR ''u'' then
        (case args of
           ArgLong v # rest \<Rightarrow>
             if c = CHR ''d'' then emit (kernel_itoa v buffer32 10) rest
             else if c = CHR ''x'' then prefix_0x (emit (kernel_itoa v buffer32 16) rest)
             else emit (kernel_itoa v buffer32 10) rest
         | _ \<Rightarrow> None)
      else Some (cstr [CHR ''%'', CHR ''l'', c, NUL], args))"

definition kernel_conv :: conversion where
  "kernel_conv c args =
     (if c = CHR ''s'' then (case args of ArgStr s # rest \<Rightarrow> emit (Some s) rest | _ \<Rightarrow> None)
      else if c = CHR ''d'' then
        (case args of ArgInt v # rest \<Rightarrow> emit (kernel_itoa (scast v) buffer32 10) rest | _ \<Rightarrow> None)
      else if c = CHR ''x'' then
        (case args of ArgInt v # rest \<Rightarrow> prefix_0x (emit (kernel_itoa (ucast v) buffer32 16) rest) | _ \<Rightarrow> None)
      else if c = CHR ''u'' then
        (case args of ArgInt v # rest \<Rightarrow> emit (kernel_itoa (ucast v) buffer32 10) rest | _ \<Rightarrow> None)
      else if c = CHR ''p'' then
        (case args of ArgPtr v # rest \<Rightarrow> prefix_0x (emit (kernel_itoa v buffer32 16) rest) | _ \<Rightarrow> None)
      else if c = CHR ''c'' then
        (case args of ArgInt v # rest \<Rightarrow> Some (cstr [char_of_int v, NUL], rest) | _ \<Rightarrow> None)
      else if c = CHR ''%'' then Some (''%'', args)
      else Some (cstr [CHR ''%'', c, NUL], args))"

section \<open>User library\<close>

abbreviation buffer64 :: string where "buffer64 \<equiv> replicate 64 NUL"

definition user_lconv :: conversion where
  "user_lconv c args =
     (if c = CHR ''d'' \<or> c = CHR ''x'' \<or> c = CHR ''u'' then
        (case args of
           ArgLong v # rest \<Rightarrow>
             if c = CHR ''x'' then emit (user_itoa v buffer64 16) rest
             else emit (user_itoa v buffer64 10) rest
         | _ \<Rightarrow> None)
      else Some ([], args))"

definition user_conv :: conversion where
  "user_conv c args =
     (if c = CHR ''s'' then (case args of ArgStr s # rest \<Rightarrow> emit (Some s) rest | _ \<Rightarrow> None)
      else if c = CHR ''c'' then
        (case args of ArgInt v # rest \<Rightarrow> Some ([char_of_int v], rest) | _ \<Rightarrow> None)
      else if c = CHR ''d'' then
        (case args of ArgInt v # rest \<Rightarrow> emit (user_itoa (scast v) buffer64 10) rest | _ \<Rightarrow> None)
      else if c = CHR ''u'' then
        (case args of ArgInt v # rest \<Rightarrow> emit (user_itoa (ucast v) buffer64 10) rest | _ \<Rightarrow> None)
      else if c = CHR ''x'' then
        (case args of ArgInt v # rest \<Rightarrow> emit (user_itoa (ucast v) buffer64 16) rest | _ \<Rightarrow> None)
      else if c = CHR ''%'' then Some (''%'', args)
      else Some ([CHR ''%'', c], args))"

section \<open>The loop over the format\<close>

text \<open>Both functions scan the format alike; \<open>conv\<close> and \<open>lconv\<close> are their \<^verbatim>\<open>switch\<close> statements.\<close>

function printf_loop :: "conversion \<Rightarrow> conversion \<Rightarrow> string \<Rightarrow> nat \<Rightarrow> arg list \<Rightarrow> string option" where
  "printf_loop conv lconv fmt i args =
     (case getc fmt i of
        None \<Rightarrow> None
      | Some c \<Rightarrow>
          if c = NUL then Some []
          else if c \<noteq> CHR ''%'' then map_option (\<lambda>out. c # out) (printf_loop conv lconv fmt (i + 1) args)
          else
            (case getc fmt (i + 1) of
               None \<Rightarrow> None
             | Some d \<Rightarrow>
                 if d = CHR ''l'' then
                   (case getc fmt (i + 2) of
                      None \<Rightarrow> None
                    | Some e \<Rightarrow>
                        (case lconv e args of
                           None \<Rightarrow> None
                         | Some (s, args) \<Rightarrow> map_option (\<lambda>out. s @ out) (printf_loop conv lconv fmt (i + 3) args)))
                 else
                   (case conv d args of
                      None \<Rightarrow> None
                    | Some (s, args) \<Rightarrow> map_option (\<lambda>out. s @ out) (printf_loop conv lconv fmt (i + 2) args))))"
  by pat_completeness auto
termination
  by (relation "measure (\<lambda>(conv, lconv, fmt, i, args). length fmt - i)")
     (auto simp: getc_def split: if_splits)

declare printf_loop.simps [simp del]

definition kernel_printf :: "string \<Rightarrow> arg list \<Rightarrow> string option" where
  "kernel_printf fmt args = printf_loop kernel_conv kernel_lconv fmt 0 args"

definition user_printf :: "string \<Rightarrow> arg list \<Rightarrow> string option" where
  "user_printf fmt args = printf_loop user_conv user_lconv fmt 0 args"

section \<open>Directives\<close>

datatype directive = Plain char | Percent | Conv char | LongConv char

fun directive_ok :: "directive \<Rightarrow> bool" where
  "directive_ok (Plain c) \<longleftrightarrow> c \<noteq> NUL \<and> c \<noteq> CHR ''%''"
| "directive_ok Percent \<longleftrightarrow> True"
| "directive_ok (Conv c) \<longleftrightarrow> c \<in> set ''sduxc''"
| "directive_ok (LongConv c) \<longleftrightarrow> c \<in> set ''dux''"

fun unparse :: "directive \<Rightarrow> string" where
  "unparse (Plain c) = [c]"
| "unparse Percent = ''%%''"
| "unparse (Conv c) = [CHR ''%'', c]"
| "unparse (LongConv c) = [CHR ''%'', CHR ''l'', c]"

text \<open>
  What a directive prints. \<open>D\<close> is the digit table and \<open>px\<close> the prefix of hexadecimal numbers.
  \<^verbatim>\<open>%lu\<close> goes through the signed conversion, as in the code.
\<close>

fun render1 :: "string \<Rightarrow> string \<Rightarrow> directive \<Rightarrow> arg list \<Rightarrow> (string \<times> arg list) option" where
  "render1 D px (Plain c) args = Some ([c], args)"
| "render1 D px Percent args = Some (''%'', args)"
| "render1 D px (Conv c) (ArgStr s # args) = (if c = CHR ''s'' \<and> NUL \<in> set s then Some (cstr s, args) else None)"
| "render1 D px (Conv c) (ArgInt v # args) =
     (if c = CHR ''d'' then Some (show_int D (sint v), args)
      else if c = CHR ''u'' then Some (show_int D (uint v), args)
      else if c = CHR ''x'' then Some (px @ show_nat D 16 (unat v), args)
      else if c = CHR ''c'' \<and> char_of_int v \<noteq> NUL then Some ([char_of_int v], args)
      else None)"
| "render1 D px (LongConv c) (ArgLong v # args) =
     (if c = CHR ''x'' then Some (px @ show_nat D 16 (unat v), args) else Some (show_int D (sint v), args))"
| "render1 D px _ _ = None"

fun render :: "string \<Rightarrow> string \<Rightarrow> directive list \<Rightarrow> arg list \<Rightarrow> (string \<times> arg list) option" where
  "render D px [] args = Some ([], args)"
| "render D px (d # ds) args =
     (case render1 D px d args of
        None \<Rightarrow> None
      | Some (s, args) \<Rightarrow> map_option (\<lambda>(out, args). (s @ out, args)) (render D px ds args))"

lemma getc_skip: "getc (a @ s) (length a + k) = getc s k"
  by (auto simp: getc_def nth_append)

text \<open>The loop on a format whose part before \<open>i\<close> has been consumed.\<close>

lemma printf_loop_shift:
  "printf_loop conv lconv (a @ fmt) (length a + i) args = printf_loop conv lconv fmt i args"
proof (induction conv lconv fmt i args rule: printf_loop.induct)
  case (1 conv lconv fmt i args)
  have s: "length a + i + k = length a + (i + k)" for k by simp
  show ?case
    using "1.IH"
    apply (subst (1 2) printf_loop.simps)
    apply (simp only: s getc_skip)
    apply (auto split: option.splits)
    done
qed

lemma append_eq_Cons: "(@) [c] = (#) c" "(@) [] = (\<lambda>x. x)"
  by (simp_all add: fun_eq_iff)

lemma printf_loop_skip: "printf_loop conv lconv (a @ fmt) (length a) args = printf_loop conv lconv fmt 0 args"
  using printf_loop_shift [of conv lconv a fmt 0 args] by simp

lemma loop_plain:
  "c \<noteq> NUL \<Longrightarrow> c \<noteq> CHR ''%'' \<Longrightarrow>
     printf_loop conv lconv (c # fmt) 0 args = map_option ((#) c) (printf_loop conv lconv fmt 0 args)"
  using printf_loop_skip [of conv lconv "[c]" fmt args] by (subst printf_loop.simps) (simp add: getc_def)

lemma loop_conv:
  "c \<noteq> CHR ''l'' \<Longrightarrow> printf_loop conv lconv (CHR ''%'' # c # fmt) 0 args =
     (case conv c args of None \<Rightarrow> None
      | Some (s, args) \<Rightarrow> map_option (\<lambda>out. s @ out) (printf_loop conv lconv fmt 0 args))"
  using printf_loop_skip [of conv lconv "[CHR ''%'', c]" fmt]
  by (subst printf_loop.simps) (simp add: getc_def numeral_2_eq_2 split: option.split)

lemma loop_long:
  "printf_loop conv lconv (CHR ''%'' # CHR ''l'' # c # fmt) 0 args =
     (case lconv c args of None \<Rightarrow> None
      | Some (s, args) \<Rightarrow> map_option (\<lambda>out. s @ out) (printf_loop conv lconv fmt 0 args))"
  using printf_loop_skip [of conv lconv "[CHR ''%'', CHR ''l'', c]" fmt]
  by (subst printf_loop.simps) (simp add: getc_def eval_nat_numeral split: option.split)

lemma loop_end: "printf_loop conv lconv (NUL # fmt) 0 args = Some []" "printf_loop conv lconv [] 0 args = None"
  by (subst printf_loop.simps; simp add: getc_def)+

section \<open>The interface of the conversions\<close>

locale format_library =
  fixes conv lconv :: conversion and D px :: string
  assumes percent: "conv (CHR ''%'') args = Some (''%'', args)"
    and conv_ok: "directive_ok (Conv c) \<Longrightarrow> render1 D px (Conv c) args = Some r \<Longrightarrow> conv c args = Some r"
    and lconv_ok: "directive_ok (LongConv c) \<Longrightarrow> render1 D px (LongConv c) args = Some r \<Longrightarrow> lconv c args = Some r"
begin

lemma one_directive:
  assumes "directive_ok d" "render1 D px d args = Some (s, args')"
  shows "printf_loop conv lconv (unparse d @ fmt) 0 args =
    map_option (\<lambda>out. s @ out) (printf_loop conv lconv fmt 0 args')"
proof (cases d)
  case (Conv c)
  have "conv c args = Some (s, args')" using assms Conv by (intro conv_ok) simp_all
  then show ?thesis using assms(1) Conv by (auto simp: loop_conv)
next
  case (LongConv c)
  have "lconv c args = Some (s, args')" using assms LongConv by (intro lconv_ok) simp_all
  then show ?thesis using LongConv by (simp add: loop_long)
qed (use assms percent in \<open>auto simp: loop_plain loop_conv append_eq_Cons\<close>)

lemma directives:
  "\<forall>d \<in> set ds. directive_ok d \<Longrightarrow> render D px ds args = Some (out, args') \<Longrightarrow>
     printf_loop conv lconv (concat (map unparse ds) @ fmt) 0 args =
       map_option (\<lambda>o'. out @ o') (printf_loop conv lconv fmt 0 args')"
proof (induction ds arbitrary: args out)
  case (Cons d ds)
  obtain s args1 where s: "render1 D px d args = Some (s, args1)"
    using Cons.prems(2) by (auto split: option.splits)
  obtain o1 where o1: "render D px ds args1 = Some (o1, args')" "out = s @ o1"
    using Cons.prems(2) s by auto
  show ?case
    using one_directive [of d args s args1 "concat (map unparse ds) @ fmt"] Cons.IH [OF _ o1(1)] Cons.prems(1) s o1(2)
    by (simp add: option.map_comp o_def)
qed (simp add: append_eq_Cons option.map_ident)

lemma terminated: "printf_loop conv lconv [NUL] 0 args = Some []"
  by (rule loop_end)

end

lemma emit_itoa:
  assumes "NUL \<notin> set D" "D ! 0 = CHR ''0''" "length D = 16" "22 \<le> n"
  shows "emit (itoa_with D v (replicate n NUL) 10) args = Some (show_int D (sint v), args)"
    and "emit (itoa_with D v (replicate n NUL) 16) args = Some (show_nat D 16 (unat v), args)"
  using itoa_dec_result [OF assms(1-3), of "replicate n NUL" v] itoa_hex_result [OF assms(1-3), of "replicate n NUL" v] assms(4)
  by (auto simp: emit_def)

lemmas kernel_emit = emit_itoa [OF digit_tables(1,2,4), folded kernel_itoa_def]
lemmas user_emit = emit_itoa [OF digit_tables(5,6,8), folded user_itoa_def]

lemma sint_scast_up: "sint (scast (v :: u32) :: u64) = sint v"
  by (rule sint_up_scast) (simp add: is_up)

lemma sint_ucast_up: "sint (ucast (v :: u32) :: u64) = uint v"
proof -
  have u: "uint (ucast v :: u64) = uint v" by (rule uint_up_ucast) (simp add: is_up)
  have "uint v < 2 ^ 32" using uint_lt2p [of v] by simp
  moreover have "- (2 ^ 63) \<le> uint v" by (rule order_trans [of _ 0]) simp_all
  ultimately show ?thesis using u by (simp add: sint_uint signed_take_bit_int_eq_self)
qed

lemma unat_ucast_up: "unat (ucast (v :: u32) :: u64) = unat v"
  using unat_bound [of v] by (simp add: unat_ucast_mod)

interpretation kp: format_library kernel_conv kernel_lconv kernel_digits "''0x''"
proof unfold_locales
  show "kernel_conv (CHR ''%'') args = Some (''%'', args)" for args by (simp add: kernel_conv_def)
next
  fix c args r assume "directive_ok (Conv c)" "render1 kernel_digits ''0x'' (Conv c) args = Some r"
  then show "kernel_conv c args = Some r"
    by (cases "(kernel_digits, ''0x'', Conv c, args)" rule: render1.cases)
       (auto simp: kernel_conv_def kernel_emit prefix_0x_def emit_def [of "Some _"] cstr_def sint_scast_up sint_ucast_up
         unat_ucast_up split: if_splits)
next
  fix c args r assume "directive_ok (LongConv c)" "render1 kernel_digits ''0x'' (LongConv c) args = Some r"
  then show "kernel_lconv c args = Some r"
    by (cases "(kernel_digits, ''0x'', LongConv c, args)" rule: render1.cases)
       (auto simp: kernel_lconv_def kernel_emit prefix_0x_def split: if_splits)
qed

interpretation up: format_library user_conv user_lconv user_digits "[]"
proof unfold_locales
  show "user_conv (CHR ''%'') args = Some (''%'', args)" for args by (simp add: user_conv_def)
next
  fix c args r assume "directive_ok (Conv c)" "render1 user_digits [] (Conv c) args = Some r"
  then show "user_conv c args = Some r"
    by (cases "(user_digits, [] :: string, Conv c, args)" rule: render1.cases)
       (auto simp: user_conv_def user_emit emit_def [of "Some _"] cstr_def sint_scast_up sint_ucast_up
         unat_ucast_up split: if_splits)
next
  fix c args r assume "directive_ok (LongConv c)" "render1 user_digits [] (LongConv c) args = Some r"
  then show "user_lconv c args = Some r"
    by (cases "(user_digits, [] :: string, LongConv c, args)" rule: render1.cases)
       (auto simp: user_lconv_def user_emit split: if_splits)
qed

section \<open>Properties\<close>



text \<open>
  A format that ends in a single \<^verbatim>\<open>%\<close> makes both functions step over the terminator: they
  read the format out of bounds.
\<close>

theorem printf_trailing_percent_overruns:
  assumes "\<forall>d \<in> set ds. directive_ok d"
    and "render kernel_digits ''0x'' ds args = Some (kout, rest)"
    and "render user_digits [] ds args = Some (uout, rest')"
  shows "kernel_printf (concat (map unparse ds) @ [CHR ''%'', NUL]) args = None \<and>
    user_printf (concat (map unparse ds) @ [CHR ''%'', NUL]) args = None"
proof -
  have "printf_loop kernel_conv kernel_lconv [CHR ''%'', NUL] 0 as = None"
    "printf_loop user_conv user_lconv [CHR ''%'', NUL] 0 as = None" for as
    by (simp_all add: loop_conv loop_end kernel_conv_def user_conv_def)
  then show ?thesis
    using kp.directives [OF assms(1,2)] up.directives [OF assms(1,3)] by (simp add: kernel_printf_def user_printf_def)
qed

theorem printf_trailing_percent_overruns_witness:
  "kernel_printf (''50%'' @ [NUL]) [] = None \<and> user_printf (''50%'' @ [NUL]) [] = None"
  using printf_trailing_percent_overruns [of "[Plain (CHR ''5''), Plain (CHR ''0'')]" "[]" "''50''" "[]" "''50''" "[]"]
  by simp

text \<open>
  \<^verbatim>\<open>%lu\<close> prints an unsigned number with the signed conversion: from \<open>2 ^ 63\<close> on the output
  is the negative number with the same bits.
\<close>

theorem printf_unsigned_long_signed:
  assumes "2 ^ 63 \<le> unat v"
  shows "\<exists>n > 0. kernel_printf (''%lu'' @ [NUL]) [ArgLong v] = Some (CHR ''-'' # show_nat kernel_digits 10 n) \<and>
    user_printf (''%lu'' @ [NUL]) [ArgLong v] = Some (CHR ''-'' # show_nat user_digits 10 n)"
proof -
  have neg: "sint v < 0"
  proof -
    have u: "uint v = sint v mod 2 ^ 64" by (simp add: uint_sint take_bit_eq_mod)
    have "int (2 ^ 63) \<le> int (unat v)" using assms by (simp only: of_nat_le_iff)
    then have big: "2 ^ 63 \<le> uint v" by simp
    have lt: "sint v < 2 ^ 63" using sint_lt [of v] by simp
    show ?thesis
    proof (rule ccontr)
      assume "\<not> sint v < 0"
      then have "sint v mod 2 ^ 64 = sint v" using lt by (intro mod_pos_pos_trivial) simp_all
      then show False using u big lt by simp
    qed
  qed
  have "kernel_printf (''%lu'' @ [NUL]) [ArgLong v] = Some (show_int kernel_digits (sint v))"
    "user_printf (''%lu'' @ [NUL]) [ArgLong v] = Some (show_int user_digits (sint v))"
    using kp.directives [of "[LongConv (CHR ''u'')]" "[ArgLong v]" "show_int kernel_digits (sint v)" "[]" "[NUL]"] kp.terminated
      up.directives [of "[LongConv (CHR ''u'')]" "[ArgLong v]" "show_int user_digits (sint v)" "[]" "[NUL]"] up.terminated
    by (simp_all add: kernel_printf_def user_printf_def)
  then show ?thesis using neg by (intro exI [of _ "nat (- sint v)"]) (simp add: show_int_def)
qed

theorem printf_unsigned_long_signed_witness:
  "\<exists>n > 0. kernel_printf (''%lu'' @ [NUL]) [ArgLong (2 ^ 63)] = Some (CHR ''-'' # show_nat kernel_digits 10 n)"
  using printf_unsigned_long_signed [of "2 ^ 63"] by auto

end
