(* ===== verification/Console.thy ===== *)
theory Console
  imports Irq Terminal Printf
begin

text \<open>
  What every part of the kernel can do: print on the terminal and wait for interrupts.

  \<^item> \<open>kprintf\<close> is the kernel's \<^verbatim>\<open>printf\<close>: its text goes to the terminal character by character
    (\<^verbatim>\<open>sys_write\<close> is \<^verbatim>\<open>terminal_write_string\<close>). Undefined behaviour of \<^verbatim>\<open>printf\<close> sets \<open>fault\<close>.
  \<^item> \<open>hlt_until\<close> is a loop around \<^verbatim>\<open>hlt\<close>: each \<^verbatim>\<open>hlt\<close> ends with one interrupt of the list, and \<open>None\<close> is
    a machine that still sleeps when no more interrupts come.
  \<^item> \<open>outcome\<close> is the way a kernel function can end: with a result, in an endless loop around \<^verbatim>\<open>hlt\<close> in some
    state, asleep for want of interrupts, in an endless loop, with a division by zero, or in a
    call through a null pointer.
\<close>

record console = irq +
  kterm :: terminal
  fault :: bool

abbreviation kmem :: "'z console_scheme \<Rightarrow> mem" where "kmem s \<equiv> tmem (kterm s)"

definition set_kmem :: "mem \<Rightarrow> 'z console_scheme \<Rightarrow> 'z console_scheme" where
  "set_kmem m s = s\<lparr>kterm := (kterm s)\<lparr>tmem := m\<rparr>\<rparr>"

definition bytes_of :: "string \<Rightarrow> u8 list" where "bytes_of s = map of_char s"

definition kprintf :: "string \<Rightarrow> arg list \<Rightarrow> 'z console_scheme \<Rightarrow> 'z console_scheme" where
  "kprintf fmt args s =
     (case kernel_printf (fmt @ [NUL]) args of
        None \<Rightarrow> s\<lparr>fault := True\<rparr>
      | Some out \<Rightarrow> s\<lparr>kterm := terminal_print (bytes_of out) (kterm s)\<rparr>)"

datatype ('a, 's) outcome = Done 'a | Halted 's | Asleep | Endless | Divide_Error | Null_Call

fun hlt_until :: "('s \<Rightarrow> bool) \<Rightarrow> ('e \<Rightarrow> 's \<Rightarrow> 's) \<Rightarrow> 'e list \<Rightarrow> 's \<Rightarrow> ('s \<times> 'e list) option" where
  "hlt_until stop deliver [] s = (if stop s then Some (s, []) else None)"
| "hlt_until stop deliver (e # es) s =
     (if stop s then Some (s, e # es) else hlt_until stop deliver es (deliver e s))"

section \<open>Printing\<close>

lemma print_ok:
  assumes "terminal_ok t"
  shows "terminal_ok (terminal_print cs t) \<and> tfb (terminal_print cs t) = tfb t \<and>
    (\<forall>a. a \<notin> screen_bytes t \<longrightarrow> tmem (terminal_print cs t) a = tmem t a)"
  using assms
proof (induction cs arbitrary: t)
  case (Cons c cs)
  have "screen_bytes (terminal_putchar c t) = screen_bytes t"
    using putchar_ok(2) [OF Cons.prems] by (simp add: screen_bytes_def)
  then show ?case
    using Cons.IH [OF putchar_ok(1) [OF Cons.prems, of c]] putchar_ok(2,3) [OF Cons.prems]
    by (simp add: terminal_print_def)
qed (simp add: terminal_print_def)

lemma kprintf_frame [simp]:
  "irq_table (kprintf fmt args s) = irq_table s" "device (kprintf fmt args s) = device s"
  "io_log (kprintf fmt args s) = io_log s" "console.more (kprintf fmt args s) = console.more s"
  by (simp_all add: kprintf_def split: option.split)

lemma kprintf_ok:
  assumes "terminal_ok (kterm s)"
  shows "terminal_ok (kterm (kprintf fmt args s))" "tfb (kterm (kprintf fmt args s)) = tfb (kterm s)"
    "a \<notin> screen_bytes (kterm s) \<Longrightarrow> kmem (kprintf fmt args s) a = kmem s a"
  using print_ok [OF assms] assms by (auto simp: kprintf_def split: option.split)

text \<open>Output of a format that is a literal, or whose arguments are there.\<close>

lemma kprintf_fault: "kernel_printf (fmt @ [NUL]) args \<noteq> None \<Longrightarrow> fault (kprintf fmt args s) = fault s"
  by (auto simp: kprintf_def)

section \<open>Sleeping\<close>

lemma hlt_until_stops: "hlt_until stop deliver es s = Some (s', es') \<Longrightarrow> stop s'"
  by (induction stop deliver es s rule: hlt_until.induct) (auto split: if_splits)

lemma hlt_until_inv:
  assumes "hlt_until stop deliver es s = Some (s', es')" "P s"
    and "\<And>e s. e \<in> set es \<Longrightarrow> P s \<Longrightarrow> P (deliver e s)"
  shows "P s'"
  using assms by (induction stop deliver es s rule: hlt_until.induct) (auto split: if_splits)

lemma hlt_until_consumes:
  "hlt_until stop deliver es s = Some (s', es') \<Longrightarrow> \<exists>used. es = used @ es' \<and> s' = fold deliver used s"
proof (induction stop deliver es s rule: hlt_until.induct)
  case (2 stop deliver e es s)
  show ?case
  proof (cases "stop s")
    case True
    then show ?thesis using "2.prems" by (intro exI [of _ "[]"]) auto
  next
    case False
    then obtain used where "es = used @ es'" "s' = fold deliver used (deliver e s)" using 2 by auto
    then show ?thesis by (intro exI [of _ "e # used"]) simp
  qed
qed (auto split: if_splits)

text \<open>If the interrupts to come would establish the condition at some point, the loop ends.\<close>

lemma hlt_until_returns:
  assumes "stop (fold deliver (take k es) s)"
  shows "\<exists>s' es'. hlt_until stop deliver es s = Some (s', es')"
  using assms
proof (induction stop deliver es s arbitrary: k rule: hlt_until.induct)
  case (2 stop deliver e es s)
  show ?case
  proof (cases "stop s")
    case False
    then obtain j where "k = Suc j" using "2.prems" by (cases k) auto
    then show ?thesis using "2.IH" [OF False, of j] "2.prems" False by simp
  qed auto
qed auto

end
