(* ===== verification/Lapic.thy ===== *)
theory Lapic
  imports Console
begin

text \<open>
  The local interrupt controller, \<^verbatim>\<open>src/arch/x86_64/lapic.c\<close>: enabling it, acknowledging interrupts,
  and its timer, calibrated against the tick counter of the PIT. While \<^verbatim>\<open>lapic_timer_init\<close> waits it
  is interrupted; \<open>deliver\<close> is what one interrupt does to the kernel.
\<close>

record lapic = console +
  pit_ticks :: u64
  lapic_ticks :: u64

definition LAPIC_BASE :: u64 where "LAPIC_BASE = 0xFEE00000"
abbreviation LAPIC_EOI_REG :: u32 where "LAPIC_EOI_REG \<equiv> 0x0B0"
abbreviation LAPIC_SVR :: u32 where "LAPIC_SVR \<equiv> 0x0F0"
abbreviation LAPIC_TPR :: u32 where "LAPIC_TPR \<equiv> 0x080"
abbreviation LAPIC_LVT_TIMER :: u32 where "LAPIC_LVT_TIMER \<equiv> 0x320"
abbreviation LAPIC_TIMER_INIT :: u32 where "LAPIC_TIMER_INIT \<equiv> 0x380"
abbreviation LAPIC_TIMER_CUR :: u32 where "LAPIC_TIMER_CUR \<equiv> 0x390"
abbreviation LAPIC_TIMER_DIV :: u32 where "LAPIC_TIMER_DIV \<equiv> 0x3E0"
abbreviation LAPIC_TIMER_VECTOR :: u8 where "LAPIC_TIMER_VECTOR \<equiv> 48"

definition lapic_read :: "u32 \<Rightarrow> 'z hw_scheme \<Rightarrow> u32 \<times> 'z hw_scheme" where
  "lapic_read reg s = mmio_read (LAPIC_BASE + ucast reg) s"

definition lapic_write :: "u32 \<Rightarrow> u32 \<Rightarrow> 'z hw_scheme \<Rightarrow> 'z hw_scheme" where
  "lapic_write reg val s = mmio_write (LAPIC_BASE + ucast reg) val s"

definition lapic_init :: "'z hw_scheme \<Rightarrow> 'z hw_scheme" where
  "lapic_init s =
     (let (msr, s) = io_ask (Msr_Read 0x1B) s;
          s = io_do (Msr_Write 0x1B (msr OR push_bit 11 1)) s;
          (svr, s) = lapic_read LAPIC_SVR s;
          svr = (if svr AND 0xFF = 0 then (svr AND NOT 0xFF) OR 0xFF else svr);
          svr = svr OR push_bit 8 1
      in lapic_write LAPIC_TPR 0 (lapic_write LAPIC_SVR svr s))"

definition lapic_eoi :: "'z hw_scheme \<Rightarrow> 'z hw_scheme" where
  "lapic_eoi = lapic_write LAPIC_EOI_REG 0"

definition lapic_timer_handler :: "'z lapic_scheme \<Rightarrow> 'z lapic_scheme" where
  "lapic_timer_handler s = lapic_eoi (s\<lparr>lapic_ticks := lapic_ticks s + 1\<rparr>)"

definition lapic_period :: "u32 \<Rightarrow> u32 \<Rightarrow> u32 option" where
  "lapic_period hz remaining =
     (let elapsed = 0xFFFFFFFF - remaining; d = 50 * hz div 1000 in
      if d = 0 then None
      else let ticks_per_period = elapsed div d
           in Some (if ticks_per_period < 32 then 32 else ticks_per_period))"

definition lapic_timer_init ::
  "('e \<Rightarrow> 'z lapic_scheme \<Rightarrow> 'z lapic_scheme) \<Rightarrow> u32 \<Rightarrow> 'e list \<Rightarrow> 'z lapic_scheme \<Rightarrow> ('z lapic_scheme \<times> 'e list, 'z lapic_scheme) outcome" where
  "lapic_timer_init deliver hz es s =
     (let s = lapic_write LAPIC_TIMER_DIV 0x3 s;
          s = lapic_write LAPIC_LVT_TIMER (ucast LAPIC_TIMER_VECTOR) s;
          s = lapic_write LAPIC_TIMER_INIT 0xFFFFFFFF s;
          start = pit_ticks s
      in case hlt_until (\<lambda>s. \<not> pit_ticks s - start < 5) deliver es s of
           None \<Rightarrow> Asleep
         | Some (s, es) \<Rightarrow>
             let (remaining, s) = lapic_read LAPIC_TIMER_CUR s in
             case lapic_period hz remaining of
               None \<Rightarrow> Divide_Error
             | Some n \<Rightarrow>
                 let s = lapic_write LAPIC_LVT_TIMER (ucast LAPIC_TIMER_VECTOR OR push_bit 16 1) s;
                     s = lapic_write LAPIC_TIMER_INIT n s;
                     (rc, s) = irq_register LAPIC_TIMER_VECTOR Lapic_timer_handler ''LAPIC Timer'' s;
                     s = kprintf (''LAPIC: timer at %d Hz (init=%d)'' @ [CHR 0x0A]) [ArgInt hz, ArgInt n] s
                 in Done (s, es))"

definition lapic_get_ticks :: "'z lapic_scheme \<Rightarrow> u64" where "lapic_get_ticks s = lapic_ticks s"

section \<open>The state of the timer\<close>

text \<open>A register holds what was written to it last.\<close>

fun register_value :: "u64 \<Rightarrow> io list \<Rightarrow> u32 option" where
  "register_value a [] = None"
| "register_value a (Mmio_Write b v # es) = (if b = a then Some v else register_value a es)"
| "register_value a (_ # es) = register_value a es"

definition lvt_masked :: "u32 \<Rightarrow> bool" where "lvt_masked v \<longleftrightarrow> bit v 16"
definition lvt_periodic :: "u32 \<Rightarrow> bool" where "lvt_periodic v \<longleftrightarrow> bit v 17"

lemma lapic_write_simps [simp]:
  "io_log (lapic_write r v s) = Mmio_Write (LAPIC_BASE + ucast r) v # io_log s"
  "device (lapic_write r v s) = device s" "hw.more (lapic_write r v s) = hw.more s"
  by (simp_all add: lapic_write_def)

lemma lapic_write_table [simp]:
  "irq_table (lapic_write r v s) = irq_table s"
  by (simp add: lapic_write_def mmio_write_def io_do_def)

lemma lapic_write_ticks [simp]:
  "pit_ticks (lapic_write r v s) = pit_ticks s" "lapic_ticks (lapic_write r v s) = lapic_ticks s"
  by (simp_all add: lapic_write_def mmio_write_def io_do_def)

lemma lapic_period_min: "lapic_period hz remaining = Some n \<Longrightarrow> 32 \<le> n"
  by (auto simp: lapic_period_def Let_def split: if_splits)

lemma lapic_period_None: "lapic_period hz remaining = None \<longleftrightarrow> 50 * hz div 1000 = 0"
  by (simp add: lapic_period_def Let_def)

lemma irq_register_simps [simp]:
  "io_log (snd (irq_register v h n s)) = io_log s" "device (snd (irq_register v h n s)) = device s"
  "handler (irq_table (snd (irq_register v h n s)) v) \<noteq> None"
  by (simp_all add: irq_register_def)

text \<open>The calibration ends once the PIT has ticked five times.\<close>

lemma timer_init_done:
  assumes w: "hlt_until (\<lambda>s. \<not> pit_ticks s - pit_ticks s0 < 5) deliver es
      (lapic_write LAPIC_TIMER_INIT 0xFFFFFFFF (lapic_write LAPIC_LVT_TIMER (ucast LAPIC_TIMER_VECTOR)
        (lapic_write LAPIC_TIMER_DIV 0x3 s0))) = Some (s1, es1)"
    and d: "50 * hz div 1000 \<noteq> 0"
  shows "\<exists>s'. lapic_timer_init deliver hz es s0 = Done (s', es1)"
proof -
  obtain r s2 where r: "lapic_read LAPIC_TIMER_CUR s1 = (r, s2)" by force
  obtain n where "lapic_period hz r = Some n" using d lapic_period_None by fastforce
  then show ?thesis using w r by (simp add: lapic_timer_init_def Let_def split: prod.split)
qed

lemma timer_init_fails:
  assumes "50 * hz div 1000 = 0"
  shows "lapic_timer_init deliver hz es s \<in> {Asleep, Divide_Error}"
  using assms lapic_period_None [of hz]
  by (auto simp: lapic_timer_init_def Let_def split: prod.split option.split)

lemma timer_init_state:
  assumes "lapic_timer_init deliver hz es s = Done (s', es')"
  shows "\<exists>n log. 32 \<le> n \<and> handler (irq_table s' LAPIC_TIMER_VECTOR) \<noteq> None \<and>
    io_log s' = Mmio_Write (LAPIC_BASE + 0x380) n # Mmio_Write (LAPIC_BASE + 0x320) 0x10030 # log"
proof -
  let ?s = "lapic_write LAPIC_TIMER_INIT 0xFFFFFFFF (lapic_write LAPIC_LVT_TIMER (ucast LAPIC_TIMER_VECTOR)
    (lapic_write LAPIC_TIMER_DIV 0x3 s))"
  obtain s1 where h: "hlt_until (\<lambda>t. \<not> pit_ticks t - pit_ticks s < 5) deliver es ?s = Some (s1, es')"
    using assms by (auto simp: lapic_timer_init_def Let_def split: option.splits prod.splits)
  obtain r s2 where r: "lapic_read LAPIC_TIMER_CUR s1 = (r, s2)" by force
  obtain n where n: "lapic_period hz r = Some n"
    using assms h r by (auto simp: lapic_timer_init_def Let_def split: option.splits prod.splits)
  have "s' = kprintf (''LAPIC: timer at %d Hz (init=%d)'' @ [CHR 0x0A]) [ArgInt hz, ArgInt n]
      (snd (irq_register LAPIC_TIMER_VECTOR Lapic_timer_handler ''LAPIC Timer''
        (lapic_write LAPIC_TIMER_INIT n (lapic_write LAPIC_LVT_TIMER 0x10030 s2))))"
    using assms h r n by (simp add: lapic_timer_init_def Let_def split: prod.splits)
  then show ?thesis using lapic_period_min [OF n] by (intro exI [of _ n] exI [of _ "io_log s2"]) simp
qed

section \<open>Properties\<close>

definition demo_lapic :: lapic where
  "demo_lapic = \<lparr>device = (\<lambda>_ _. 0), io_log = [],
     irq_table = (\<lambda>_. \<lparr>handler = None, irq_name = None, irq_count = 0\<rparr>), kterm = demo_terminal, fault = False,
     pit_ticks = 0, lapic_ticks = 0\<rparr>"

definition demo_tick :: "unit \<Rightarrow> lapic \<Rightarrow> lapic" where
  "demo_tick _ s = s\<lparr>pit_ticks := pit_ticks s + 1\<rparr>"

text \<open>
  C26: whenever \<^verbatim>\<open>lapic_timer_init\<close> returns, it has registered a handler for the timer vector and
  loaded a period of at least 32 counts, but the entry it leaves in the timer register has the
  mask bit set and the periodic bit clear, so the timer it announces never interrupts; and
  with a frequency below 20 Hz it never returns, because it divides by zero.
\<close>

theorem lapic_timer_init_masked:
  "(\<forall>s' es'. lapic_timer_init deliver hz es s = Done (s', es') \<longrightarrow>
      (\<exists>lvt n. register_value (LAPIC_BASE + 0x320) (io_log s') = Some lvt \<and> lvt_masked lvt \<and>
        \<not> lvt_periodic lvt \<and> register_value (LAPIC_BASE + 0x380) (io_log s') = Some n \<and> 32 \<le> n \<and>
        handler (irq_table s' LAPIC_TIMER_VECTOR) \<noteq> None)) \<and>
   (hz < 20 \<longrightarrow> lapic_timer_init deliver hz es s \<in> {Asleep, Divide_Error})"
proof (intro conjI allI impI)
  fix s' es' assume "lapic_timer_init deliver hz es s = Done (s', es')"
  from timer_init_state [OF this] obtain n log where n: "32 \<le> n" "handler (irq_table s' LAPIC_TIMER_VECTOR) \<noteq> None"
    "io_log s' = Mmio_Write (LAPIC_BASE + 0x380) n # Mmio_Write (LAPIC_BASE + 0x320) 0x10030 # log" by blast
  have "bit (0x10030 :: u32) 16" "\<not> bit (0x10030 :: u32) 17" by simp_all
  with n show "\<exists>lvt n. register_value (LAPIC_BASE + 0x320) (io_log s') = Some lvt \<and> lvt_masked lvt \<and>
      \<not> lvt_periodic lvt \<and> register_value (LAPIC_BASE + 0x380) (io_log s') = Some n \<and> 32 \<le> n \<and>
      handler (irq_table s' LAPIC_TIMER_VECTOR) \<noteq> None"
    by (intro exI [of _ "0x10030"] exI [of _ n]) (simp add: lvt_masked_def lvt_periodic_def LAPIC_BASE_def)
next
  assume "hz < 20"
  then have "unat hz < 20" by (simp add: word_less_nat_alt)
  then have "unat (50 * hz) = 50 * unat hz" by (simp add: unat_word_ariths)
  then have "unat (50 * hz div 1000) = 0" using \<open>unat hz < 20\<close> by (simp add: unat_div)
  then show "lapic_timer_init deliver hz es s \<in> {Asleep, Divide_Error}"
    by (intro timer_init_fails) (simp add: unat_eq_zero)
qed

theorem lapic_timer_init_masked_witness:
  "(\<exists>s' lvt. lapic_timer_init demo_tick 100 (replicate 5 ()) demo_lapic = Done (s', []) \<and>
      register_value (LAPIC_BASE + 0x320) (io_log s') = Some lvt \<and> lvt_masked lvt) \<and>
   lapic_timer_init demo_tick 19 (replicate 5 ()) demo_lapic \<in> {Asleep, Divide_Error}"
proof
  have five: "replicate 5 () = [(), (), (), (), ()]" by (simp add: numeral_eq_Suc)
  have "\<exists>s1. hlt_until (\<lambda>s. \<not> pit_ticks s - pit_ticks demo_lapic < 5) demo_tick (replicate 5 ())
      (lapic_write LAPIC_TIMER_INIT 0xFFFFFFFF (lapic_write LAPIC_LVT_TIMER (ucast LAPIC_TIMER_VECTOR)
        (lapic_write LAPIC_TIMER_DIV 0x3 demo_lapic))) = Some (s1, [])"
    unfolding five by (simp add: demo_tick_def demo_lapic_def lapic_write_def mmio_write_def io_do_def)
  then obtain s' where s': "lapic_timer_init demo_tick 100 (replicate 5 ()) demo_lapic = Done (s', [])"
    using timer_init_done [of demo_lapic demo_tick _ _ "[]" 100] by auto
  then show "\<exists>s' lvt. lapic_timer_init demo_tick 100 (replicate 5 ()) demo_lapic = Done (s', []) \<and>
      register_value (LAPIC_BASE + 0x320) (io_log s') = Some lvt \<and> lvt_masked lvt"
    using lapic_timer_init_masked [of demo_tick 100 "replicate 5 ()" demo_lapic] by blast
  show "lapic_timer_init demo_tick 19 (replicate 5 ()) demo_lapic \<in> {Asleep, Divide_Error}"
    using lapic_timer_init_masked [of demo_tick 19 "replicate 5 ()" demo_lapic] by simp
qed

end
