(* ===== verification/Pci.thy ===== *)
theory Pci
  imports Hardware
begin

text \<open>
  The PCI scan, \<^verbatim>\<open>src/drivers/pci.cpp\<close>: all functions of all devices of all buses are probed in order
  through the configuration ports until one matches the requested kind of device.

  What the bus answers is the environment; the hypothesis \<open>config_mechanism\<close> is the documented
  behaviour of the ports: a read of 0xCFC returns the configuration register whose address was
  written to 0xCF8 before.
\<close>

section \<open>Devices\<close>

datatype DeviceType = Xhci | Ehci | Ahci | IntelE1000 | Nvme

record DeviceSignature =
  sig_type :: DeviceType
  use_class_matching :: bool
  class_code :: u8
  sub_class :: u8
  sig_vendor :: u16
  sig_device :: u16

record PciDevice =
  bus :: u8
  slot :: u8
  func :: u8
  mmio_base :: u64
  vendor_id :: u16
  device_id :: u16

definition lookup_table :: "DeviceSignature list" where
  "lookup_table =
     [\<lparr>sig_type = Xhci, use_class_matching = True, class_code = 0x0C, sub_class = 0x03, sig_vendor = 0, sig_device = 0\<rparr>,
      \<lparr>sig_type = Ehci, use_class_matching = True, class_code = 0x0C, sub_class = 0x03, sig_vendor = 0, sig_device = 0\<rparr>,
      \<lparr>sig_type = Ahci, use_class_matching = True, class_code = 0x01, sub_class = 0x06, sig_vendor = 0, sig_device = 0\<rparr>,
      \<lparr>sig_type = Nvme, use_class_matching = True, class_code = 0x01, sub_class = 0x08, sig_vendor = 0, sig_device = 0\<rparr>,
      \<lparr>sig_type = IntelE1000, use_class_matching = False, class_code = 0, sub_class = 0, sig_vendor = 0x8086, sig_device = 0x100E\<rparr>]"

definition config_address :: "u8 \<Rightarrow> u8 \<Rightarrow> u8 \<Rightarrow> u8 \<Rightarrow> u32" where
  "config_address b d f offset =
     push_bit 31 1 OR push_bit 16 (ucast b) OR push_bit 11 (ucast d) OR push_bit 8 (ucast f) OR ucast (offset AND 0xFC)"

definition readConfig :: "u8 \<Rightarrow> u8 \<Rightarrow> u8 \<Rightarrow> u8 \<Rightarrow> 'z hw_scheme \<Rightarrow> u32 \<times> 'z hw_scheme" where
  "readConfig b d f offset s = inl 0xCFC (outl 0xCF8 (config_address b d f offset) s)"

section \<open>The scan\<close>

text \<open>
  A counted loop that returns from the function when its body finds something; \<open>k\<close> rounds are
  left and \<open>i\<close> is the counter.
\<close>

fun search :: "nat \<Rightarrow> nat \<Rightarrow> (nat \<Rightarrow> 's \<Rightarrow> 'r option \<times> 's) \<Rightarrow> 's \<Rightarrow> 'r option \<times> 's" where
  "search 0 i body s = (None, s)"
| "search (Suc k) i body s =
     (case body i s of (Some r, s) \<Rightarrow> (Some r, s) | (None, s) \<Rightarrow> search k (Suc i) body s)"

definition sig_match :: "DeviceType \<Rightarrow> DeviceSignature \<Rightarrow> u32 \<Rightarrow> u32 \<Rightarrow> bool" where
  "sig_match type sig ident classRev =
     (let vendorId = ucast (ident AND 0xFFFF) :: u16;
          deviceId = ucast (drop_bit 16 ident AND 0xFFFF) :: u16;
          classCode = ucast (drop_bit 24 classRev AND 0xFF) :: u8;
          subcls = ucast (drop_bit 16 classRev AND 0xFF) :: u8;
          progIf = ucast (drop_bit 8 classRev AND 0xFF) :: u8
      in if use_class_matching sig then
           (if classCode = class_code sig \<and> subcls = sub_class sig then
              (if type = Xhci \<and> progIf \<noteq> 0x30 then False
               else if type = Ehci \<and> progIf \<noteq> 0x20 then False else True)
            else False)
         else vendorId = sig_vendor sig \<and> deviceId = sig_device sig)"

definition read_bar :: "u8 \<Rightarrow> u8 \<Rightarrow> u8 \<Rightarrow> 'z hw_scheme \<Rightarrow> u64 \<times> 'z hw_scheme" where
  "read_bar b d f s =
     (let (bar0, s) = readConfig b d f 0x10 s in
      if bar0 AND 1 = 0 then
        (if drop_bit 1 bar0 AND 3 = 2 then
           let (bar1, s) = readConfig b d f 0x14 s
           in (push_bit 32 (ucast bar1) OR (ucast bar0 AND 0xFFFFFFF0), s)
         else (ucast (bar0 AND 0xFFFFFFF0), s))
      else (ucast (bar0 AND 0xFFFFFFFC), s))"

definition probe :: "DeviceType \<Rightarrow> DeviceSignature \<Rightarrow> u8 \<Rightarrow> u8 \<Rightarrow> u8 \<Rightarrow> 'z hw_scheme \<Rightarrow> PciDevice option \<times> 'z hw_scheme" where
  "probe type sig b d f s =
     (let (ident, s) = readConfig b d f 0x00 s in
      if ident AND 0xFFFF = 0xFFFF then (None, s)
      else
        let (classRev, s) = readConfig b d f 0x08 s in
        if sig_match type sig ident classRev then
          let (mmio, s) = read_bar b d f s
          in (Some \<lparr>bus = b, slot = d, func = f, mmio_base = mmio, vendor_id = ucast (ident AND 0xFFFF),
                    device_id = ucast (drop_bit 16 ident AND 0xFFFF)\<rparr>, s)
        else (None, s))"

text \<open>Past function 0 a device that is not multi-function has no function to probe.\<close>

definition probe_slot :: "DeviceType \<Rightarrow> DeviceSignature \<Rightarrow> u8 \<Rightarrow> u8 \<Rightarrow> 'z hw_scheme \<Rightarrow> PciDevice option \<times> 'z hw_scheme" where
  "probe_slot type sig b d s =
     (let (id_f0, s) = readConfig b d 0 0x00 s in
      if id_f0 AND 0xFFFF = 0xFFFF then (None, s)
      else
        let (header_f0, s) = readConfig b d 0 0x0C s;
            is_multi_function = (drop_bit 16 header_f0 AND 0x80 \<noteq> 0)
        in search 8 0 (\<lambda>f s. if f > 0 \<and> \<not> is_multi_function then (None, s) else probe type sig b d (of_nat f) s) s)"

definition findPciDevice :: "DeviceType \<Rightarrow> 'z hw_scheme \<Rightarrow> PciDevice option \<times> 'z hw_scheme" where
  "findPciDevice type s =
     (case List.find (\<lambda>item. sig_type item = type) lookup_table of
        None \<Rightarrow> (None, s)
      | Some sig \<Rightarrow> search 256 0 (\<lambda>b. search 32 0 (\<lambda>d. probe_slot type sig (of_nat b) (of_nat d))) s)"

text \<open>The C interface: 1 and the device, or 0 when the pointer is null or nothing matches.\<close>

definition pci_find_device :: "DeviceType \<Rightarrow> bool \<Rightarrow> 'z hw_scheme \<Rightarrow> int \<times> PciDevice option \<times> 'z hw_scheme" where
  "pci_find_device type out_null s =
     (if out_null then (0, None, s)
      else (case findPciDevice type s of
              (Some dev, s) \<Rightarrow> (1, Some dev, s)
            | (None, s) \<Rightarrow> (0, None, s)))"

section \<open>Specification\<close>

definition config_mechanism :: "(io list \<Rightarrow> io \<Rightarrow> u64) \<Rightarrow> (u32 \<Rightarrow> u32) \<Rightarrow> bool" where
  "config_mechanism dev cfg \<longleftrightarrow> (\<forall>a log. dev (Out32 0xCF8 a # log) (In32 0xCFC) = ucast (cfg a))"

fun first_some :: "('a \<Rightarrow> 'b option) \<Rightarrow> 'a list \<Rightarrow> 'b option" where
  "first_some f [] = None"
| "first_some f (x # xs) = (case f x of None \<Rightarrow> first_some f xs | Some y \<Rightarrow> Some y)"

type_synonym pci_function = "nat \<times> nat \<times> nat"

definition reg :: "(u32 \<Rightarrow> u32) \<Rightarrow> pci_function \<Rightarrow> u8 \<Rightarrow> u32" where
  "reg cfg = (\<lambda>(b, d, f) off. cfg (config_address (of_nat b) (of_nat d) (of_nat f) off))"

text \<open>A function exists when its device does and, past function 0, the device says so.\<close>

definition present :: "(u32 \<Rightarrow> u32) \<Rightarrow> pci_function \<Rightarrow> bool" where
  "present cfg = (\<lambda>(b, d, f). reg cfg (b, d, 0) 0 AND 0xFFFF \<noteq> 0xFFFF \<and>
     (0 < f \<longrightarrow> bit (reg cfg (b, d, 0) 0x0C) 23) \<and> reg cfg (b, d, f) 0 AND 0xFFFF \<noteq> 0xFFFF)"

text \<open>Class, sub_class and programming interface, or vendor and device.\<close>

fun kind_match :: "DeviceType \<Rightarrow> u32 \<Rightarrow> u32 \<Rightarrow> bool" where
  "kind_match Xhci ident cls \<longleftrightarrow> drop_bit 8 cls = 0x0C0330"
| "kind_match Ehci ident cls \<longleftrightarrow> drop_bit 8 cls = 0x0C0320"
| "kind_match Ahci ident cls \<longleftrightarrow> drop_bit 16 cls = 0x0106"
| "kind_match Nvme ident cls \<longleftrightarrow> drop_bit 16 cls = 0x0108"
| "kind_match IntelE1000 ident cls \<longleftrightarrow> ident = 0x100E8086"

definition bar_address :: "u32 \<Rightarrow> u32 \<Rightarrow> u64" where
  "bar_address bar0 bar1 =
     (if bit bar0 0 then ucast (bar0 AND 0xFFFFFFFC)
      else if \<not> bit bar0 1 \<and> bit bar0 2 then push_bit 32 (ucast bar1) OR ucast (bar0 AND 0xFFFFFFF0)
      else ucast (bar0 AND 0xFFFFFFF0))"

definition device_at :: "(u32 \<Rightarrow> u32) \<Rightarrow> pci_function \<Rightarrow> PciDevice" where
  "device_at cfg = (\<lambda>(b, d, f).
     \<lparr>bus = of_nat b, slot = of_nat d, func = of_nat f,
      mmio_base = bar_address (reg cfg (b, d, f) 0x10) (reg cfg (b, d, f) 0x14),
      vendor_id = ucast (reg cfg (b, d, f) 0), device_id = ucast (drop_bit 16 (reg cfg (b, d, f) 0))\<rparr>)"

definition all_functions :: "pci_function list" where
  "all_functions = concat (map (\<lambda>b. concat (map (\<lambda>d. map (\<lambda>f. (b, d, f)) [0..<8]) [0..<32])) [0..<256])"

definition pci_match :: "DeviceType \<Rightarrow> (u32 \<Rightarrow> u32) \<Rightarrow> pci_function \<Rightarrow> bool" where
  "pci_match type cfg x \<longleftrightarrow> present cfg x \<and> kind_match type (reg cfg x 0) (reg cfg x 0x08)"

section \<open>The scan finds the first match\<close>

lemma first_some_concat: "first_some f (concat (map g xs)) = first_some (\<lambda>x. first_some f (g x)) xs"
proof -
  have app: "first_some f (ys @ zs) = (case first_some f ys of None \<Rightarrow> first_some f zs | Some y \<Rightarrow> Some y)" for ys zs
    by (induction ys) (auto split: option.split)
  show ?thesis by (induction xs) (auto simp: app split: option.split)
qed

lemma first_some_map: "first_some f (map g xs) = first_some (\<lambda>x. f (g x)) xs"
  by (induction xs) (auto split: option.split)

lemma first_some_cong: "(\<And>x. x \<in> set xs \<Longrightarrow> f x = g x) \<Longrightarrow> first_some f xs = first_some g xs"
  by (induction xs) (auto split: option.split)

lemma first_some_find: "first_some (\<lambda>x. if p x then Some (g x) else None) xs = map_option g (List.find p xs)"
  by (induction xs) auto

lemma search_first:
  assumes "I s" "\<And>i s. I s \<Longrightarrow> \<exists>s'. body i s = (P i, s') \<and> I s'"
  shows "\<exists>s'. search k i body s = (first_some P [i..<i + k], s') \<and> I s'"
  using assms(1)
proof (induction k arbitrary: i s)
  case (Suc k)
  obtain s1 where s1: "body i s = (P i, s1)" "I s1" using assms(2) Suc.prems by blast
  have l: "[i..<i + Suc k] = i # [Suc i..<Suc i + k]" by (simp add: upt_conv_Cons)
  show ?case
  proof (cases "P i")
    case None
    then show ?thesis using Suc.IH [OF s1(2), of "Suc i"] s1(1) unfolding l by simp
  next
    case (Some r)
    then show ?thesis using s1 unfolding l by simp
  qed
qed simp

text \<open>Reading the bus changes nothing but the log.\<close>

definition quiet :: "(u32 \<Rightarrow> u32) \<Rightarrow> 'z \<Rightarrow> 'z hw_scheme \<Rightarrow> bool" where
  "quiet cfg w s \<longleftrightarrow> config_mechanism (device s) cfg \<and> hw.more s = w"

lemma ucast_back: "(ucast (ucast (x :: u32) :: u64) :: u32) = x"
  by (rule bit_word_eqI) (simp add: bit_simps)

lemma readConfig_quiet:
  assumes "quiet cfg w s"
  shows "\<exists>s'. readConfig b d f off s = (cfg (config_address b d f off), s') \<and> quiet cfg w s'"
proof -
  have "device s (Out32 0xCF8 (config_address b d f off) # io_log s) (In32 0xCFC) = ucast (cfg (config_address b d f off))"
    using assms by (simp add: quiet_def config_mechanism_def)
  then show ?thesis using assms by (simp add: readConfig_def inl_def io_ask_def quiet_def ucast_back)
qed

lemma two_bits: "(w :: u32) AND 3 = 2 \<longleftrightarrow> \<not> bit w 0 \<and> bit w 1"
proof
  assume "w AND 3 = 2"
  then have "bit (w AND 3) n = bit (2 :: u32) n" for n by simp
  from this [of 0] this [of 1] show "\<not> bit w 0 \<and> bit w 1" by (simp add: bit_simps)
next
  assume w: "\<not> bit w 0 \<and> bit w 1"
  show "w AND 3 = 2"
  proof (rule bit_word_eqI)
    fix n :: nat assume "n < LENGTH(32)"
    show "bit (w AND 3) n = bit (2 :: u32) n"
    proof (cases "n < 2")
      case True
      then show ?thesis using w by (auto simp: bit_simps less_2_cases_iff)
    next
      case False
      then obtain k where "n = Suc (Suc k)" by (metis Suc_diff_Suc add_2_eq_Suc le_Suc_ex not_less)
      then show ?thesis by (simp add: bit_simps bit_numeral_rec)
    qed
  qed
qed

lemma bit_tests:
  "(w :: u32) AND 1 = 0 \<longleftrightarrow> \<not> bit w 0" "w AND 0x80 \<noteq> 0 \<longleftrightarrow> bit w 7" "drop_bit 1 w AND 3 = 2 \<longleftrightarrow> \<not> bit w 1 \<and> bit w 2"
  using bit_iff_and_push_bit_not_eq_0 [of w 0] bit_iff_and_push_bit_not_eq_0 [of w 7]
  by (simp_all add: two_bits bit_drop_bit_eq numeral_2_eq_2)

lemma low_half: "(ucast ((w :: u32) AND 0xFFFF) :: u16) = ucast w"
proof -
  have m: "(0xFFFF :: u32) = mask 16" by (simp add: mask_eq_exp_minus_1)
  show ?thesis unfolding m by (rule bit_word_eqI) (simp add: bit_simps)
qed

lemma unat_drop: "unat (drop_bit k (w :: u32)) = unat w div 2 ^ k"
  by (metis drop_bit_nat_def unat_drop_bit_eq)

lemma byte_of: "unat (ucast (drop_bit k (w :: u32) AND 0xFF) :: u8) = unat w div 2 ^ k mod 256"
proof -
  have "(0xFF :: u32) = mask 8" by (simp add: mask_eq_exp_minus_1)
  then have "unat (drop_bit k w AND 0xFF) = take_bit 8 (unat (drop_bit k w))"
    by (metis take_bit_eq_mask unsigned_take_bit_eq)
  then show ?thesis unfolding unat_ucast_mod by (simp add: unat_drop take_bit_eq_mod)
qed

text \<open>Comparing the parts of a number with constants is comparing the number.\<close>

lemma split_parts:
  fixes q :: nat
  assumes "q < r * k" "a < r" "b < k"
  shows "q div k = a \<and> q mod k = b \<longleftrightarrow> q = a * k + b"
  using assms by (auto simp: div_mult_mod_eq) 

lemma class_bytes:
  fixes q :: nat
  assumes "q < 2 ^ 32" "a < 256" "b < 256" "c < 256"
  shows "q div 2 ^ 24 mod 256 = a \<and> q div 2 ^ 16 mod 256 = b \<longleftrightarrow> q div 2 ^ 16 = a * 256 + b"
    "q div 2 ^ 24 mod 256 = a \<and> q div 2 ^ 16 mod 256 = b \<and> q div 2 ^ 8 mod 256 = c \<longleftrightarrow>
      q div 2 ^ 8 = (a * 256 + b) * 256 + c"
proof -
  have d: "q div 2 ^ 24 = q div 2 ^ 16 div 256" "q div 2 ^ 16 = q div 2 ^ 8 div 256"
    by (simp_all add: div_mult2_eq [symmetric])
  have m: "q div 2 ^ 24 mod 256 = q div 2 ^ 24" using assms(1) by (intro mod_less) (simp add: less_mult_imp_div_less)
  have lt: "q div 2 ^ 16 < 256 * 256" "q div 2 ^ 8 < 256 * 256 * 256"
    using assms(1) by (simp_all add: less_mult_imp_div_less)
  show 1: "q div 2 ^ 24 mod 256 = a \<and> q div 2 ^ 16 mod 256 = b \<longleftrightarrow> q div 2 ^ 16 = a * 256 + b"
    unfolding m unfolding d(1) using split_parts [OF lt(1) assms(2,3)] by simp
  have ab: "a * 256 + b < 256 * 256" using assms by linarith
  have "q div 2 ^ 24 mod 256 = a \<and> q div 2 ^ 16 mod 256 = b \<and> q div 2 ^ 8 mod 256 = c \<longleftrightarrow>
      q div 2 ^ 16 = a * 256 + b \<and> q div 2 ^ 8 mod 256 = c" using 1 by blast
  also have "\<dots> \<longleftrightarrow> q div 2 ^ 8 = (a * 256 + b) * 256 + c"
    unfolding d(2) using split_parts [OF lt(2) ab assms(4)] by simp
  finally show "q div 2 ^ 24 mod 256 = a \<and> q div 2 ^ 16 mod 256 = b \<and> q div 2 ^ 8 mod 256 = c \<longleftrightarrow>
      q div 2 ^ 8 = (a * 256 + b) * 256 + c" .
qed

lemma id_halves: "ucast (w AND 0xFFFF) = (v :: u16) \<and> ucast (drop_bit 16 w AND 0xFFFF) = (d :: u16) \<longleftrightarrow>
    (w :: u32) = push_bit 16 (ucast d) OR ucast v"
proof -
  have "w = push_bit 16 (ucast (ucast (drop_bit 16 w) :: u16)) OR ucast (ucast w :: u16)"
    by (rule bit_word_eqI) (auto simp: bit_simps)
  moreover have "ucast (push_bit 16 (ucast d) OR ucast v :: u32) = v" "ucast (drop_bit 16 (push_bit 16 (ucast d) OR ucast v :: u32)) = d"
    by (rule bit_word_eqI; auto simp: bit_simps dest: bit_imp_le_length)+
  ultimately show ?thesis unfolding low_half by metis
qed

lemma sig_match_class:
  assumes "use_class_matching sig"
  shows "sig_match type sig ident cls \<longleftrightarrow>
    unat cls div 2 ^ 24 mod 256 = unat (class_code sig) \<and> unat cls div 2 ^ 16 mod 256 = unat (sub_class sig) \<and>
    (type = Xhci \<longrightarrow> unat cls div 2 ^ 8 mod 256 = 0x30) \<and> (type = Ehci \<longrightarrow> unat cls div 2 ^ 8 mod 256 = 0x20)"
proof -
  have b: "(x :: u8) = y \<longleftrightarrow> unat x = unat y" for x y by (simp add: word_unat_eq_iff)
  show ?thesis using assms unfolding sig_match_def Let_def b byte_of by (simp split del: if_split) (simp; blast)
qed

lemma sig_match_kind:
  assumes "List.find (\<lambda>item. sig_type item = type) lookup_table = Some sig"
  shows "sig_match type sig ident cls \<longleftrightarrow> kind_match type ident cls"
proof -
  have c: "unat cls < 2 ^ 32" using unat_bound [of cls] by simp
  have eq: "(u :: u32) = v \<longleftrightarrow> unat u = unat v" for u v by (simp add: word_unat_eq_iff)
  note sig = assms [unfolded lookup_table_def]
  show ?thesis
  proof (cases type)
    case Xhci
    then have "use_class_matching sig" "class_code sig = 12" "sub_class sig = 3" using sig by auto
    then show ?thesis using class_bytes(2) [OF c, of 12 3 48] Xhci by (simp add: sig_match_class eq unat_drop)
  next
    case Ehci
    then have "use_class_matching sig" "class_code sig = 12" "sub_class sig = 3" using sig by auto
    then show ?thesis using class_bytes(2) [OF c, of 12 3 32] Ehci by (simp add: sig_match_class eq unat_drop)
  next
    case Ahci
    then have "use_class_matching sig" "class_code sig = 1" "sub_class sig = 6" using sig by auto
    then show ?thesis using class_bytes(1) [OF c, of 1 6 0] Ahci by (simp add: sig_match_class eq unat_drop)
  next
    case Nvme
    then have "use_class_matching sig" "class_code sig = 1" "sub_class sig = 8" using sig by auto
    then show ?thesis using class_bytes(1) [OF c, of 1 8 0] Nvme by (simp add: sig_match_class eq unat_drop)
  next
    case IntelE1000
    then have "\<not> use_class_matching sig" "sig_vendor sig = 0x8086" "sig_device sig = 0x100E" using sig by auto
    then show ?thesis using id_halves [of ident "0x8086" "0x100E"] IntelE1000 by (simp add: sig_match_def Let_def)
  qed
qed

lemma mask_split: "(ucast (w :: u32) :: u64) AND 0xFFFFFFF0 = ucast (w AND 0xFFFFFFF0)"
  by (rule bit_word_eqI) (auto simp: bit_simps dest: bit_imp_le_length)

lemma read_bar_quiet:
  assumes "quiet cfg w s"
  shows "\<exists>s'. read_bar b d f s =
    (bar_address (cfg (config_address b d f 0x10)) (cfg (config_address b d f 0x14)), s') \<and> quiet cfg w s'"
proof -
  obtain s1 where s1: "readConfig b d f 0x10 s = (cfg (config_address b d f 0x10), s1)" "quiet cfg w s1"
    using readConfig_quiet [OF assms] by blast
  obtain s2 where s2: "readConfig b d f 0x14 s1 = (cfg (config_address b d f 0x14), s2)" "quiet cfg w s2"
    using readConfig_quiet [OF s1(2)] by blast
  show ?thesis using s1 s2 unfolding read_bar_def bit_tests bar_address_def mask_split by (simp del: One_nat_def)
qed

definition found_at :: "DeviceType \<Rightarrow> DeviceSignature \<Rightarrow> (u32 \<Rightarrow> u32) \<Rightarrow> pci_function \<Rightarrow> PciDevice option" where
  "found_at type sig cfg x =
     (if reg cfg x 0 AND 0xFFFF \<noteq> 0xFFFF \<and> sig_match type sig (reg cfg x 0) (reg cfg x 0x08)
      then Some (device_at cfg x) else None)"

lemma probe_quiet:
  assumes "quiet cfg w s"
  shows "\<exists>s'. probe type sig (of_nat b) (of_nat d) (of_nat f) s = (found_at type sig cfg (b, d, f), s') \<and> quiet cfg w s'"
proof -
  let ?b = "of_nat b :: u8" and ?d = "of_nat d :: u8" and ?f = "of_nat f :: u8"
  obtain s1 where s1: "readConfig ?b ?d ?f 0 s = (cfg (config_address ?b ?d ?f 0), s1)" "quiet cfg w s1"
    using readConfig_quiet [OF assms] by blast
  obtain s2 where s2: "readConfig ?b ?d ?f 8 s1 = (cfg (config_address ?b ?d ?f 8), s2)" "quiet cfg w s2"
    using readConfig_quiet [OF s1(2)] by blast
  obtain s3 where s3: "read_bar ?b ?d ?f s2 =
      (bar_address (cfg (config_address ?b ?d ?f 0x10)) (cfg (config_address ?b ?d ?f 0x14)), s3)" "quiet cfg w s3"
    using read_bar_quiet [OF s2(2)] by blast
  show ?thesis using s1 s2 s3 by (simp add: probe_def found_at_def reg_def device_at_def low_half)
qed

lemma probe_slot_quiet:
  assumes "quiet cfg w s"
  shows "\<exists>s'. probe_slot type sig (of_nat b) (of_nat d) s =
    (first_some (\<lambda>f. if present cfg (b, d, f) then found_at type sig cfg (b, d, f) else None) [0..<8], s') \<and> quiet cfg w s'"
proof -
  let ?b = "of_nat b :: u8" and ?d = "of_nat d :: u8"
  let ?present = "\<lambda>f. if present cfg (b, d, f) then found_at type sig cfg (b, d, f) else None"
  obtain s1 where s1: "readConfig ?b ?d 0 0 s = (reg cfg (b, d, 0) 0, s1)" "quiet cfg w s1"
    using readConfig_quiet [OF assms] by (fastforce simp: reg_def)
  obtain s2 where s2: "readConfig ?b ?d 0 0x0C s1 = (reg cfg (b, d, 0) 0x0C, s2)" "quiet cfg w s2"
    using readConfig_quiet [OF s1(2)] by (fastforce simp: reg_def)
  show ?thesis
  proof (cases "reg cfg (b, d, 0) 0 AND 0xFFFF = 0xFFFF")
    case True
    then have "first_some ?present fs = None" for fs by (induction fs) (simp_all add: present_def)
    then show ?thesis using s1 True by (simp add: probe_slot_def)
  next
    case False
    let ?multi = "bit (reg cfg (b, d, 0) 0x0C) 23"
    let ?body = "\<lambda>f s. if f > 0 \<and> \<not> ?multi then (None, s) else probe type sig ?b ?d (of_nat f) s"
    have "drop_bit 16 (reg cfg (b, d, 0) 0x0C) AND 0x80 \<noteq> 0 \<longleftrightarrow> ?multi"
      unfolding bit_tests by (simp add: bit_drop_bit_eq)
    then have "drop_bit 16 (reg cfg (b, d, 0) 0x0C) AND 0x80 = 0 \<longleftrightarrow> \<not> ?multi" by blast
    then have eq: "probe_slot type sig ?b ?d s = search 8 0 ?body s2"
      using s1 s2 False by (simp add: probe_slot_def)
    have "\<exists>s'. search 8 0 ?body s2 = (first_some ?present [0..<0 + 8], s') \<and> quiet cfg w s'"
    proof (rule search_first [where I = "quiet cfg w", OF s2(2)])
      fix f s assume s: "quiet cfg w s"
      obtain s' where s': "probe type sig ?b ?d (of_nat f) s = (found_at type sig cfg (b, d, f), s')" "quiet cfg w s'"
        using probe_quiet [OF s] by blast
      show "\<exists>s'. ?body f s = (?present f, s') \<and> quiet cfg w s'"
      proof (cases "f > 0 \<and> \<not> ?multi")
        case True
        then show ?thesis using s by (auto simp: present_def)
      next
        case mf: False
        then have "?present f = found_at type sig cfg (b, d, f)" using False by (auto simp: present_def found_at_def)
        then show ?thesis using s' mf by auto
      qed
    qed
    then show ?thesis using eq by simp
  qed
qed

lemma find_quiet:
  assumes q: "quiet cfg w s" and sig: "List.find (\<lambda>item. sig_type item = type) lookup_table = Some sig"
  shows "\<exists>s'. findPciDevice type s = (map_option (device_at cfg) (List.find (pci_match type cfg) all_functions), s') \<and> quiet cfg w s'"
proof -
  let ?P = "\<lambda>b d f. if present cfg (b, d, f) then found_at type sig cfg (b, d, f) else None"
  have slots: "\<exists>s'. search 32 0 (\<lambda>d. probe_slot type sig (of_nat b) (of_nat d)) s =
      (first_some (\<lambda>d. first_some (?P b d) [0..<8]) [0..<0 + 32], s') \<and> quiet cfg w s'" if "quiet cfg w s" for b s
    by (rule search_first [where I = "quiet cfg w", OF that]) (rule probe_slot_quiet)
  have "\<exists>s'. search 256 0 (\<lambda>b. search 32 0 (\<lambda>d. probe_slot type sig (of_nat b) (of_nat d))) s =
      (first_some (\<lambda>b. first_some (\<lambda>d. first_some (?P b d) [0..<8]) [0..<0 + 32]) [0..<0 + 256], s') \<and> quiet cfg w s'"
    by (rule search_first [where I = "quiet cfg w", OF q]) (rule slots)
  moreover have "?P b d f = (if pci_match type cfg (b, d, f) then Some (device_at cfg (b, d, f)) else None)" for b d f
    by (auto simp: pci_match_def found_at_def present_def sig_match_kind [OF sig])
  then have "first_some (\<lambda>b. first_some (\<lambda>d. first_some (?P b d) [0..<8]) [0..<0 + 32]) [0..<0 + 256] =
      first_some (\<lambda>x. if pci_match type cfg x then Some (device_at cfg x) else None) all_functions"
    unfolding all_functions_def first_some_concat first_some_map by simp
  ultimately show ?thesis using sig by (simp add: findPciDevice_def first_some_find)
qed

lemma sig_exists: "\<exists>sig. List.find (\<lambda>item. sig_type item = type) lookup_table = Some sig"
  by (cases type) (simp_all add: lookup_table_def)

section \<open>Properties\<close>

text \<open>
  C31: on a bus that answers configuration reads, \<^verbatim>\<open>findPciDevice\<close> returns the first function, in the order
  of bus, device and function number, that is present and of the requested kind, with its
  identification and the address in its base register; it fails exactly when there is none, and
  it only talks to the configuration ports.
\<close>

theorem findPciDevice_first_match:
  assumes "config_mechanism (device s) cfg"
  shows "fst (findPciDevice type s) = map_option (device_at cfg) (List.find (pci_match type cfg) all_functions) \<and>
    hw.more (snd (findPciDevice type s)) = hw.more s"
proof -
  obtain sig where "List.find (\<lambda>item. sig_type item = type) lookup_table = Some sig" using sig_exists by blast
  moreover have "quiet cfg (hw.more s) s" using assms by (simp add: quiet_def)
  ultimately show ?thesis using find_quiet [of cfg "hw.more s" s type sig] by (auto simp: quiet_def)
qed

text \<open>A bus with an xHCI controller as function 0 of device 0 and nothing else.\<close>

definition demo_bus :: "u32 \<Rightarrow> u32" where
  "demo_bus a = (if a = 0x80000000 then 0x1234ABCD else if a = 0x80000008 then 0x0C033000
     else if a = 0x80000010 then 0xFEBF0004 else if a = 0x80000014 then 1 else if a = 0x8000000C then 0 else 0xFFFFFFFF)"

definition demo_pci :: hw where
  "demo_pci = \<lparr>device = (\<lambda>log e. case log of Out32 p a # _ \<Rightarrow> ucast (demo_bus a) | _ \<Rightarrow> 0), io_log = []\<rparr>"

theorem findPciDevice_first_match_witness:
  "fst (findPciDevice Xhci demo_pci) =
     Some \<lparr>bus = 0, slot = 0, func = 0, mmio_base = 0x1FEBF0000, vendor_id = 0xABCD, device_id = 0x1234\<rparr>"
proof -
  have "config_mechanism (device demo_pci) demo_bus" by (simp add: config_mechanism_def demo_pci_def)
  moreover have "pci_match Xhci demo_bus (0, 0, 0)"
    by (simp add: pci_match_def present_def reg_def config_address_def demo_bus_def)
  moreover have u: "[0..<n] = 0 # [Suc 0..<n]" if "0 < n" for n :: nat using that by (rule upt_conv_Cons)
  have "\<exists>fs. all_functions = (0, 0, 0) # fs"
    unfolding all_functions_def
    by (subst (1 2 3) u) (simp_all only: zero_less_numeral list.map concat.simps append_Cons list.inject simp_thms)
  then have "List.find (pci_match Xhci demo_bus) all_functions = Some (0, 0, 0)"
    using \<open>pci_match Xhci demo_bus (0, 0, 0)\<close> by (metis find.simps(2))
  moreover have "device_at demo_bus (0, 0, 0) =
      \<lparr>bus = 0, slot = 0, func = 0, mmio_base = 0x1FEBF0000, vendor_id = 0xABCD, device_id = 0x1234\<rparr>"
    by (simp add: device_at_def reg_def config_address_def demo_bus_def bar_address_def)
  ultimately show ?thesis using findPciDevice_first_match [of demo_pci demo_bus Xhci] by simp
qed

end
