(* ===== verification/Pmm.thy ===== *)
theory Pmm
  imports Multiboot
begin

text \<open>
  The physical page allocator, \<^verbatim>\<open>src/kernel/memory/pmm.c\<close>: a bitmap placed right after the
  kernel image, one bit per 4 KB page, 1 for used. \<^verbatim>\<open>pmm_init\<close> scans the boot memory map;
  \<^verbatim>\<open>pmm_alloc_page\<close> searches the bitmap 64 bits at a time from a hint; the region functions
  set and clear bits bytewise. Both views go through the same memory here.

  \<open>pmm_used\<close> is bit \<open>b\<close> of the bitmap, \<open>free_pages\<close> the set of free page numbers, and
  \<open>pmm_ok\<close> the invariant. The interface the paging code relies on is the locale
  \<open>page_source\<close>, interpreted here on the allocator.
\<close>

section \<open>State and bit operations\<close>

record pmm =
  pmm_bitmap :: u64
  pmm_max_blocks :: u64
  pmm_bitmap_size :: u64
  pmm_hint_word :: u64

abbreviation PAGE_SIZE :: u64 where "PAGE_SIZE \<equiv> 4096"

definition pmm_set_bit :: "pmm \<Rightarrow> u64 \<Rightarrow> mem \<Rightarrow> mem" where
  "pmm_set_bit p bt m =
     (let a = pmm_bitmap p + bt div 8 in m(a := m a OR push_bit (unat (bt mod 8)) 1))"

definition pmm_clear_bit :: "pmm \<Rightarrow> u64 \<Rightarrow> mem \<Rightarrow> mem" where
  "pmm_clear_bit p bt m =
     (let a = pmm_bitmap p + bt div 8 in m(a := m a AND NOT (push_bit (unat (bt mod 8)) 1)))"

definition pmm_test_bit :: "pmm \<Rightarrow> u64 \<Rightarrow> mem \<Rightarrow> bool" where
  "pmm_test_bit p bt m \<longleftrightarrow> m (pmm_bitmap p + bt div 8) AND push_bit (unat (bt mod 8)) 1 \<noteq> 0"

definition align_down :: "u64 \<Rightarrow> u64" where
  "align_down x = x AND NOT (PAGE_SIZE - 1)"

definition align_up :: "u64 \<Rightarrow> u64" where
  "align_up x = (x + PAGE_SIZE - 1) AND NOT (PAGE_SIZE - 1)"

section \<open>Regions\<close>

text \<open>The loop of both region functions, with \<open>f\<close> the bit operation.\<close>

definition region_loop :: "(pmm \<Rightarrow> u64 \<Rightarrow> mem \<Rightarrow> mem) \<Rightarrow> pmm \<Rightarrow> u64 \<Rightarrow> u64 \<Rightarrow> mem \<Rightarrow> mem" where
  "region_loop f p first count m =
     after_break (for_ctl 0 count (\<lambda>i m.
       let bt = first + i
       in if bt \<ge> pmm_max_blocks p then Return m else Next (f p bt m)) m)"

definition pmm_init_region :: "pmm \<Rightarrow> u64 \<Rightarrow> u64 \<Rightarrow> mem \<Rightarrow> mem" where
  "pmm_init_region p base sz m =
     (let start = align_up base; endp = align_down (base + sz)
      in if start \<ge> endp then m
         else region_loop pmm_clear_bit p (start div PAGE_SIZE) ((endp - start) div PAGE_SIZE) m)"

definition pmm_deinit_region :: "pmm \<Rightarrow> u64 \<Rightarrow> u64 \<Rightarrow> mem \<Rightarrow> mem" where
  "pmm_deinit_region p base sz m =
     (let start = align_down base; endp = align_up (base + sz)
      in if start \<ge> endp then m
         else region_loop pmm_set_bit p (start div PAGE_SIZE) ((endp - start) div PAGE_SIZE) m)"

section \<open>Initialisation\<close>

text \<open>
  The first error returns after printing a message; the other two print and halt the
  machine with interrupts off.
\<close>

datatype pmm_error = NoMemoryMap | CorruptEntry | RegionOverflow

partial_function (option) mmap_scan ::
    "mem \<Rightarrow> u32 \<Rightarrow> u64 \<Rightarrow> u64 \<Rightarrow> (pmm_error + u64) option" where
  "mmap_scan m mmap_end_addr mmap max_memory_addr =
     (if ucast mmap < mmap_end_addr then
        if mmap_size m mmap < 20 \<or> ucast mmap + mmap_size m mmap + 4 > mmap_end_addr
        then Some (Inl CorruptEntry)
        else if mmap_type m mmap = 1 then
          if mmap_entry_addr m mmap > mmap_entry_addr m mmap + mmap_len m mmap
          then Some (Inl RegionOverflow)
          else mmap_scan m mmap_end_addr (mmap_next m mmap)
                 (if mmap_entry_addr m mmap + mmap_len m mmap > max_memory_addr
                  then mmap_entry_addr m mmap + mmap_len m mmap else max_memory_addr)
        else mmap_scan m mmap_end_addr (mmap_next m mmap) max_memory_addr
      else Some (Inr max_memory_addr))"

partial_function (option) mmap_release :: "pmm \<Rightarrow> u64 \<Rightarrow> u64 \<Rightarrow> mem \<Rightarrow> mem option" where
  "mmap_release p mmap_end mmap m =
     (if ucast (ucast mmap :: u32) < mmap_end then
        let m' = (if mmap_type m mmap = 1
                  then pmm_init_region p (mmap_entry_addr m mmap) (mmap_len m mmap) m else m)
        in mmap_release p mmap_end (mmap_next m' mmap) m'
      else Some m)"

text \<open>The last bitmap word: bits past the last page are marked used.\<close>

definition seal_tail :: "pmm \<Rightarrow> mem \<Rightarrow> mem" where
  "seal_tail p m =
     (if pmm_max_blocks p > 0 then
        let last_word = (pmm_max_blocks p - 1) div 64;
            last_bit = (pmm_max_blocks p - 1) mod 64;
            a = pmm_bitmap p + 8 * last_word
        in if last_bit < 63
           then let keep = push_bit (unat (last_bit + 1)) 1 - 1
                in wr64 m a (rd64 m a OR NOT keep)
           else m
      else m)"

definition pmm_setup :: "u64 \<Rightarrow> u64 \<Rightarrow> pmm" where
  "pmm_setup max_memory_addr kernel_end_phys =
     (let blocks = align_down max_memory_addr div PAGE_SIZE;
          sz = (blocks + 7) div 8
      in \<lparr>pmm_bitmap = kernel_end_phys, pmm_max_blocks = blocks,
          pmm_bitmap_size = (sz + PAGE_SIZE - 1) AND NOT (PAGE_SIZE - 1),
          pmm_hint_word = 0\<rparr>)"

text \<open>Everything after the bitmap is placed: \<open>mbd\<close> is the address of the boot structure.\<close>

definition pmm_populate :: "multiboot_info \<Rightarrow> u64 \<Rightarrow> pmm \<Rightarrow> mem \<Rightarrow> mem option" where
  "pmm_populate info mbd p m =
     (let mmap_start = ucast (mmap_addr info);
          mmap_end = ucast (mmap_addr info + mmap_length info) :: u64;
          m = memset m (pmm_bitmap p) 0xFF (pmm_bitmap_size p);
          pmm_end_phys = pmm_bitmap p + pmm_bitmap_size p
      in map_option (\<lambda>m.
           let m = pmm_deinit_region p 0 (1024 * 1024) m;
               m = pmm_deinit_region p 0x100000 (pmm_end_phys - 0x100000) m;
               m = pmm_deinit_region p mbd sizeof_multiboot_info m;
               m = pmm_deinit_region p mmap_start (mmap_end - mmap_start) m
           in seal_tail p m) (mmap_release p mmap_end mmap_start m))"

definition pmm_init ::
    "multiboot_info \<Rightarrow> u64 \<Rightarrow> u64 \<Rightarrow> mem \<Rightarrow> (pmm_error + pmm \<times> mem) option" where
  "pmm_init info mbd kernel_end_phys m =
     (if flags info AND MULTIBOOT_INFO_MEM_MAP = 0 then Some (Inl NoMemoryMap)
      else
        case mmap_scan m (mmap_addr info + mmap_length info) (ucast (mmap_addr info)) 0 of
          None \<Rightarrow> None
        | Some (Inl e) \<Rightarrow> Some (Inl e)
        | Some (Inr max_memory_addr) \<Rightarrow>
            (let p = pmm_setup max_memory_addr kernel_end_phys
             in map_option (\<lambda>m'. Inr (p, m')) (pmm_populate info mbd p m)))"

section \<open>Allocation\<close>

text \<open>\<^verbatim>\<open>__builtin_ctzll\<close>: the number of zero bits below the lowest one bit.\<close>

definition ctz :: "u64 \<Rightarrow> nat" where
  "ctz w = length (takeWhile (\<lambda>i. \<not> bit w i) [0..<64])"

definition pmm_try_word :: "pmm \<Rightarrow> mem \<Rightarrow> u64 \<Rightarrow> (unit, u64 \<times> pmm \<times> mem) ctl" where
  "pmm_try_word p m w =
     (let a = pmm_bitmap p + 8 * w; word = rd64 m a
      in if word = NOT 0 then Next ()
         else
           let bt = ctz (NOT word);
               global_bit = push_bit 6 w + of_nat bt
           in Return (global_bit * PAGE_SIZE, p\<lparr>pmm_hint_word := w\<rparr>,
                wr64 m a (word OR push_bit bt 1)))"

definition pmm_alloc_page :: "pmm \<times> mem \<Rightarrow> u64 \<times> pmm \<times> mem" where
  "pmm_alloc_page s =
     (case s of (p, m) \<Rightarrow>
        if pmm_max_blocks p = 0 then (0, p, m)
        else
          let words = (pmm_max_blocks p + 63) div 64
          in case for_ctl (pmm_hint_word p) words (\<lambda>w _. pmm_try_word p m w) () of
               Return r \<Rightarrow> r
             | Next _ \<Rightarrow>
                 (case for_ctl 0 (pmm_hint_word p) (\<lambda>w _. pmm_try_word p m w) () of
                    Return r \<Rightarrow> r
                  | Next _ \<Rightarrow> (0, p, m)))"

definition pmm_free_page :: "u64 \<Rightarrow> pmm \<times> mem \<Rightarrow> pmm \<times> mem" where
  "pmm_free_page page_phys s =
     (case s of (p, m) \<Rightarrow>
        let global_bit = page_phys div PAGE_SIZE
        in if global_bit < pmm_max_blocks p
           then let word = global_bit div 64
                in (if word < pmm_hint_word p then p\<lparr>pmm_hint_word := word\<rparr> else p,
                    pmm_clear_bit p global_bit m)
           else (p, m))"

section \<open>The bitmap as a set of pages\<close>

definition pmm_used :: "pmm \<Rightarrow> mem \<Rightarrow> nat \<Rightarrow> bool" where
  "pmm_used p m b \<longleftrightarrow> bit (m (pmm_bitmap p + of_nat (b div 8))) (b mod 8)"

definition free_pages :: "pmm \<times> mem \<Rightarrow> nat set" where
  "free_pages s = {b. b < unat (pmm_max_blocks (fst s)) \<and> \<not> pmm_used (fst s) (snd s) b}"

definition bitmap_words :: "pmm \<Rightarrow> nat" where
  "bitmap_words p = (unat (pmm_max_blocks p) + 63) div 64"

text \<open>
  The invariant: physical addresses stay below the 52 bits a page table entry can hold, the
  hint is a word of the bitmap or just past it, the bits past the last page are set, and
  page 0 is never free (its address is the null pointer).
\<close>

definition pmm_ok :: "pmm \<times> mem \<Rightarrow> bool" where
  "pmm_ok s \<longleftrightarrow>
     (let p = fst s; m = snd s
      in unat (pmm_max_blocks p) \<le> 2 ^ 40 \<and>
         unat (pmm_hint_word p) \<le> bitmap_words p \<and>
         (\<forall>b < 64 * bitmap_words p. unat (pmm_max_blocks p) \<le> b \<longrightarrow> pmm_used p m b) \<and>
         (0 < unat (pmm_max_blocks p) \<longrightarrow> pmm_used p m 0))"

text \<open>The bytes the bitmap occupies.\<close>

definition bitmap_region :: "pmm \<Rightarrow> u64 set" where
  "bitmap_region p = region (pmm_bitmap p) (8 * bitmap_words p)"

lemma byte_addr_eq:
  "b < 2 ^ 64 \<Longrightarrow> c < 2 ^ 64 \<Longrightarrow>
     a + of_nat (b div 8) = a + of_nat (c div 8) \<longleftrightarrow> b div 8 = c div 8" for a :: u64
  by (rule add_of_nat_inject) auto

lemma div_mod_8_eq: "b = c \<longleftrightarrow> b div 8 = c div 8 \<and> b mod 8 = c mod 8" for b c :: nat
  by (metis div_mult_mod_eq)

lemma word_div_8: "bt div 8 = (of_nat (unat bt div 8) :: u64)"
  by (simp add: word_arith_nat_div)

lemma used_set_bit:
  assumes "b < 2 ^ 64"
  shows "pmm_used p (pmm_set_bit p bt m) b \<longleftrightarrow> b = unat bt \<or> pmm_used p m b"
proof -
  have "unat bt < 2 ^ 64" using unat_bound [of bt] by simp
  then have "pmm_bitmap p + of_nat (b div 8) = pmm_bitmap p + of_nat (unat bt div 8) \<longleftrightarrow>
      b div 8 = unat bt div 8"
    using assms by (simp only: byte_addr_eq)
  then show ?thesis
    by (auto simp: pmm_used_def pmm_set_bit_def Let_def word_div_8 bit_or_iff bit_push_one
        unat_mod div_mod_8_eq [of b] simp del: push_bit_of_1)
qed

lemma used_clear_bit:
  assumes "b < 2 ^ 64"
  shows "pmm_used p (pmm_clear_bit p bt m) b \<longleftrightarrow> b \<noteq> unat bt \<and> pmm_used p m b"
proof -
  have "unat bt < 2 ^ 64" using unat_bound [of bt] by simp
  then have "pmm_bitmap p + of_nat (b div 8) = pmm_bitmap p + of_nat (unat bt div 8) \<longleftrightarrow>
      b div 8 = unat bt div 8"
    using assms by (simp only: byte_addr_eq)
  then show ?thesis
    by (auto simp: pmm_used_def pmm_clear_bit_def Let_def word_div_8 bit_and_iff bit_not_iff
        bit_push_one unat_mod div_mod_8_eq [of b] dest: bit_imp_le_length simp del: push_bit_of_1)
qed

lemma test_bit_used: "pmm_test_bit p bt m \<longleftrightarrow> pmm_used p m (unat bt)"
proof -
  have "m (pmm_bitmap p + bt div 8) AND push_bit (unat (bt mod 8)) 1 \<noteq> 0 \<longleftrightarrow>
      bit (m (pmm_bitmap p + bt div 8)) (unat (bt mod 8))"
    by (simp add: bit_iff_and_push_bit_not_eq_0)
  then show ?thesis
    by (simp add: pmm_test_bit_def pmm_used_def word_div_8 unat_mod)
qed

text \<open>The 64-bit view of the allocator and the bytewise view of the bit operations agree.\<close>

lemma word_bit_index: "(64 * w + i) div 8 = 8 * w + i div 8" "(64 * w + i) mod 8 = i mod 8"
  for w i :: nat
proof -
  have e: "64 * w + i = i + 8 * (8 * w)" by simp
  show "(64 * w + i) div 8 = 8 * w + i div 8" unfolding e by simp
  show "(64 * w + i) mod 8 = i mod 8" unfolding e by (rule mod_mult_self2)
qed

lemma bit_bitmap_word:
  "bit (rd64 m (pmm_bitmap p + 8 * w)) i \<longleftrightarrow> i < 64 \<and> pmm_used p m (64 * unat w + i)"
  by (auto simp: bit_rd64 pmm_used_def word_bit_index add.assoc)

lemma used_wr64:
  assumes w: "unat w < 2 ^ 58" and b: "b < 2 ^ 64"
  shows "pmm_used p (wr64 m (pmm_bitmap p + 8 * w) v) b \<longleftrightarrow>
     (if b div 64 = unat w then bit v (b mod 64) else pmm_used p m b)"
proof (cases "b div 64 = unat w")
  case True
  have "b = 64 * unat w + b mod 64" using True by (metis div_mult_mod_eq mult.commute)
  then have "pmm_used p (wr64 m (pmm_bitmap p + 8 * w) v) b \<longleftrightarrow>
      bit (rd64 (wr64 m (pmm_bitmap p + 8 * w) v) (pmm_bitmap p + 8 * w)) (b mod 64)"
    using bit_bitmap_word [of "wr64 m (pmm_bitmap p + 8 * w) v" p w "b mod 64"] by simp
  then show ?thesis using True by (simp add: rd64_wr64)
next
  case False
  have ne: "b div 8 \<noteq> 8 * unat w + i" if "i < 8" for i
  proof
    assume "b div 8 = 8 * unat w + i"
    then have "b div 8 div 8 = unat w" using that by simp
    then show False using False by (simp add: div_mult2_eq [symmetric])
  qed
  have "pmm_bitmap p + of_nat (b div 8) \<notin> region (pmm_bitmap p + 8 * w) 8"
  proof
    assume "pmm_bitmap p + of_nat (b div 8) \<in> region (pmm_bitmap p + 8 * w) 8"
    then obtain i where i: "i < 8"
      "pmm_bitmap p + of_nat (b div 8) = pmm_bitmap p + 8 * w + of_nat i"
      using region_nth by blast
    have "8 * w + of_nat i = (of_nat (8 * unat w + i) :: u64)" by simp
    then have "pmm_bitmap p + of_nat (b div 8) = pmm_bitmap p + of_nat (8 * unat w + i)"
      using i by (simp add: add.assoc)
    moreover have "b div 8 < 2 ^ LENGTH(64)" "8 * unat w + i < 2 ^ LENGTH(64)"
      using w b i(1) by auto
    ultimately have "b div 8 = 8 * unat w + i" using add_of_nat_inject by blast
    then show False using ne [OF i(1)] by simp
  qed
  then show ?thesis using False by (simp add: pmm_used_def wr64_outside)
qed

lemma ctz_bit:
  assumes "w \<noteq> 0"
  shows "ctz w < 64" "bit w (ctz w)" "\<And>i. i < ctz w \<Longrightarrow> \<not> bit w i"
proof -
  have "\<exists>k < 64. bit w k"
  proof (rule ccontr)
    assume "\<not> (\<exists>k < 64. bit w k)"
    then have "w = 0" by (intro bit_word_eqI) auto
    then show False using assms by simp
  qed
  then obtain k where "bit w k" "k < 64" by blast
  then have "takeWhile (\<lambda>i. \<not> bit w i) [0..<64] \<noteq> [0..<64]"
    by (auto simp: takeWhile_eq_all_conv)
  then have "ctz w \<noteq> 64"
    using takeWhile_eq_take [of "\<lambda>i. \<not> bit w i" "[0..<64]"] by (auto simp: ctz_def)
  moreover have "ctz w \<le> 64"
    using length_takeWhile_le [of "\<lambda>i. \<not> bit w i" "[0..<64]"] by (simp add: ctz_def)
  ultimately have lt: "ctz w < length [0..<64]" by simp
  then show "ctz w < 64" by simp
  have "\<not> (\<not> bit w ([0..<64] ! ctz w))"
    using nth_length_takeWhile [of "\<lambda>i. \<not> bit w i" "[0..<64]"] lt by (simp add: ctz_def)
  then show "bit w (ctz w)" using lt by simp
  show "\<not> bit w i" if "i < ctz w" for i
  proof -
    have "takeWhile (\<lambda>i. \<not> bit w i) [0..<64] ! i = i"
      using that lt by (subst takeWhile_nth) (simp_all add: ctz_def)
    then show ?thesis using set_takeWhileD that by (metis ctz_def nth_mem)
  qed
qed

section \<open>Allocating a page\<close>

lemma used_hint [simp]: "pmm_used (p\<lparr>pmm_hint_word := h\<rparr>) m b = pmm_used p m b"
  by (simp add: pmm_used_def)

lemma bitmap_words_hint [simp]: "bitmap_words (p\<lparr>pmm_hint_word := h\<rparr>) = bitmap_words p"
  by (simp add: bitmap_words_def)

lemma try_word_Next:
  "pmm_try_word p m w = Next u \<longleftrightarrow> (\<forall>i < 64. pmm_used p m (64 * unat w + i))"
proof -
  have "rd64 m (pmm_bitmap p + 8 * w) = NOT 0 \<longleftrightarrow> (\<forall>i < 64. pmm_used p m (64 * unat w + i))"
    using bit_bitmap_word [of m p w] by (auto simp: bit_eq_iff bit_not_iff)
  then show ?thesis by (auto simp: pmm_try_word_def Let_def)
qed

text \<open>What taking page \<open>b\<close> out of bitmap word \<open>w\<close> does to the allocator.\<close>

definition takes_page :: "pmm \<Rightarrow> mem \<Rightarrow> u64 \<Rightarrow> nat \<Rightarrow> u64 \<times> pmm \<times> mem \<Rightarrow> bool" where
  "takes_page p m w b r \<longleftrightarrow>
     (case r of (a, p', m') \<Rightarrow>
        b div 64 = unat w \<and> \<not> pmm_used p m b \<and> a = of_nat (b * 4096) \<and>
        p' = p\<lparr>pmm_hint_word := w\<rparr> \<and>
        (\<forall>c < 2 ^ 64. pmm_used p m' c \<longleftrightarrow> c = b \<or> pmm_used p m c) \<and>
        (\<forall>x. x \<notin> region (pmm_bitmap p + 8 * w) 8 \<longrightarrow> m' x = m x))"

lemma try_word_Return:
  assumes w: "unat w < 2 ^ 58" and r: "pmm_try_word p m w = Return r"
  shows "\<exists>b. takes_page p m w b r"
proof -
  let ?a = "pmm_bitmap p + 8 * w"
  let ?word = "rd64 m ?a"
  let ?k = "ctz (NOT ?word)"
  let ?b = "64 * unat w + ?k"
  have ne: "?word \<noteq> NOT 0"
    and rr: "r = ((push_bit 6 w + of_nat ?k) * 4096, p\<lparr>pmm_hint_word := w\<rparr>,
                  wr64 m ?a (?word OR push_bit ?k 1))"
    using r by (simp_all add: pmm_try_word_def Let_def split: if_splits)
  have nz: "NOT ?word \<noteq> 0" using ne by (metis bit.double_compl)
  have k: "?k < 64" "bit (NOT ?word) ?k" using ctz_bit [OF nz] by auto
  have free: "\<not> pmm_used p m ?b"
    using k bit_bitmap_word [of m p w ?k] by (simp add: bit_not_iff)
  have "push_bit 6 w + of_nat ?k = of_nat ?b"
    by (simp add: push_bit_eq_mult)
  then have addr: "(push_bit 6 w + of_nat ?k) * 4096 = of_nat (?b * 4096)"
    by simp
  have "pmm_used p (wr64 m ?a (?word OR push_bit ?k 1)) c \<longleftrightarrow> c = ?b \<or> pmm_used p m c"
    if "c < 2 ^ 64" for c
  proof (cases "c div 64 = unat w")
    case True
    then have c: "c = 64 * unat w + c mod 64" by (metis div_mult_mod_eq mult.commute)
    have "pmm_used p (wr64 m ?a (?word OR push_bit ?k 1)) c \<longleftrightarrow>
        bit ?word (c mod 64) \<or> c mod 64 = ?k"
      using used_wr64 [OF w that] True k
      by (auto simp: bit_or_iff bit_push_one simp del: push_bit_of_1)
    also have "bit ?word (c mod 64) \<longleftrightarrow> pmm_used p m c"
      using bit_bitmap_word [of m p w "c mod 64"] c by simp
    also have "c mod 64 = ?k \<longleftrightarrow> c = ?b" using c k by auto
    finally show ?thesis by blast
  next
    case False
    then have "c \<noteq> ?b" using k by auto
    then show ?thesis using used_wr64 [OF w that] False by simp
  qed
  then have "takes_page p m w ?b r"
    unfolding takes_page_def rr addr using k free by (auto simp: wr64_outside)
  then show ?thesis by blast
qed

lemma unat_bitmap_words:
  assumes "unat (pmm_max_blocks p) \<le> 2 ^ 40"
  shows "unat ((pmm_max_blocks p + 63) div 64) = bitmap_words p"
proof -
  have "unat (pmm_max_blocks p + 63) = unat (pmm_max_blocks p) + 63"
    using assms by (subst unat_add_lem [THEN iffD1]) simp_all
  then show ?thesis by (simp add: unat_div bitmap_words_def)
qed

text \<open>One pass of the search: words from \<open>i\<close> up to \<open>n\<close> are full, or a page is taken.\<close>

lemma alloc_pass:
  assumes "i \<le> n" "unat n < 2 ^ 58"
  shows "case for_ctl i n (\<lambda>w _. pmm_try_word p m w) () of
      Next _ \<Rightarrow> \<forall>b. unat i \<le> b div 64 \<and> b div 64 < unat n \<longrightarrow> pmm_used p m b
    | Return r \<Rightarrow> \<exists>w b. i \<le> w \<and> w < n \<and> takes_page p m w b r"
proof -
  let ?P = "\<lambda>j (_::unit). \<forall>b. unat i \<le> b div 64 \<and> b div 64 < unat j \<longrightarrow> pmm_used p m b"
  let ?Q = "\<lambda>r. \<exists>w b. i \<le> w \<and> w < n \<and> takes_page p m w b r"
  have "case for_ctl i n (\<lambda>w _. pmm_try_word p m w) () of Next u \<Rightarrow> ?P n u | Return r \<Rightarrow> ?Q r"
  proof (rule for_ctl_inv)
    fix j t t' assume j: "j < n" and P: "?P j t" and nx: "pmm_try_word p m j = Next t'"
    show "?P (j + 1) t'"
    proof (intro allI impI)
      fix b assume b: "unat i \<le> b div 64 \<and> b div 64 < unat (j + 1)"
      show "pmm_used p m b"
      proof (cases "b div 64 = unat j")
        case True
        then have "b = 64 * unat j + b mod 64" by (metis div_mult_mod_eq mult.commute)
        then show ?thesis using nx try_word_Next [of p m j t']
          by (metis mod_less_divisor zero_less_numeral)
      next
        case False
        then show ?thesis using b P unat_Suc_less [OF j] by auto
      qed
    qed
  next
    fix j t r assume "i \<le> j" "j < n" and r: "pmm_try_word p m j = Return r"
    then have "unat j < 2 ^ 58" using assms(2) by (simp add: word_less_nat_alt)
    then show "?Q r" using try_word_Return [OF _ r] \<open>i \<le> j\<close> \<open>j < n\<close> by blast
  qed (use assms in auto)
  then show ?thesis .
qed

lemma pmm_alloc_cases:
  assumes ok: "pmm_ok (p, m)"
  shows "(free_pages (p, m) = {} \<and> pmm_alloc_page (p, m) = (0, p, m)) \<or>
    (\<exists>w b. b \<in> free_pages (p, m) \<and> unat w < bitmap_words p \<and>
       takes_page p m w b (pmm_alloc_page (p, m)))"
proof (cases "pmm_max_blocks p = 0")
  case True
  then show ?thesis by (simp add: pmm_alloc_page_def free_pages_def)
next
  case False
  let ?words = "(pmm_max_blocks p + 63) div 64" and ?hint = "pmm_hint_word p"
  have max: "unat (pmm_max_blocks p) \<le> 2 ^ 40" using ok by (simp add: pmm_ok_def Let_def)
  have words: "unat ?words = bitmap_words p" by (rule unat_bitmap_words [OF max])
  have hint: "?hint \<le> ?words" using ok words by (simp add: pmm_ok_def Let_def word_le_nat_alt)
  have small: "bitmap_words p < 2 ^ 58" using max by (simp add: bitmap_words_def)
  have tail: "pmm_used p m b" if "b < 64 * bitmap_words p" "unat (pmm_max_blocks p) \<le> b" for b
    using ok that by (simp add: pmm_ok_def Let_def)
  have in_free: "b \<in> free_pages (p, m)" if "takes_page p m w b r" "w < ?words" for w b r
  proof -
    have "b div 64 < bitmap_words p" "\<not> pmm_used p m b"
      using that words by (auto simp: takes_page_def word_less_nat_alt)
    then show ?thesis using tail [of b] by (force simp: free_pages_def)
  qed
  have pass1: "case for_ctl ?hint ?words (\<lambda>w _. pmm_try_word p m w) () of
      Next _ \<Rightarrow> \<forall>b. unat ?hint \<le> b div 64 \<and> b div 64 < unat ?words \<longrightarrow> pmm_used p m b
    | Return r \<Rightarrow> \<exists>w b. ?hint \<le> w \<and> w < ?words \<and> takes_page p m w b r"
    using hint small words by (intro alloc_pass) auto
  have pass2: "case for_ctl 0 ?hint (\<lambda>w _. pmm_try_word p m w) () of
      Next _ \<Rightarrow> \<forall>b. unat (0 :: u64) \<le> b div 64 \<and> b div 64 < unat ?hint \<longrightarrow> pmm_used p m b
    | Return r \<Rightarrow> \<exists>w b. 0 \<le> w \<and> w < ?hint \<and> takes_page p m w b r"
    using hint small words by (intro alloc_pass) (auto simp: word_le_nat_alt)
  show ?thesis
  proof (cases "for_ctl ?hint ?words (\<lambda>w _. pmm_try_word p m w) ()")
    case (Return r)
    then obtain w b where wb: "w < ?words" "takes_page p m w b r" using pass1 by auto
    have "pmm_alloc_page (p, m) = r" using False Return by (simp add: pmm_alloc_page_def)
    then show ?thesis using wb in_free [OF wb(2,1)] words by (auto simp: word_less_nat_alt)
  next
    case nx1: (Next u)
    show ?thesis
    proof (cases "for_ctl 0 ?hint (\<lambda>w _. pmm_try_word p m w) ()")
      case (Return r)
      then obtain w b where wb: "w < ?hint" "takes_page p m w b r" using pass2 by auto
      then have lt: "w < ?words" using hint by simp
      have "pmm_alloc_page (p, m) = r" using False nx1 Return by (simp add: pmm_alloc_page_def)
      then show ?thesis using wb in_free [OF wb(2) lt] lt words by (auto simp: word_less_nat_alt)
    next
      case (Next u')
      have "pmm_used p m b" if "b < unat (pmm_max_blocks p)" for b
      proof -
        have "b div 64 < unat ?words" using that words by (simp add: bitmap_words_def)
        then show ?thesis using pass1 pass2 nx1 Next by (cases "unat ?hint \<le> b div 64") auto
      qed
      moreover have "pmm_alloc_page (p, m) = (0, p, m)"
        using False nx1 Next by (simp add: pmm_alloc_page_def)
      ultimately show ?thesis by (simp add: free_pages_def)
    qed
  qed
qed

section \<open>The interface of the allocator\<close>

text \<open>A client's run of \<open>n\<close> allocations.\<close>

fun alloc_many :: "('s \<Rightarrow> u64 \<times> 's) \<Rightarrow> nat \<Rightarrow> 's \<Rightarrow> u64 list \<times> 's" where
  "alloc_many alloc 0 s = ([], s)"
| "alloc_many alloc (Suc n) s =
     (let (a, s1) = alloc s; (as, s2) = alloc_many alloc n s1 in (a # as, s2))"

text \<open>
  \<open>own\<close> is the memory the provider keeps its own records in: \<open>stable\<close> says that clients
  may write anywhere else. A page number \<open>b\<close> stands for the page at address \<open>4096 * b\<close>.
\<close>

locale page_source =
  fixes ok :: "'p \<times> mem \<Rightarrow> bool"
    and free_set :: "'p \<times> mem \<Rightarrow> nat set"
    and own :: "'p \<Rightarrow> u64 set"
    and limit :: "'p \<Rightarrow> nat"
    and alloc :: "'p \<times> mem \<Rightarrow> u64 \<times> 'p \<times> mem"
    and release :: "u64 \<Rightarrow> 'p \<times> mem \<Rightarrow> 'p \<times> mem"
  assumes alloc_none: "ok s \<Longrightarrow> free_set s = {} \<Longrightarrow> alloc s = (0, s)"
    and alloc_some: "ok s \<Longrightarrow> free_set s \<noteq> {} \<Longrightarrow> alloc s = (a, s') \<Longrightarrow>
      ok s' \<and> (\<exists>b \<in> free_set s. a = of_nat (b * 4096) \<and> free_set s' = free_set s - {b})"
    and alloc_frame: "ok s \<Longrightarrow> alloc s = (a, s') \<Longrightarrow>
      own (fst s') = own (fst s) \<and> limit (fst s') = limit (fst s) \<and>
      (\<forall>x. x \<notin> own (fst s) \<longrightarrow> snd s' x = snd s x)"
    and free_range: "ok s \<Longrightarrow> b \<in> free_set s \<Longrightarrow> 0 < b \<and> b < 2 ^ 40 \<and> b < limit (fst s)"
    and release_page: "ok s \<Longrightarrow> 0 < b \<Longrightarrow> b < limit (fst s) \<Longrightarrow>
      ok (release (of_nat (b * 4096)) s) \<and>
      free_set (release (of_nat (b * 4096)) s) = insert b (free_set s)"
    and stable: "ok (p, m) \<Longrightarrow> (\<And>x. x \<in> own p \<Longrightarrow> m x = m' x) \<Longrightarrow>
      ok (p, m') \<and> free_set (p, m') = free_set (p, m)"
begin

lemma page_addr_inject:
  "b < 2 ^ 40 \<Longrightarrow> c < 2 ^ 40 \<Longrightarrow> (of_nat (b * 4096) :: u64) = of_nat (c * 4096) \<longleftrightarrow> b = c"
  using add_of_nat_inject [of "b * 4096" "c * 4096" "0 :: u64"] by simp

lemma page_addr_nonzero: "0 < b \<Longrightarrow> b < 2 ^ 40 \<Longrightarrow> (of_nat (b * 4096) :: u64) \<noteq> 0"
  using page_addr_inject [of b 0] by simp

text \<open>A null result means that no page is free, and only that.\<close>

lemma alloc_null_iff: "ok s \<Longrightarrow> fst (alloc s) = 0 \<longleftrightarrow> free_set s = {}"
proof -
  assume ok: "ok s"
  obtain a s' where a: "alloc s = (a, s')" using prod.exhaust by blast
  show ?thesis
  proof (cases "free_set s = {}")
    case True
    then show ?thesis using alloc_none [OF ok] by simp
  next
    case False
    then obtain b where b: "b \<in> free_set s" "a = of_nat (b * 4096)"
      using alloc_some [OF ok False a] by blast
    have "a \<noteq> 0" unfolding b(2)
      using free_range [OF ok b(1)] by (intro page_addr_nonzero) simp_all
    then show ?thesis using a False by simp
  qed
qed

text \<open>Giving a page back right after taking it restores the free set.\<close>

lemma alloc_release:
  assumes ok: "ok s" and a: "alloc s = (a, s')" and nz: "a \<noteq> 0"
  shows "free_set (release a s') = free_set s"
proof -
  have ne: "free_set s \<noteq> {}" using alloc_null_iff [OF ok] a nz by simp
  obtain b where b: "b \<in> free_set s" "a = of_nat (b * 4096)" "free_set s' = free_set s - {b}"
    and ok': "ok s'"
    using alloc_some [OF ok ne a] by blast
  have "0 < b" "b < limit (fst s')"
    using free_range [OF ok b(1)] alloc_frame [OF ok a] by auto
  then show ?thesis using release_page [OF ok'] b by auto
qed

text \<open>Pages handed out in a row are distinct and come from the free set.\<close>

lemma alloc_many_distinct:
  assumes "ok s" "finite (free_set s)" "n \<le> card (free_set s)"
    and "alloc_many alloc n s = (as, s')"
  shows "\<exists>bs. as = map (\<lambda>b. of_nat (b * 4096)) bs \<and> length bs = n \<and> distinct bs \<and>
    set bs \<subseteq> free_set s \<and> free_set s' = free_set s - set bs \<and> ok s'"
  using assms
proof (induction n arbitrary: s as)
  case 0
  then show ?case by auto
next
  case (Suc n)
  obtain a s1 where a: "alloc s = (a, s1)" using prod.exhaust by blast
  obtain as1 where as1: "alloc_many alloc n s1 = (as1, s')" "as = a # as1"
    using Suc.prems(4) a by (auto split: prod.splits)
  have ne: "free_set s \<noteq> {}" using Suc.prems(3) by auto
  obtain b where b: "b \<in> free_set s" "a = of_nat (b * 4096)" "free_set s1 = free_set s - {b}"
    and ok1: "ok s1"
    using alloc_some [OF Suc.prems(1) ne a] by blast
  have "n \<le> card (free_set s1)" "finite (free_set s1)"
    using Suc.prems(2,3) b by (simp_all add: card_Diff_singleton)
  then obtain bs where bs: "as1 = map (\<lambda>b. of_nat (b * 4096)) bs" "length bs = n" "distinct bs"
    "set bs \<subseteq> free_set s1" "free_set s' = free_set s1 - set bs" "ok s'"
    using Suc.IH [OF ok1 _ _ as1(1)] by blast
  show ?case
    using bs b as1(2) by (intro exI [of _ "b # bs"]) auto
qed

end

section \<open>The bitmap allocator provides it\<close>

lemma pmm_ok_frame:
  assumes "\<And>x. x \<in> bitmap_region p \<Longrightarrow> m x = m' x" "pmm_ok (p, m)"
  shows "pmm_ok (p, m')" "free_pages (p, m') = free_pages (p, m)"
proof -
  have max: "unat (pmm_max_blocks p) \<le> 2 ^ 40"
    using assms(2) by (simp add: pmm_ok_def Let_def)
  have used: "pmm_used p m' b = pmm_used p m b" if "b < 64 * bitmap_words p" for b
  proof -
    have "b div 8 < 8 * bitmap_words p" using that by auto
    moreover have "b div 8 < 2 ^ 64" using that max by (simp add: bitmap_words_def)
    ultimately have "pmm_bitmap p + of_nat (b div 8) \<in> bitmap_region p"
      unfolding bitmap_region_def by (rule in_region_add)
    then show ?thesis using assms(1) by (simp add: pmm_used_def)
  qed
  have lt: "b < 64 * bitmap_words p" if "b < unat (pmm_max_blocks p)" for b
    using that by (simp add: bitmap_words_def)
  show "pmm_ok (p, m')" using assms(2) used lt by (auto simp: pmm_ok_def Let_def)
  show "free_pages (p, m') = free_pages (p, m)" using used lt by (auto simp: free_pages_def)
qed

lemma free_pages_small:
  "pmm_ok s \<Longrightarrow> b \<in> free_pages s \<Longrightarrow> 0 < b \<and> b < 2 ^ 40 \<and> b < unat (pmm_max_blocks (fst s))"
  by (cases s) (auto simp: pmm_ok_def free_pages_def Let_def intro: gr0I)

lemma pmm_alloc_frame:
  assumes "pmm_ok (p, m)" "pmm_alloc_page (p, m) = (a, p', m')"
  shows "\<exists>h. p' = p\<lparr>pmm_hint_word := h\<rparr>" "x \<notin> bitmap_region p \<Longrightarrow> m' x = m x"
proof -
  have "unat (pmm_max_blocks p) \<le> 2 ^ 40"
    using assms(1) by (simp add: pmm_ok_def Let_def)
  then have max: "bitmap_words p < 2 ^ 58" by (simp add: bitmap_words_def)
  have *: "(p' = p \<and> m' = m) \<or> (\<exists>w b. unat w < bitmap_words p \<and> takes_page p m w b (a, p', m'))"
    using pmm_alloc_cases [OF assms(1)] assms(2) by auto
  show "\<exists>h. p' = p\<lparr>pmm_hint_word := h\<rparr>"
    using * by (auto simp: takes_page_def intro: exI [of _ "pmm_hint_word p"])
  assume x: "x \<notin> bitmap_region p"
  have "x \<notin> region (pmm_bitmap p + 8 * w) 8" if w: "unat w < bitmap_words p" for w
  proof
    assume "x \<in> region (pmm_bitmap p + 8 * w) 8"
    then obtain i where i: "i < 8" "x = pmm_bitmap p + 8 * w + of_nat i"
      using region_nth by blast
    then have "x = pmm_bitmap p + of_nat (8 * unat w + i)" by simp
    moreover have "8 * unat w + i < 8 * bitmap_words p" "8 * unat w + i < 2 ^ 64"
      using w i(1) max by auto
    ultimately have "x \<in> bitmap_region p" unfolding bitmap_region_def
      using in_region_add by blast
    then show False using x by simp
  qed
  then show "m' x = m x" using * by (auto simp: takes_page_def)
qed

lemma pmm_alloc_some:
  assumes ok: "pmm_ok (p, m)" and ne: "free_pages (p, m) \<noteq> {}"
    and a: "pmm_alloc_page (p, m) = (a, p', m')"
  shows "pmm_ok (p', m') \<and>
    (\<exists>b \<in> free_pages (p, m). a = of_nat (b * 4096) \<and>
       free_pages (p', m') = free_pages (p, m) - {b})"
proof -
  obtain w b where b: "b \<in> free_pages (p, m)" "unat w < bitmap_words p"
    and t: "takes_page p m w b (a, p', m')"
    using pmm_alloc_cases [OF ok] ne a by auto
  have max: "unat (pmm_max_blocks p) \<le> 2 ^ 40"
    using ok by (simp add: pmm_ok_def Let_def)
  have p': "p' = p\<lparr>pmm_hint_word := w\<rparr>" and a': "a = of_nat (b * 4096)"
    using t by (simp_all add: takes_page_def)
  have used: "pmm_used p m' c \<longleftrightarrow> c = b \<or> pmm_used p m c" if "c < 2 ^ 64" for c
    using t that by (simp add: takes_page_def)
  have lt: "c < 2 ^ 64" if "c < 64 * bitmap_words p" for c
    using that max by (simp add: bitmap_words_def)
  have ltm: "c < 2 ^ 64" if "c < unat (pmm_max_blocks p)" for c
    using that unat_bound [of "pmm_max_blocks p"] by simp
  have "pmm_ok (p', m')"
    using ok used lt b(2) unfolding p' by (auto simp: pmm_ok_def Let_def)
  moreover have "free_pages (p', m') = free_pages (p, m) - {b}"
    using used ltm unfolding p' by (auto simp: free_pages_def)
  ultimately show ?thesis using b(1) a' by blast
qed

lemma pmm_release:
  assumes ok: "pmm_ok (p, m)" and b: "0 < b" "b < unat (pmm_max_blocks p)"
  shows "pmm_ok (pmm_free_page (of_nat (b * 4096)) (p, m)) \<and>
    free_pages (pmm_free_page (of_nat (b * 4096)) (p, m)) = insert b (free_pages (p, m))"
proof -
  have max: "unat (pmm_max_blocks p) \<le> 2 ^ 40"
    using ok by (simp add: pmm_ok_def Let_def)
  let ?g = "(of_nat (b * 4096) :: u64) div 4096"
  have "b * 4096 < 2 ^ 64" using b max by simp
  then have "unat (of_nat (b * 4096) :: u64) = b * 4096" by (intro unat_of_nat_small) simp
  then have g: "unat ?g = b" by (simp add: unat_div del: of_nat_mult)
  have lt: "?g < pmm_max_blocks p" using b g by (simp add: word_less_nat_alt)
  have used: "pmm_used p (pmm_clear_bit p ?g m) c \<longleftrightarrow> c \<noteq> b \<and> pmm_used p m c"
    if "c < 2 ^ 64" for c
    using used_clear_bit [OF that, of p ?g m] g by simp
  define h where "h = (if ?g div 64 < pmm_hint_word p then ?g div 64 else pmm_hint_word p)"
  have s: "pmm_free_page (of_nat (b * 4096)) (p, m) =
      (p\<lparr>pmm_hint_word := h\<rparr>, pmm_clear_bit p ?g m)"
    using lt by (simp add: pmm_free_page_def Let_def h_def)
  have hint: "unat h \<le> bitmap_words p"
    using ok by (auto simp: pmm_ok_def Let_def word_less_nat_alt h_def)
  have lt64: "c < 2 ^ 64" if "c < 64 * bitmap_words p" for c
    using that max by (simp add: bitmap_words_def)
  have ltm: "c < 2 ^ 64" if "c < unat (pmm_max_blocks p)" for c
    using that unat_bound [of "pmm_max_blocks p"] by simp
  show ?thesis unfolding s
  proof
    show "pmm_ok (p\<lparr>pmm_hint_word := h\<rparr>, pmm_clear_bit p ?g m)"
      using ok used lt64 b hint by (auto simp: pmm_ok_def Let_def)
    show "free_pages (p\<lparr>pmm_hint_word := h\<rparr>, pmm_clear_bit p ?g m) = insert b (free_pages (p, m))"
      using used ltm b by (auto simp: free_pages_def)
  qed
qed

interpretation pmm: page_source pmm_ok free_pages bitmap_region
  "\<lambda>p. unat (pmm_max_blocks p)" pmm_alloc_page pmm_free_page
proof unfold_locales
  fix s assume "pmm_ok s" "free_pages s = {}"
  then show "pmm_alloc_page s = (0, s)"
    using pmm_alloc_cases [of "fst s" "snd s"] by (cases s) auto
next
  fix s a s' assume "pmm_ok s" "free_pages s \<noteq> {}" "pmm_alloc_page s = (a, s')"
  then show "pmm_ok s' \<and>
      (\<exists>b \<in> free_pages s. a = of_nat (b * 4096) \<and> free_pages s' = free_pages s - {b})"
    using pmm_alloc_some by (cases s; cases s') blast
next
  fix s a s' assume "pmm_ok s" "pmm_alloc_page s = (a, s')"
  then show "bitmap_region (fst s') = bitmap_region (fst s) \<and>
      unat (pmm_max_blocks (fst s')) = unat (pmm_max_blocks (fst s)) \<and>
      (\<forall>x. x \<notin> bitmap_region (fst s) \<longrightarrow> snd s' x = snd s x)"
    using pmm_alloc_frame by (cases s; cases s') (fastforce simp: bitmap_region_def)
next
  fix s b assume "pmm_ok s" "b \<in> free_pages s"
  then show "0 < b \<and> b < 2 ^ 40 \<and> b < unat (pmm_max_blocks (fst s))"
    by (rule free_pages_small)
next
  fix s b assume "pmm_ok s" "0 < b" "b < unat (pmm_max_blocks (fst s))"
  then show "pmm_ok (pmm_free_page (of_nat (b * 4096)) s) \<and>
      free_pages (pmm_free_page (of_nat (b * 4096)) s) = insert b (free_pages s)"
    using pmm_release by (cases s) simp
next
  fix p m m' assume "pmm_ok (p, m)" "\<And>x. x \<in> bitmap_region p \<Longrightarrow> m x = (m' x :: u8)"
  then show "pmm_ok (p, m') \<and> free_pages (p, m') = free_pages (p, m)"
    using pmm_ok_frame [of p m m'] by blast
qed

section \<open>Regions, page by page\<close>

lemma unat_align_down: "unat (align_down x) = 4096 * (unat x div 4096)"
  using unat_and_not_mask [of 12 x] by (simp add: align_down_def mask_eq_exp_minus_1)

lemma unat_align_up:
  assumes "unat x + 4095 < 2 ^ 64"
  shows "unat (align_up x) = 4096 * ((unat x + 4095) div 4096)"
proof -
  have "unat (x + 4095) = unat x + 4095"
    using assms by (subst unat_add_lem [THEN iffD1]) simp_all
  moreover have "align_up x = align_down (x + 4095)"
    by (simp add: align_up_def align_down_def add.commute)
  ultimately show ?thesis by (simp add: unat_align_down)
qed

lemma region_loop_used:
  assumes f: "\<And>bt m b. b < 2 ^ 64 \<Longrightarrow>
      pmm_used p (f p bt m) b \<longleftrightarrow> (if b = unat bt then v else pmm_used p m b)"
    and ovf: "unat first + unat count < 2 ^ 64" and b: "b < 2 ^ 64"
  shows "pmm_used p (region_loop f p first count m) b \<longleftrightarrow>
    (if unat first \<le> b \<and> b < unat first + unat count \<and> b < unat (pmm_max_blocks p)
     then v else pmm_used p m b)"
proof -
  let ?in = "\<lambda>n c. unat first \<le> c \<and> c < unat first + n \<and> c < unat (pmm_max_blocks p)"
  let ?P = "\<lambda>i t. \<forall>c < 2 ^ 64.
      pmm_used p t c \<longleftrightarrow> (if ?in (unat i) c then v else pmm_used p m c)"
  let ?body = "\<lambda>i t. let bt = first + i
      in if bt \<ge> pmm_max_blocks p then Return t else Next (f p bt t)"
  have bt: "unat (first + i) = unat first + unat i" if "i < count" for i
    using that ovf by (subst unat_add_lem [THEN iffD1]) (simp_all add: word_less_nat_alt)
  have "case for_ctl 0 count ?body m of Next t \<Rightarrow> ?P count t | Return t \<Rightarrow> ?P count t"
  proof (rule for_ctl_inv)
    fix i t t' assume i: "i < count" and P: "?P i t" and nx: "?body i t = Next t'"
    have lt: "unat first + unat i < unat (pmm_max_blocks p)"
      using nx bt [OF i] by (auto simp: Let_def word_le_nat_alt split: if_splits)
    have t': "t' = f p (first + i) t" using nx by (auto simp: Let_def split: if_splits)
    show "?P (i + 1) t'"
      using P f [of _ "first + i" t] lt by (auto simp: t' bt [OF i] unat_Suc_less [OF i])
  next
    fix i t r assume i: "i < count" and P: "?P i t" and rt: "?body i t = Return r"
    have "unat (pmm_max_blocks p) \<le> unat first + unat i" "r = t"
      using rt bt [OF i] by (auto simp: Let_def word_le_nat_alt split: if_splits)
    then show "?P count r" using P i by (auto simp: word_less_nat_alt)
  qed auto
  then have "?P count (region_loop f p first count m)"
    unfolding region_loop_def by (cases "for_ctl 0 count ?body m") auto
  then show ?thesis using b by blast
qed

text \<open>
  Releasing a region frees the pages that lie wholly inside it; reserving one marks every
  page that touches it. Neither changes any other page.
\<close>

lemma init_region_used:
  assumes ovf: "unat base + unat sz + 4095 < 2 ^ 64" and b: "b < 2 ^ 64"
  shows "pmm_used p (pmm_init_region p base sz m) b \<longleftrightarrow>
    pmm_used p m b \<and>
    \<not> (unat base \<le> 4096 * b \<and> 4096 * b + 4096 \<le> unat base + unat sz \<and>
       b < unat (pmm_max_blocks p))"
proof -
  let ?s = "align_up base" and ?e = "align_down (base + sz)"
  have up: "unat ?s = 4096 * ((unat base + 4095) div 4096)"
    using ovf by (intro unat_align_up) simp
  have sum: "unat (base + sz) = unat base + unat sz"
    using ovf by (subst unat_add_lem [THEN iffD1]) simp_all
  have dn: "unat ?e = 4096 * ((unat base + unat sz) div 4096)"
    by (simp add: unat_align_down sum)
  have pages: "unat base \<le> 4096 * b \<longleftrightarrow> (unat base + 4095) div 4096 \<le> b"
    "4096 * b + 4096 \<le> unat base + unat sz \<longleftrightarrow> b < (unat base + unat sz) div 4096"
    by linarith+
  show ?thesis
  proof (cases "?s \<ge> ?e")
    case True
    then have "(unat base + unat sz) div 4096 \<le> (unat base + 4095) div 4096"
      by (simp add: word_le_nat_alt up dn)
    then show ?thesis using True by (auto simp: pmm_init_region_def Let_def pages)
  next
    case False
    then have lt: "(unat base + 4095) div 4096 < (unat base + unat sz) div 4096"
      by (simp add: word_le_nat_alt up dn)
    have first: "unat (?s div 4096) = (unat base + 4095) div 4096"
      by (simp add: unat_div up)
    have "unat (?e - ?s) = unat ?e - unat ?s"
      using False by (intro unat_sub) simp
    then have count: "unat ((?e - ?s) div 4096) =
        (unat base + unat sz) div 4096 - (unat base + 4095) div 4096"
      by (simp add: unat_div up dn diff_mult_distrib2 [symmetric])
    have small: "unat (?s div 4096) + unat ((?e - ?s) div 4096) < 2 ^ 64"
      using ovf lt by (simp add: first count)
    show ?thesis
      using False b region_loop_used [OF _ small b, where f = pmm_clear_bit and v = False and p = p and m = m]
        lt
      by (auto simp: pmm_init_region_def Let_def pages used_clear_bit first count)
  qed
qed

lemma deinit_region_used:
  assumes ovf: "unat base + unat sz + 4095 < 2 ^ 64" and b: "b < 2 ^ 64"
  shows "pmm_used p (pmm_deinit_region p base sz m) b \<longleftrightarrow>
    pmm_used p m b \<or>
    (unat base < 4096 * b + 4096 \<and> 4096 * b < unat base + unat sz \<and>
     b < unat (pmm_max_blocks p)) \<or>
    (unat base mod 4096 \<noteq> 0 \<and> sz = 0 \<and> b = unat base div 4096 \<and> b < unat (pmm_max_blocks p))"
proof -
  let ?s = "align_down base" and ?e = "align_up (base + sz)"
  have sum: "unat (base + sz) = unat base + unat sz"
    using ovf by (subst unat_add_lem [THEN iffD1]) simp_all
  have dn: "unat ?s = 4096 * (unat base div 4096)"
    by (simp add: unat_align_down)
  have up: "unat ?e = 4096 * ((unat base + unat sz + 4095) div 4096)"
    using ovf by (simp add: unat_align_up sum)
  have pages: "unat base < 4096 * b + 4096 \<longleftrightarrow> unat base div 4096 \<le> b"
    "4096 * b < unat base + unat sz \<longleftrightarrow> b < (unat base + unat sz + 4095) div 4096"
    by linarith+
  have zero: "sz = 0 \<longleftrightarrow> unat sz = 0" by (simp add: unat_eq_0)
  show ?thesis
  proof (cases "?s \<ge> ?e")
    case True
    then have "(unat base + unat sz + 4095) div 4096 \<le> unat base div 4096"
      by (simp add: word_le_nat_alt up dn)
    moreover from this have "unat base = 4096 * (unat base div 4096)" by linarith
    then have "unat base mod 4096 = 0" by (metis mod_mult_self1_is_0)
    ultimately show ?thesis using True by (auto simp: pmm_deinit_region_def Let_def pages)
  next
    case False
    then have lt: "unat base div 4096 < (unat base + unat sz + 4095) div 4096"
      by (simp add: word_le_nat_alt up dn)
    have first: "unat (?s div 4096) = unat base div 4096"
      by (simp add: unat_div dn)
    have "unat (?e - ?s) = unat ?e - unat ?s"
      using False by (intro unat_sub) simp
    then have count: "unat ((?e - ?s) div 4096) =
        (unat base + unat sz + 4095) div 4096 - unat base div 4096"
      by (simp add: unat_div up dn diff_mult_distrib2 [symmetric])
    have small: "unat (?s div 4096) + unat ((?e - ?s) div 4096) < 2 ^ 64"
      using ovf lt by (simp add: first count)
    have edge: "unat base mod 4096 \<noteq> 0 \<and> unat sz = 0 \<and> b = unat base div 4096 \<longrightarrow>
        unat base div 4096 \<le> b \<and> b < (unat base + unat sz + 4095) div 4096"
      using lt by auto
    show ?thesis
      using False b edge lt
        region_loop_used [OF _ small b, where f = pmm_set_bit and v = True and p = p and m = m]
      by (auto simp: pmm_deinit_region_def Let_def pages used_set_bit first count zero)
  qed
qed

section \<open>Initialisation\<close>

definition page_in :: "nat \<Rightarrow> nat \<Rightarrow> nat \<Rightarrow> bool" where
  "page_in base len b \<longleftrightarrow> base \<le> 4096 * b \<and> 4096 * b + 4096 \<le> base + len"

definition page_touches :: "nat \<Rightarrow> nat \<Rightarrow> nat \<Rightarrow> bool" where
  "page_touches base len b \<longleftrightarrow> base < 4096 * b + 4096 \<and> 4096 * b < base + len"

text \<open>
  A memory map of \<open>n\<close> entries of the usual size at address \<open>A\<close>, as \<^verbatim>\<open>convert_mb2_to_mb1\<close>
  writes it, whose available regions end below 2^52.
\<close>

definition map_wf :: "mem \<Rightarrow> u64 \<Rightarrow> nat \<Rightarrow> bool" where
  "map_wf m A n \<longleftrightarrow>
     (\<forall>i < n. mmap_size m (map_entry A i) = 20 \<and>
        (mmap_type m (map_entry A i) = 1 \<longrightarrow>
           unat (mmap_entry_addr m (map_entry A i)) + unat (mmap_len m (map_entry A i)) \<le> 2 ^ 52))"

definition only_bitmap :: "pmm \<Rightarrow> mem \<Rightarrow> mem \<Rightarrow> bool" where
  "only_bitmap p m m' \<longleftrightarrow> (\<forall>x. x \<notin> bitmap_region p \<longrightarrow> m' x = m x)"

lemma only_bitmap_trans: "only_bitmap p m m1 \<Longrightarrow> only_bitmap p m1 m2 \<Longrightarrow> only_bitmap p m m2"
  by (simp add: only_bitmap_def)

lemma byte_in_bitmap:
  assumes "bt < pmm_max_blocks p"
  shows "pmm_bitmap p + bt div 8 \<in> bitmap_region p"
proof -
  have "unat bt div 8 < 8 * bitmap_words p"
    using assms by (simp add: word_less_nat_alt bitmap_words_def)
  moreover have "unat bt div 8 < 2 ^ 64" using unat_bound [of bt] by simp
  ultimately show ?thesis unfolding bitmap_region_def word_div_8 by (rule in_region_add)
qed

lemma only_bitmap_clear_bit: "bt < pmm_max_blocks p \<Longrightarrow> only_bitmap p m (pmm_clear_bit p bt m)"
  using byte_in_bitmap by (auto simp: only_bitmap_def pmm_clear_bit_def Let_def)

lemma only_bitmap_region_loop:
  assumes f: "\<And>bt m. bt < pmm_max_blocks p \<Longrightarrow> only_bitmap p m (f p bt m)"
  shows "only_bitmap p m (region_loop f p first count m)"
proof -
  let ?body = "\<lambda>i t. let bt = first + i
      in if bt \<ge> pmm_max_blocks p then Return t else Next (f p bt t)"
  have "case for_ctl 0 count ?body m of
      Next t \<Rightarrow> only_bitmap p m t | Return t \<Rightarrow> only_bitmap p m t"
  proof (rule for_ctl_inv [where P = "\<lambda>_. only_bitmap p m"])
    fix j t t' assume t: "only_bitmap p m t" and nx: "?body j t = Next t'"
    then have "only_bitmap p t t'" by (auto simp: Let_def intro!: f split: if_splits)
    then show "only_bitmap p m t'" using t by (rule only_bitmap_trans [rotated])
  next
    fix j t r assume "only_bitmap p m t" "?body j t = Return r"
    then show "only_bitmap p m r" by (auto simp: Let_def split: if_splits)
  qed (auto simp: only_bitmap_def)
  then show ?thesis
    unfolding region_loop_def by (cases "for_ctl 0 count ?body m") auto
qed

lemma only_bitmap_init_region: "only_bitmap p m (pmm_init_region p base sz m)"
  by (simp add: pmm_init_region_def Let_def only_bitmap_region_loop only_bitmap_clear_bit)
     (simp add: only_bitmap_def)

text \<open>A map below 4 GB: the 32-bit pointer comparisons of the walks are exact.\<close>

definition boot_map :: "mem \<Rightarrow> u32 \<Rightarrow> nat \<Rightarrow> bool" where
  "boot_map m a n \<longleftrightarrow> unat a + 24 * n < 2 ^ 32 \<and> map_wf m (ucast a) n"

lemma entry_ptr:
  fixes a :: u32
  assumes "i \<le> n" "unat a + 24 * n < 2 ^ 32"
  shows "unat (ucast (map_entry (ucast a) i) :: u32) = unat a + 24 * i"
proof -
  have "map_entry (ucast a) i = of_nat (unat a + 24 * i)"
    by (simp add: map_entry_def)
  moreover have "unat (of_nat (unat a + 24 * i) :: u64) = unat a + 24 * i"
    using assms by (intro unat_of_nat_small) simp
  ultimately have "unat (map_entry (ucast a) i) = unat a + 24 * i" by metis
  then show ?thesis using assms by (simp add: unat_ucast_mod)
qed

lemma map_end:
  fixes a :: u32
  assumes "unat a + 24 * n < 2 ^ 32"
  shows "unat (a + of_nat (24 * n)) = unat a + 24 * n"
proof -
  have "unat (of_nat (24 * n) :: u32) = 24 * n"
    using assms by (intro unat_of_nat_small) simp
  then show ?thesis using assms by (subst unat_add_lem [THEN iffD1]) simp_all
qed

lemma entry_next:
  assumes "mmap_size m (map_entry A i) = 20"
  shows "mmap_next m (map_entry A i) = map_entry A (Suc i)"
  using assms by (simp add: mmap_next_def map_entry_def)

lemma entry_fits:
  fixes a :: u32
  assumes i: "i < n" and low: "unat a + 24 * n < 2 ^ 32"
  shows "ucast (map_entry (ucast a) i) < a + of_nat (24 * n)"
    and "\<not> ucast (map_entry (ucast a) i) + 20 + 4 > a + of_nat (24 * n)"
proof -
  have p: "unat (ucast (map_entry (ucast a) i) :: u32) = unat a + 24 * i"
    using i low by (intro entry_ptr [where n = n]) simp_all
  show "ucast (map_entry (ucast a) i) < a + of_nat (24 * n)"
    unfolding word_less_nat_alt p map_end [OF low] using i by simp
  have "unat (ucast (map_entry (ucast a) i) + 24 :: u32) = unat a + 24 * i + 24"
    using p i low by (subst unat_add_lem [THEN iffD1]) simp_all
  then have "unat (ucast (map_entry (ucast a) i) + 20 + 4 :: u32) = unat a + 24 * i + 24"
    by (simp add: add.assoc)
  then show "\<not> ucast (map_entry (ucast a) i) + 20 + 4 > a + of_nat (24 * n)"
    unfolding word_less_nat_alt map_end [OF low] using i by simp
qed

lemma entry_end_ptr:
  fixes a :: u32
  assumes "unat a + 24 * n < 2 ^ 32"
  shows "\<not> ucast (map_entry (ucast a) n) < a + of_nat (24 * n)"
  unfolding word_less_nat_alt map_end [OF assms] using entry_ptr [OF order_refl assms] by simp

lemma region_sum:
  assumes "map_wf m A n" "i < n" "mmap_type m (map_entry A i) = 1"
  shows "unat (mmap_entry_addr m (map_entry A i) + mmap_len m (map_entry A i)) =
      unat (mmap_entry_addr m (map_entry A i)) + unat (mmap_len m (map_entry A i))"
    and "unat (mmap_entry_addr m (map_entry A i)) + unat (mmap_len m (map_entry A i)) \<le> 2 ^ 52"
proof -
  show le: "unat (mmap_entry_addr m (map_entry A i)) + unat (mmap_len m (map_entry A i)) \<le> 2 ^ 52"
    using assms by (simp add: map_wf_def)
  show "unat (mmap_entry_addr m (map_entry A i) + mmap_len m (map_entry A i)) =
      unat (mmap_entry_addr m (map_entry A i)) + unat (mmap_len m (map_entry A i))"
    using le by (subst unat_add_lem [THEN iffD1]) simp_all
qed

text \<open>\<open>M\<close> bounds the available regions from entry \<open>i\<close> on.\<close>

definition bounds_map :: "mem \<Rightarrow> u64 \<Rightarrow> nat \<Rightarrow> nat \<Rightarrow> nat \<Rightarrow> bool" where
  "bounds_map m A i n M \<longleftrightarrow>
     (\<forall>j. i \<le> j \<and> j < n \<and> mmap_type m (map_entry A j) = 1 \<longrightarrow>
        unat (mmap_entry_addr m (map_entry A j)) + unat (mmap_len m (map_entry A j)) \<le> M)"

lemma scan_result:
  fixes a :: u32
  assumes "boot_map m a n" "i \<le> n" "unat acc \<le> 2 ^ 52"
  shows "\<exists>M. mmap_scan m (a + of_nat (24 * n)) (map_entry (ucast a) i) acc = Some (Inr M) \<and>
    unat acc \<le> unat M \<and> unat M \<le> 2 ^ 52 \<and> bounds_map m (ucast a) i n (unat M)"
  using assms(2,3)
proof (induction "n - i" arbitrary: i acc)
  case 0
  then have "i = n" by simp
  then show ?case using entry_end_ptr [of a n] assms(1) 0
    by (subst mmap_scan.simps) (simp add: boot_map_def bounds_map_def)
next
  case (Suc k)
  have low: "unat a + 24 * n < 2 ^ 32" and wf: "map_wf m (ucast a) n"
    using assms(1) by (simp_all add: boot_map_def)
  define e where "e = map_entry (ucast a) i"
  define hi where "hi = mmap_entry_addr m e + mmap_len m e"
  define acc' where "acc' = (if mmap_type m e = 1 \<and> hi > acc then hi else acc)"
  have i: "i < n" using Suc.hyps by simp
  have sz: "mmap_size m e = 20" using wf i by (simp add: map_wf_def e_def)
  have nx: "mmap_next m e = map_entry (ucast a) (Suc i)"
    using sz unfolding e_def by (rule entry_next)
  note fits = entry_fits [OF i low, folded e_def]
  have hi: "unat hi = unat (mmap_entry_addr m e) + unat (mmap_len m e)" "unat hi \<le> 2 ^ 52"
    if "mmap_type m e = 1"
    using region_sum [OF wf i] that unfolding e_def hi_def by auto
  have acc: "unat acc' \<le> 2 ^ 52" "unat acc \<le> unat acc'"
    using Suc.prems(2) hi by (auto simp: acc'_def word_less_nat_alt)
  have step: "mmap_scan m (a + of_nat (24 * n)) e acc =
      mmap_scan m (a + of_nat (24 * n)) (map_entry (ucast a) (Suc i)) acc'"
    using fits sz nx hi(1)
    by (subst mmap_scan.simps) (auto simp: acc'_def hi_def word_less_nat_alt)
  obtain M where M: "mmap_scan m (a + of_nat (24 * n)) (map_entry (ucast a) (Suc i)) acc' =
      Some (Inr M)" "unat acc' \<le> unat M" "unat M \<le> 2 ^ 52" "bounds_map m (ucast a) (Suc i) n (unat M)"
    using Suc.hyps(1) [OF _ _ acc(1), of "Suc i"] Suc.hyps(2) i by fastforce
  have le: "unat hi \<le> unat M" if "mmap_type m e = 1"
    using M(2) that by (auto simp: acc'_def word_less_nat_alt split: if_splits)
  have "bounds_map m (ucast a) i n (unat M)"
    unfolding bounds_map_def
  proof (intro allI impI)
    fix j assume j: "i \<le> j \<and> j < n \<and> mmap_type m (map_entry (ucast a) j) = 1"
    show "unat (mmap_entry_addr m (map_entry (ucast a) j)) +
        unat (mmap_len m (map_entry (ucast a) j)) \<le> unat M"
      using M(4) j le hi(1) by (cases "i = j") (auto simp: bounds_map_def e_def)
  qed
  then show ?case using M acc step by (auto simp: e_def simp del: of_nat_mult)
qed

definition avail_from :: "mem \<Rightarrow> u64 \<Rightarrow> nat \<Rightarrow> nat \<Rightarrow> nat \<Rightarrow> bool" where
  "avail_from m A i n b \<longleftrightarrow>
     (\<exists>j. i \<le> j \<and> j < n \<and> mmap_type m (map_entry A j) = 1 \<and>
        page_in (unat (mmap_entry_addr m (map_entry A j))) (unat (mmap_len m (map_entry A j))) b)"

lemma avail_from_step:
  assumes "i < n"
  shows "avail_from m A i n b \<longleftrightarrow>
    (mmap_type m (map_entry A i) = 1 \<and>
       page_in (unat (mmap_entry_addr m (map_entry A i))) (unat (mmap_len m (map_entry A i))) b) \<or>
    avail_from m A (Suc i) n b"
  unfolding avail_from_def using assms by (metis Suc_le_eq le_less order_refl less_imp_le)

lemma ucast_up_less: "(ucast (x :: u32) :: u64) < ucast y \<longleftrightarrow> x < y"
proof -
  have "unat (ucast z :: u64) = unat z" for z :: u32
    using unat_bound [of z] by (simp add: unat_ucast_mod)
  then show ?thesis by (simp add: word_less_nat_alt)
qed

lemma release_result:
  fixes a :: u32
  assumes bm: "boot_map m0 a n" and dis: "region (ucast a) (24 * n) \<inter> bitmap_region p = {}"
    and "i \<le> n" "only_bitmap p m0 m"
  shows "\<exists>m'. mmap_release p (ucast (a + of_nat (24 * n))) (map_entry (ucast a) i) m = Some m' \<and>
    only_bitmap p m0 m' \<and>
    (\<forall>b < 2 ^ 64. pmm_used p m' b \<longleftrightarrow>
       pmm_used p m b \<and> \<not> (b < unat (pmm_max_blocks p) \<and> avail_from m0 (ucast a) i n b))"
  using assms(3,4)
proof (induction "n - i" arbitrary: i m)
  case 0
  then have "i = n" by simp
  moreover have "\<not> avail_from m0 (ucast a) n n b" for b by (simp add: avail_from_def)
  moreover have "\<not> ucast (ucast (map_entry (ucast a) n) :: u32) < (ucast (a + of_nat (24 * n)) :: u64)"
    using entry_end_ptr [of a n] bm by (simp only: ucast_up_less boot_map_def) simp
  ultimately show ?case using 0 by (subst mmap_release.simps) simp
next
  case (Suc k)
  have low: "unat a + 24 * n < 2 ^ 32" and wf: "map_wf m0 (ucast a) n"
    using bm by (simp_all add: boot_map_def)
  have i: "i < n" using Suc.hyps by simp
  define e where "e = map_entry (ucast a) i"
  define m1 where "m1 = (if mmap_type m e = 1
      then pmm_init_region p (mmap_entry_addr m e) (mmap_len m e) m else m)"
  have m1: "only_bitmap p m0 m1"
    using Suc.prems(2) only_bitmap_init_region only_bitmap_trans by (auto simp: m1_def)
  have same: "t x = m0 x" if "only_bitmap p m0 t" "x \<in> region (ucast a) (24 * n)" for t x
    using that dis by (auto simp: only_bitmap_def)
  have n64: "24 * n < 2 ^ 64" using low by simp
  note fld = map_fields_frame [OF _ i n64, of "ucast a" _ m0, folded e_def]
  have sz: "mmap_size m1 e = 20"
    using fld(1) [of m1] same [OF m1] wf i by (simp add: map_wf_def e_def)
  have nx: "mmap_next m1 e = map_entry (ucast a) (Suc i)"
    using sz unfolding e_def by (rule entry_next)
  have lt: "ucast (ucast e :: u32) < (ucast (a + of_nat (24 * n)) :: u64)"
    using entry_fits(1) [OF i low] unfolding e_def by (simp only: ucast_up_less)
  have step: "mmap_release p (ucast (a + of_nat (24 * n))) e m =
      mmap_release p (ucast (a + of_nat (24 * n))) (map_entry (ucast a) (Suc i)) m1"
    using lt nx by (subst mmap_release.simps) (simp add: Let_def m1_def)
  have flds: "mmap_type m e = mmap_type m0 e" "mmap_entry_addr m e = mmap_entry_addr m0 e"
    "mmap_len m e = mmap_len m0 e"
    using fld(2-4) [of m] same [OF Suc.prems(2)] by auto
  have used1: "pmm_used p m1 b \<longleftrightarrow> pmm_used p m b \<and> \<not> (b < unat (pmm_max_blocks p) \<and>
      mmap_type m0 e = 1 \<and> page_in (unat (mmap_entry_addr m0 e)) (unat (mmap_len m0 e)) b)"
    if "b < 2 ^ 64" for b
  proof (cases "mmap_type m0 e = 1")
    case True
    then have "unat (mmap_entry_addr m0 e) + unat (mmap_len m0 e) + 4095 < 2 ^ 64"
      using region_sum(2) [OF wf i] by (simp add: e_def)
    then show ?thesis using init_region_used [OF _ that, of "mmap_entry_addr m0 e" "mmap_len m0 e" p m] True
      by (auto simp: m1_def flds page_in_def)
  qed (simp add: m1_def flds)
  obtain m' where m': "mmap_release p (ucast (a + of_nat (24 * n))) (map_entry (ucast a) (Suc i)) m1 =
      Some m'" "only_bitmap p m0 m'" "\<forall>b < 2 ^ 64. pmm_used p m' b \<longleftrightarrow> pmm_used p m1 b \<and>
        \<not> (b < unat (pmm_max_blocks p) \<and> avail_from m0 (ucast a) (Suc i) n b)"
    using Suc.hyps(1) [OF _ _ m1, of "Suc i"] Suc.hyps(2) i by fastforce
  have "\<forall>b < 2 ^ 64. pmm_used p m' b \<longleftrightarrow>
      pmm_used p m b \<and> \<not> (b < unat (pmm_max_blocks p) \<and> avail_from m0 (ucast a) i n b)"
    using m'(3) used1 avail_from_step [OF i, of m0 "ucast a", folded e_def] by blast
  then show ?case using m' step by (auto simp: e_def simp del: of_nat_mult)
qed

lemma setup_blocks: "unat (pmm_max_blocks (pmm_setup M K)) = unat M div 4096"
  by (simp add: pmm_setup_def Let_def unat_div unat_align_down)

lemma words_fit:
  fixes B c q :: nat
  assumes "B \<le> 8 * c" "c \<le> 4096 * q"
  shows "8 * ((B + 63) div 64) \<le> 4096 * q"
proof -
  have "B + 63 < (512 * q + 1) * 64" using assms by simp
  then have "(B + 63) div 64 < 512 * q + 1" by (rule less_mult_imp_div_less)
  then show ?thesis by linarith
qed

lemma setup_size:
  assumes "unat M \<le> 2 ^ 52"
  shows "unat (pmm_bitmap_size (pmm_setup M K)) =
      4096 * (((unat M div 4096 + 7) div 8 + 4095) div 4096)"
    and "8 * bitmap_words (pmm_setup M K) \<le> unat (pmm_bitmap_size (pmm_setup M K))"
    and "unat (pmm_bitmap_size (pmm_setup M K)) \<le> 2 ^ 38"
proof -
  let ?blocks = "align_down M div 4096"
  let ?sz = "(?blocks + 7) div 8"
  have bl: "unat ?blocks = unat M div 4096" by (simp add: unat_div unat_align_down)
  have "unat (?blocks + 7) = unat M div 4096 + 7"
    using assms by (subst unat_add_lem [THEN iffD1]) (simp_all add: bl)
  then have sz: "unat ?sz = (unat M div 4096 + 7) div 8" by (simp add: unat_div)
  have "unat (align_up ?sz) = 4096 * ((unat ?sz + 4095) div 4096)"
    using assms by (intro unat_align_up) (simp add: sz)
  then show eq: "unat (pmm_bitmap_size (pmm_setup M K)) =
      4096 * (((unat M div 4096 + 7) div 8 + 4095) div 4096)"
    by (simp add: pmm_setup_def Let_def align_up_def sz)
  show "8 * bitmap_words (pmm_setup M K) \<le> unat (pmm_bitmap_size (pmm_setup M K))"
    unfolding eq bitmap_words_def setup_blocks
    by (rule words_fit [where c = "(unat M div 4096 + 7) div 8"]; linarith)
  show "unat (pmm_bitmap_size (pmm_setup M K)) \<le> 2 ^ 38"
    unfolding eq using assms by simp
qed

lemma memset_used:
  assumes "b < 64 * bitmap_words p" "8 * bitmap_words p \<le> unat (pmm_bitmap_size p)"
  shows "pmm_used p (memset m (pmm_bitmap p) 0xFF (pmm_bitmap_size p)) b"
proof -
  have "b div 8 < unat (pmm_bitmap_size p)" using assms by simp
  then have "of_nat (b div 8) < pmm_bitmap_size p" by (rule of_nat_less_word)
  moreover have "bit (0xFF :: u8) (b mod 8)"
  proof -
    have "(0xFF :: u8) = mask 8" by (simp add: mask_eq_exp_minus_1)
    then show ?thesis by (simp only: bit_mask_iff) simp
  qed
  ultimately show ?thesis by (simp add: pmm_used_def memset_apply)
qed

lemma seal_used:
  assumes max: "unat (pmm_max_blocks p) \<le> 2 ^ 40" and b: "b < 2 ^ 64"
  shows "pmm_used p (seal_tail p m) b \<longleftrightarrow> pmm_used p m b \<or>
    (0 < unat (pmm_max_blocks p) \<and> unat (pmm_max_blocks p) \<le> b \<and>
     b div 64 = (unat (pmm_max_blocks p) - 1) div 64)"
proof (cases "pmm_max_blocks p = 0")
  case True
  then show ?thesis by (simp add: seal_tail_def)
next
  case False
  let ?max = "unat (pmm_max_blocks p)"
  let ?w = "(pmm_max_blocks p - 1) div 64" and ?l = "(pmm_max_blocks p - 1) mod 64"
  have pos: "0 < ?max" using False by (simp add: unat_gt_0)
  have m1: "unat (pmm_max_blocks p - 1) = ?max - 1" using False by (rule unat_minus_one)
  have w: "unat ?w = (?max - 1) div 64" and l: "unat ?l = (?max - 1) mod 64"
    by (simp_all add: unat_div unat_mod m1)
  have w58: "unat ?w < 2 ^ 58" using max w by simp
  have tail: "?max \<le> b \<longleftrightarrow> unat ?l < b mod 64" if "b div 64 = (?max - 1) div 64"
    using that pos mult_div_mod_eq [of 64 b] mult_div_mod_eq [of 64 "?max - 1"]
    unfolding l by (intro iffI; linarith)
  show ?thesis
  proof (cases "?l < 63")
    case True
    have mask: "push_bit k 1 - 1 = (mask k :: u64)" for k
      by (simp add: mask_eq_exp_minus_1)
    have "unat (?l + 1) = Suc (unat ?l)" using True by (rule unat_Suc_less)
    then have keep: "bit (NOT (push_bit (unat (?l + 1)) 1 - 1) :: u64) i \<longleftrightarrow> i < 64 \<and> unat ?l < i" for i
      unfolding mask by (auto simp: bit_not_iff bit_mask_iff)
    have "pmm_used p (seal_tail p m) b \<longleftrightarrow>
        (if b div 64 = unat ?w
         then bit (rd64 m (pmm_bitmap p + 8 * ?w)) (b mod 64) \<or> unat ?l < b mod 64
         else pmm_used p m b)"
      using used_wr64 [OF w58 b] True False keep
      by (auto simp: seal_tail_def Let_def word_gt_0 bit_or_iff)
    moreover have "bit (rd64 m (pmm_bitmap p + 8 * ?w)) (b mod 64) \<longleftrightarrow> pmm_used p m b"
      if "b div 64 = unat ?w"
    proof -
      have "b = 64 * unat ?w + b mod 64" using that by (metis div_mult_mod_eq mult.commute)
      then show ?thesis using bit_bitmap_word [of m p ?w "b mod 64"] by simp
    qed
    ultimately show ?thesis using pos tail w by auto
  next
    case l63: False
    have "unat ?l = 63"
      using l63 l by (auto simp: word_less_nat_alt)
    moreover have "b mod 64 < 64" by simp
    ultimately have "\<not> (b div 64 = (?max - 1) div 64 \<and> ?max \<le> b)" using tail by auto
    then show ?thesis using l63 False by (auto simp: seal_tail_def Let_def)
  qed
qed

text \<open>Where the boot data lies: the map below the bitmap, everything below 2^52.\<close>

definition boot_layout :: "multiboot_info \<Rightarrow> nat \<Rightarrow> u64 \<Rightarrow> u64 \<Rightarrow> mem \<Rightarrow> bool" where
  "boot_layout info n mbd K m \<longleftrightarrow>
     flags info AND MULTIBOOT_INFO_MEM_MAP \<noteq> 0 \<and> 0 < n \<and>
     mmap_length info = of_nat (24 * n) \<and> boot_map m (mmap_addr info) n \<and>
     0x100000 \<le> unat K \<and> unat (mmap_addr info) + 24 * n \<le> unat K \<and> unat K \<le> 2 ^ 52 \<and>
     unat mbd \<le> 2 ^ 52"

text \<open>Pages kept out of use: low memory, kernel and bitmap, the boot structure, the map.\<close>

definition boot_reserved :: "multiboot_info \<Rightarrow> nat \<Rightarrow> u64 \<Rightarrow> pmm \<Rightarrow> nat \<Rightarrow> bool" where
  "boot_reserved info n mbd p b \<longleftrightarrow>
     page_touches 0 (unat (pmm_bitmap p) + unat (pmm_bitmap_size p)) b \<or>
     page_touches (unat mbd) 118 b \<or>
     page_touches (unat (mmap_addr info)) (24 * n) b"

lemma setup_fields [simp]:
  "pmm_bitmap (pmm_setup M K) = K" "pmm_hint_word (pmm_setup M K) = 0"
  by (simp_all add: pmm_setup_def Let_def)

lemma boot_layout_facts:
  assumes "boot_layout info n mbd K m"
  shows "0 < n" "boot_map m (mmap_addr info) n" "mmap_length info = of_nat (24 * n)" "0x100000 \<le> unat K"
    "unat (mmap_addr info) + 24 * n \<le> unat K" "unat K \<le> 2 ^ 52" "unat mbd \<le> 2 ^ 52"
    "unat (mmap_addr info) + 24 * n < 2 ^ 32" "unat (ucast (mmap_addr info) :: u64) = unat (mmap_addr info)"
  using assms unat_bound [of "mmap_addr info"] by (simp_all add: boot_layout_def boot_map_def unat_ucast_mod)

text \<open>After the bitmap is filled and the map walked, exactly the available pages are free.\<close>

lemma release_all:
  assumes lay: "boot_layout info n mbd K m" and M: "unat M \<le> 2 ^ 52"
  defines "p \<equiv> pmm_setup M K"
  shows "\<exists>m'. mmap_release p (ucast (mmap_addr info + of_nat (24 * n))) (ucast (mmap_addr info))
      (memset m K 0xFF (pmm_bitmap_size p)) = Some m' \<and>
    (\<forall>b < 64 * bitmap_words p. pmm_used p m' b \<longleftrightarrow>
       \<not> (b < unat (pmm_max_blocks p) \<and> avail_from m (ucast (mmap_addr info)) 0 n b))"
proof -
  let ?a = "mmap_addr info" and ?A = "ucast (mmap_addr info) :: u64"
  let ?S = "pmm_bitmap_size p" and ?max = "unat (pmm_max_blocks p)"
  note L = boot_layout_facts [OF lay] and sz = setup_size [OF M, of K, folded p_def]
  have max: "?max \<le> 2 ^ 40" using M by (simp add: p_def setup_blocks)
  have K: "pmm_bitmap p = K" by (simp add: p_def)
  define m1 where "m1 = memset m K 0xFF ?S"
  have dis: "region ?A (24 * n) \<inter> region K (unat ?S) = {}"
    using L(5,6) sz(3) by (intro region_disjoint) (simp_all add: L(9))
  have "bitmap_region p \<subseteq> region K (unat ?S)"
    unfolding bitmap_region_def K using sz(2) by (rule region_mono)
  then have dis': "region ?A (24 * n) \<inter> bitmap_region p = {}" using dis by blast
  have m1_eq: "m1 x = m x" if "x \<in> region ?A (24 * n)" for x
    using that dis by (auto simp: m1_def memset_apply in_region_iff word_less_nat_alt)
  have fld: "mmap_size m1 (map_entry ?A i) = mmap_size m (map_entry ?A i)"
    "mmap_entry_addr m1 (map_entry ?A i) = mmap_entry_addr m (map_entry ?A i)"
    "mmap_len m1 (map_entry ?A i) = mmap_len m (map_entry ?A i)"
    "mmap_type m1 (map_entry ?A i) = mmap_type m (map_entry ?A i)" if "i < n" for i
    using map_fields_frame [OF m1_eq that] L(8) by simp_all
  have bm1: "boot_map m1 ?a n" using L(2) fld by (simp add: boot_map_def map_wf_def)
  have av: "avail_from m1 ?A 0 n b \<longleftrightarrow> avail_from m ?A 0 n b" for b
    unfolding avail_from_def using fld by metis
  have "map_entry ?A 0 = ?A" by (simp add: map_entry_def)
  then obtain m2 where m2: "mmap_release p (ucast (?a + of_nat (24 * n))) ?A m1 = Some m2"
    and used2: "\<And>b. b < 2 ^ 64 \<Longrightarrow> pmm_used p m2 b \<longleftrightarrow> pmm_used p m1 b \<and> \<not> (b < ?max \<and> avail_from m ?A 0 n b)"
    using release_result [OF bm1 dis', of 0 m1] av by (auto simp: only_bitmap_def)
  have "b < 2 ^ 64" "pmm_used p m1 b" if "b < 64 * bitmap_words p" for b
    using that max memset_used [OF that sz(2), of m] by (simp_all add: bitmap_words_def m1_def K)
  then show ?thesis using m2 used2 unfolding m1_def by blast
qed

text \<open>The four reserved areas: low memory, kernel with bitmap, boot information, memory map.\<close>

definition reserve_all :: "multiboot_info \<Rightarrow> nat \<Rightarrow> u64 \<Rightarrow> u64 \<Rightarrow> pmm \<Rightarrow> mem \<Rightarrow> mem" where
  "reserve_all info n mbd K p m =
     pmm_deinit_region p (ucast (mmap_addr info)) (of_nat (24 * n)) (pmm_deinit_region p mbd 118
       (pmm_deinit_region p 0x100000 (K + pmm_bitmap_size p - 0x100000) (pmm_deinit_region p 0 0x100000 m)))"

lemma reserve_all_used:
  assumes lay: "boot_layout info n mbd K m0" and M: "unat M \<le> 2 ^ 52" and b: "b < 2 ^ 64"
  defines "p \<equiv> pmm_setup M K"
  shows "pmm_used p (reserve_all info n mbd K p m) b \<longleftrightarrow>
    pmm_used p m b \<or> b < unat (pmm_max_blocks p) \<and> boot_reserved info n mbd p b"
proof -
  let ?A = "ucast (mmap_addr info) :: u64" and ?S = "pmm_bitmap_size p" and ?max = "unat (pmm_max_blocks p)"
  let ?E = "K + ?S"
  note L = boot_layout_facts [OF lay] and sz = setup_size [OF M, of K, folded p_def]
  have E: "unat ?E = unat K + unat ?S" using L(6) sz(3) by (subst unat_add_lem [THEN iffD1]) simp_all
  have E1: "unat (?E - 0x100000) = unat ?E - 0x100000" using L(4) E by (subst unat_sub) (simp_all add: word_le_nat_alt)
  have len64: "unat (of_nat (24 * n) :: u64) = 24 * n" using L(8) by (intro unat_of_nat_small) simp
  have nz: "(of_nat (24 * n) :: u64) \<noteq> 0" using len64 L(1) by (metis mult_pos_pos unat_0 zero_less_numeral less_numeral_extra(3))
  have u3: "pmm_used p (pmm_deinit_region p 0 0x100000 m) b \<longleftrightarrow> pmm_used p m b \<or> page_touches 0 0x100000 b \<and> b < ?max" for m
    using deinit_region_used [OF _ b, of 0 "0x100000" p m] by (auto simp: page_touches_def)
  have u4: "pmm_used p (pmm_deinit_region p 0x100000 (?E - 0x100000) m) b \<longleftrightarrow>
      pmm_used p m b \<or> page_touches 0x100000 (unat ?E - 0x100000) b \<and> b < ?max" for m
    using deinit_region_used [OF _ b, of "0x100000" "?E - 0x100000" p m] E1 E L(6) sz(3) by (auto simp: page_touches_def)
  have u5: "pmm_used p (pmm_deinit_region p mbd 118 m) b \<longleftrightarrow> pmm_used p m b \<or> page_touches (unat mbd) 118 b \<and> b < ?max" for m
    using deinit_region_used [OF _ b, of mbd 118 p m] L(7) by (auto simp: page_touches_def)
  have u6: "pmm_used p (pmm_deinit_region p ?A (of_nat (24 * n)) m) b \<longleftrightarrow>
      pmm_used p m b \<or> page_touches (unat (mmap_addr info)) (24 * n) b \<and> b < ?max" for m
    using deinit_region_used [OF _ b, of ?A "of_nat (24 * n)" p m] L(8,9) len64 nz
    by (auto simp: page_touches_def simp del: of_nat_mult)
  have res: "page_touches 0 0x100000 b \<or> page_touches 0x100000 (unat ?E - 0x100000) b \<longleftrightarrow>
      page_touches 0 (unat K + unat ?S) b"
    using E L(4) by (auto simp: page_touches_def)
  have K: "pmm_bitmap p = K" by (simp add: p_def)
  show ?thesis unfolding reserve_all_def u6 u5 u4 u3 boot_reserved_def K using res by blast
qed

lemma map_end_offset:
  assumes "boot_layout info n mbd K m"
  shows "ucast (mmap_addr info + of_nat (24 * n)) - ucast (mmap_addr info) = (of_nat (24 * n) :: u64)"
proof -
  note L = boot_layout_facts [OF assms]
  have "unat (ucast (mmap_addr info + of_nat (24 * n)) :: u64) = unat (mmap_addr info) + 24 * n"
    using map_end [OF L(8)] L(8) by (simp add: unat_ucast_mod del: of_nat_mult)
  then have "ucast (mmap_addr info + of_nat (24 * n)) = (of_nat (unat (mmap_addr info) + 24 * n) :: u64)"
    by (metis of_nat_unat ucast_id)
  then show ?thesis by simp
qed

lemma populate_result:
  assumes lay: "boot_layout info n mbd K m" and M: "unat M \<le> 2 ^ 52"
  defines "p \<equiv> pmm_setup M K"
  shows "\<exists>m'. pmm_populate info mbd p m = Some m' \<and>
    (\<forall>b < 64 * bitmap_words p. pmm_used p m' b \<longleftrightarrow>
       \<not> (b < unat (pmm_max_blocks p) \<and> avail_from m (ucast (mmap_addr info)) 0 n b) \<or>
       b < unat (pmm_max_blocks p) \<and> boot_reserved info n mbd p b)"
proof -
  let ?A = "ucast (mmap_addr info) :: u64" and ?max = "unat (pmm_max_blocks p)"
  have max: "?max \<le> 2 ^ 40" using M by (simp add: p_def setup_blocks)
  obtain m2 where m2: "mmap_release p (ucast (mmap_addr info + of_nat (24 * n))) ?A (memset m K 0xFF (pmm_bitmap_size p)) = Some m2"
    and used2: "\<And>b. b < 64 * bitmap_words p \<Longrightarrow> pmm_used p m2 b \<longleftrightarrow> \<not> (b < ?max \<and> avail_from m ?A 0 n b)"
    using release_all [OF lay M] unfolding p_def by blast
  let ?m = "reserve_all info n mbd K p m2"
  have "pmm_populate info mbd p m = Some (seal_tail p ?m)"
    using m2 boot_layout_facts(3) [OF lay] map_end_offset [OF lay]
    by (simp add: pmm_populate_def Let_def reserve_all_def p_def del: of_nat_mult)
  moreover have "pmm_used p (seal_tail p ?m) b \<longleftrightarrow>
       \<not> (b < ?max \<and> avail_from m ?A 0 n b) \<or> b < ?max \<and> boot_reserved info n mbd p b"
    if b: "b < 64 * bitmap_words p" for b
  proof -
    have b64: "b < 2 ^ 64" using b max by (simp add: bitmap_words_def)
    note u = reserve_all_used [OF lay M b64, folded p_def, of m2]
    have "?max \<le> b \<Longrightarrow> pmm_used p ?m b" using used2 [OF b] u by auto
    then have "pmm_used p (seal_tail p ?m) b \<longleftrightarrow> pmm_used p ?m b" using seal_used [OF max b64, of ?m] by blast
    then show ?thesis using u used2 [OF b] by blast
  qed
  ultimately show ?thesis by blast
qed

lemma pmm_init_result:
  assumes lay: "boot_layout info n mbd K m"
  shows "\<exists>p m'. pmm_init info mbd K m = Some (Inr (p, m')) \<and> pmm_ok (p, m') \<and>
    pmm_bitmap p = K \<and>
    free_pages (p, m') =
      {b. avail_from m (ucast (mmap_addr info)) 0 n b \<and> \<not> boot_reserved info n mbd p b}"
proof -
  let ?a = "mmap_addr info"
  have bm: "boot_map m ?a n" and len: "mmap_length info = of_nat (24 * n)"
    and fl: "flags info AND MULTIBOOT_INFO_MEM_MAP \<noteq> 0" and lo: "0x100000 \<le> unat K"
    using lay by (simp_all add: boot_layout_def)
  obtain M where M: "mmap_scan m (?a + of_nat (24 * n)) (ucast ?a) 0 = Some (Inr M)"
    "unat M \<le> 2 ^ 52" "bounds_map m (ucast ?a) 0 n (unat M)"
    using scan_result [OF bm, of 0 0] by (auto simp: map_entry_def)
  define p where "p = pmm_setup M K"
  let ?max = "unat (pmm_max_blocks p)"
  obtain m' where m': "pmm_populate info mbd p m = Some m'"
    and used: "\<And>b. b < 64 * bitmap_words p \<Longrightarrow> pmm_used p m' b \<longleftrightarrow>
       \<not> (b < ?max \<and> avail_from m (ucast ?a) 0 n b) \<or>
       b < ?max \<and> boot_reserved info n mbd p b"
    using populate_result [OF lay M(2), folded p_def] by blast
  have max: "?max \<le> 2 ^ 40" "?max = unat M div 4096"
    using M(2) by (simp_all add: p_def setup_blocks)
  have lt: "b < 64 * bitmap_words p" if "b < ?max" for b
    using that by (simp add: bitmap_words_def)
  have below: "b < ?max" if "avail_from m (ucast ?a) 0 n b" for b
  proof -
    have "4096 * b + 4096 \<le> unat M"
      using that M(3) by (fastforce simp: avail_from_def bounds_map_def page_in_def)
    then show ?thesis unfolding max by linarith
  qed
  have zero: "boot_reserved info n mbd p 0"
    using lo by (simp add: boot_reserved_def page_touches_def p_def)
  have "pmm_init info mbd K m = Some (Inr (p, m'))"
    using fl M(1) m' by (simp add: pmm_init_def len p_def del: of_nat_mult)
  moreover have "pmm_ok (p, m')"
    using max used lt zero by (auto simp: pmm_ok_def Let_def p_def)
  moreover have "free_pages (p, m') =
      {b. avail_from m (ucast ?a) 0 n b \<and> \<not> boot_reserved info n mbd p b}"
    using used lt below by (auto simp: free_pages_def)
  ultimately show ?thesis by (auto simp: p_def)
qed

section \<open>From the boot loader's tags to free pages\<close>

text \<open>
  The boot loader's tags \<open>ts\<close> at \<open>a\<close> and the kernel's static data: \<^verbatim>\<open>g_mmap_buffer\<close> below 4 GB and
  below the kernel's end \<open>K\<close>, the memory map not empty, its available ranges ending below 2^52.
\<close>

definition loader_layout :: "mem \<Rightarrow> u32 \<Rightarrow> boot_tag list \<Rightarrow> u64 \<Rightarrow> u64 \<Rightarrow> u64 \<Rightarrow> bool" where
  "loader_layout m a ts buf mbd K \<longleftrightarrow>
     boot_info_at m a ts \<and> info_region m a \<inter> mmap_buffer buf = {} \<and> kept_ranges ts \<noteq> [] \<and>
     (\<forall>(base, len, type) \<in> set (kept_ranges ts). type = 1 \<longrightarrow> unat base + unat len \<le> 2 ^ 52) \<and>
     unat buf + 3072 < 2 ^ 32 \<and> unat buf + 3072 \<le> unat K \<and> 0x100000 \<le> unat K \<and>
     unat K \<le> 2 ^ 52 \<and> unat mbd \<le> 2 ^ 52"

definition available :: "boot_tag list \<Rightarrow> nat \<Rightarrow> bool" where
  "available ts b \<longleftrightarrow>
     (\<exists>(base, len, type) \<in> set (kept_ranges ts). type = 1 \<and> page_in (unat base) (unat len) b)"

lemma kept_at_cong:
  assumes "kept_at m buf rs" "length rs \<le> 128" "\<And>x. x \<in> mmap_buffer buf \<Longrightarrow> m' x = m x"
  shows "kept_at m' buf rs"
proof -
  have "mmap_size m' (map_entry buf i) = mmap_size m (map_entry buf i)"
    "mmap_entry_addr m' (map_entry buf i) = mmap_entry_addr m (map_entry buf i)"
    "mmap_len m' (map_entry buf i) = mmap_len m (map_entry buf i)"
    "mmap_type m' (map_entry buf i) = mmap_type m (map_entry buf i)" if "i < length rs" for i
    using map_fields_frame [where A = buf and n = 128 and m' = m' and m = m and i = i] assms(2,3) that
    by simp_all
  then show ?thesis using assms(1) by (simp add: kept_at_def)
qed

lemma kept_map_wf:
  assumes "kept_at m buf rs"
    and "\<forall>(base, len, type) \<in> set rs. type = 1 \<longrightarrow> unat base + unat len \<le> 2 ^ 52"
  shows "map_wf m buf (length rs)"
  using assms by (fastforce simp: map_wf_def kept_at_def all_set_conv_all_nth)

lemma kept_avail:
  assumes "kept_at m buf (kept_ranges ts)"
  shows "avail_from m buf 0 (length (kept_ranges ts)) b \<longleftrightarrow> available ts b"
  using assms by (fastforce simp: avail_from_def available_def kept_at_def in_set_conv_nth)

lemma kept_nonempty_info:
  assumes "kept_ranges ts \<noteq> []"
  shows "flags (boot_info buf ts) AND MULTIBOOT_INFO_MEM_MAP \<noteq> 0"
    and "mmap_addr (boot_info buf ts) = ucast buf"
proof -
  have "List.map_filter ranges_of ts \<noteq> []"
    using assms by (auto simp: kept_ranges_def all_ranges_def)
  then have "latest ranges_of ts \<noteq> None" by (cases "rev (List.map_filter ranges_of ts)") (simp_all add: latest_def)
  then obtain rs where "latest ranges_of ts = Some rs" by blast
  then show "flags (boot_info buf ts) AND MULTIBOOT_INFO_MEM_MAP \<noteq> 0"
    "mmap_addr (boot_info buf ts) = ucast buf"
    by (simp_all add: boot_info_def flag_if_def zero_mb_info_def)
qed

lemma loader_boot_layout:
  assumes lay: "loader_layout m a ts buf mbd K" and kept: "kept_at m1 buf (kept_ranges ts)"
  shows "boot_layout (boot_info buf ts) (length (kept_ranges ts)) mbd K m1"
    and "ucast (mmap_addr (boot_info buf ts)) = buf"
proof -
  have L: "kept_ranges ts \<noteq> []" "unat buf + 3072 < 2 ^ 32" "unat buf + 3072 \<le> unat K"
    "\<forall>(base, len, type) \<in> set (kept_ranges ts). type = 1 \<longrightarrow> unat base + unat len \<le> 2 ^ 52"
    using lay by (simp_all add: loader_layout_def)
  note info = kept_nonempty_info [OF L(1), of buf]
  have u: "unat (ucast buf :: u32) = unat buf" using L(2) by (simp add: unat_ucast_mod)
  have rt: "ucast (mmap_addr (boot_info buf ts)) = buf"
    using u L(2) unfolding info(2) by (intro word_unat_eq_iff [THEN iffD2]) (simp add: unat_ucast_mod)
  have n: "24 * length (kept_ranges ts) \<le> 3072" using kept_ranges_bound [of ts] by simp
  have "mmap_length (boot_info buf ts) = of_nat (24 * length (kept_ranges ts))"
    by (simp add: boot_info_def)
  moreover have "boot_map m1 (ucast buf) (length (kept_ranges ts))"
    using kept_map_wf [OF kept L(4)] n L(2) u rt by (simp add: boot_map_def info(2))
  ultimately show "boot_layout (boot_info buf ts) (length (kept_ranges ts)) mbd K m1"
    using lay L n u info by (simp add: boot_layout_def loader_layout_def)
  show "ucast (mmap_addr (boot_info buf ts)) = buf" by (rule rt)
qed

section \<open>Properties\<close>

text \<open>A small allocator state for the witnesses: 64 pages, of which 1 and 2 are free.\<close>

definition demo_pmm :: "pmm \<times> mem" where
  "demo_pmm = (\<lparr>pmm_bitmap = 0x1000, pmm_max_blocks = 64, pmm_bitmap_size = 4096,
     pmm_hint_word = 0\<rparr>, wr64 (\<lambda>_. 0) 0x1000 (NOT 6))"

lemma demo_pmm_used: "b < 64 \<Longrightarrow> pmm_used (fst demo_pmm) (snd demo_pmm) b \<longleftrightarrow> b \<noteq> 1 \<and> b \<noteq> 2"
proof -
  assume b: "b < 64"
  have "pmm_used (fst demo_pmm) (snd demo_pmm) b \<longleftrightarrow> bit (NOT 6 :: u64) b"
    using b bit_bitmap_word [of "snd demo_pmm" "fst demo_pmm" 0 b]
    by (simp add: demo_pmm_def rd64_wr64)
  also have "\<dots> \<longleftrightarrow> b \<noteq> 1 \<and> b \<noteq> 2"
  proof -
    have "bit (6 :: u64) b \<longleftrightarrow> b = 1 \<or> b = 2"
    proof -
      have "(6 :: u64) = push_bit 1 1 OR push_bit 2 1" by simp
      then show ?thesis by (simp only: bit_or_iff bit_push_one) auto
    qed
    moreover have "bit (NOT 6 :: u64) b \<longleftrightarrow> \<not> bit (6 :: u64) b"
      using b by (simp only: bit_not_iff) simp
    ultimately show ?thesis by simp
  qed
  finally show ?thesis .
qed

lemma demo_pmm_ok: "pmm_ok demo_pmm"
  using demo_pmm_used by (auto simp: pmm_ok_def Let_def bitmap_words_def demo_pmm_def)

lemma demo_pmm_free: "free_pages demo_pmm = {1, 2}"
  using demo_pmm_used by (auto simp: free_pages_def demo_pmm_def)

text \<open>
  C5: \<^verbatim>\<open>pmm_alloc_page\<close> on a well-formed allocator returns the null pointer exactly when no
  page is free, and then changes nothing; otherwise it returns the address of a page that
  was free, takes exactly that page out of the free set, keeps the invariant, and writes no
  byte outside the bitmap.
\<close>

theorem pmm_alloc_page_correct:
  assumes "pmm_ok s" and "pmm_alloc_page s = (a, s')"
  shows "if free_pages s = {} then a = 0 \<and> s' = s
    else a \<noteq> 0 \<and> pmm_ok s' \<and>
      (\<exists>b \<in> free_pages s. a = of_nat (b * 4096) \<and> free_pages s' = free_pages s - {b}) \<and>
      (\<forall>x. x \<notin> bitmap_region (fst s) \<longrightarrow> snd s' x = snd s x)"
  using pmm.alloc_none [OF assms(1)] pmm.alloc_some [OF assms(1) _ assms(2)]
    pmm.alloc_frame [OF assms] pmm.alloc_null_iff [OF assms(1)] assms(2)
  by auto

theorem pmm_alloc_page_correct_witness:
  "fst (pmm_alloc_page demo_pmm) \<noteq> 0 \<and> pmm_ok (snd (pmm_alloc_page demo_pmm))"
  using pmm_alloc_page_correct [OF demo_pmm_ok, of "fst (pmm_alloc_page demo_pmm)"
      "snd (pmm_alloc_page demo_pmm)"]
  by (simp add: demo_pmm_free)

text \<open>
  C6: as many allocations in a row as there are free pages all succeed, and their addresses
  are distinct, non-null, page aligned and taken from the free set.
\<close>

theorem pmm_alloc_pages_distinct:
  assumes "pmm_ok s" "n \<le> card (free_pages s)" "alloc_many pmm_alloc_page n s = (as, s')"
  shows "length as = n \<and> distinct as \<and> 0 \<notin> set as \<and>
    (\<forall>a \<in> set as. \<exists>b \<in> free_pages s - free_pages s'. a = of_nat (b * 4096)) \<and>
    card (free_pages s') = card (free_pages s) - n \<and> pmm_ok s'"
proof -
  have fin: "finite (free_pages s)" by (simp add: free_pages_def)
  obtain bs where bs: "as = map (\<lambda>b. of_nat (b * 4096)) bs" "length bs = n" "distinct bs"
    "set bs \<subseteq> free_pages s" "free_pages s' = free_pages s - set bs" "pmm_ok s'"
    using pmm.alloc_many_distinct [OF assms(1) fin assms(2,3)] by blast
  have small: "0 < b \<and> b < 2 ^ 40" if "b \<in> set bs" for b
    using free_pages_small [OF assms(1)] bs(4) that by blast
  have "distinct as"
    unfolding bs(1) distinct_map using bs(3) small pmm.page_addr_inject by (auto simp: inj_on_def)
  moreover have "0 \<notin> set as"
    using small pmm.page_addr_nonzero unfolding bs(1) by fastforce
  moreover have "card (free_pages s') = card (free_pages s) - n"
    using bs(2-5) fin by (simp add: card_Diff_subset distinct_card)
  moreover have "\<forall>a \<in> set as. \<exists>b \<in> free_pages s - free_pages s'. a = of_nat (b * 4096)"
    using bs(1,4,5) by auto
  ultimately show ?thesis using bs(1,2,6) by simp
qed

theorem pmm_alloc_pages_distinct_witness:
  "\<exists>as s'. alloc_many pmm_alloc_page 2 demo_pmm = (as, s') \<and> length as = 2 \<and> distinct as \<and> 0 \<notin> set as"
proof -
  obtain as s' where r: "alloc_many pmm_alloc_page 2 demo_pmm = (as, s')"
    using prod.exhaust by blast
  have "2 \<le> card (free_pages demo_pmm)" by (simp add: demo_pmm_free)
  from pmm_alloc_pages_distinct [OF demo_pmm_ok this r] r show ?thesis by blast
qed

text \<open>
  C7: \<^verbatim>\<open>pmm_free_page\<close> gives back what \<^verbatim>\<open>pmm_alloc_page\<close> took: freeing the page just
  allocated restores the set of free pages and the invariant.
\<close>

theorem pmm_alloc_free_roundtrip:
  assumes "pmm_ok s" "pmm_alloc_page s = (a, s')" "a \<noteq> 0"
  shows "free_pages (pmm_free_page a s') = free_pages s"
  by (rule pmm.alloc_release [OF assms])

theorem pmm_alloc_free_roundtrip_witness:
  "free_pages (pmm_free_page (fst (pmm_alloc_page demo_pmm)) (snd (pmm_alloc_page demo_pmm))) = {1, 2}"
  using pmm_alloc_free_roundtrip [OF demo_pmm_ok, of "fst (pmm_alloc_page demo_pmm)"
      "snd (pmm_alloc_page demo_pmm)"] pmm.alloc_null_iff [OF demo_pmm_ok]
  by (simp add: demo_pmm_free)

text \<open>
  C8: the memory the boot loader describes becomes the memory the allocator hands out. From a
  well-formed Multiboot2 structure the conversion returns, and \<^verbatim>\<open>pmm_init\<close>, run on any memory in
  which \<^verbatim>\<open>g_mmap_buffer\<close> is as the conversion left it, returns a well-formed allocator whose free
  pages are exactly the pages that lie inside an available range of the tags and touch neither the
  memory up to the end of the bitmap, nor \<^verbatim>\<open>g_mb_info\<close>, nor the kept map.
\<close>

theorem loader_map_becomes_free_pages:
  assumes "loader_layout m mb2_addr ts buf mbd K"
  shows "\<exists>s. convert_mb2_to_mb1 buf mb2_addr m = Some (Inr s) \<and>
    (\<forall>m1. (\<forall>x \<in> mmap_buffer buf. m1 x = bmem s x) \<longrightarrow>
      (\<exists>p m'. pmm_init (g_mb_info s) mbd K m1 = Some (Inr (p, m')) \<and> pmm_ok (p, m') \<and>
         pmm_bitmap p = K \<and> free_pages (p, m') = {b. available ts b \<and>
           \<not> boot_reserved (boot_info buf ts) (length (kept_ranges ts)) mbd p b}))"
proof -
  obtain s where s: "convert_mb2_to_mb1 buf mb2_addr m = Some (Inr s)" "g_mb_info s = boot_info buf ts"
    "kept_at (bmem s) buf (kept_ranges ts)"
    using assms convert_result [of m mb2_addr ts buf] by (auto simp: loader_layout_def walked_def)
  have "\<exists>p m'. pmm_init (g_mb_info s) mbd K m1 = Some (Inr (p, m')) \<and> pmm_ok (p, m') \<and>
      pmm_bitmap p = K \<and> free_pages (p, m') = {b. available ts b \<and>
        \<not> boot_reserved (boot_info buf ts) (length (kept_ranges ts)) mbd p b}"
    if "\<forall>x \<in> mmap_buffer buf. m1 x = bmem s x" for m1
  proof -
    have k: "kept_at m1 buf (kept_ranges ts)"
      using s(3) kept_ranges_bound that by (intro kept_at_cong [OF s(3)]) auto
    from pmm_init_result [OF loader_boot_layout(1) [OF assms k]] show ?thesis
      by (simp add: s(2) loader_boot_layout(2) [OF assms k] kept_avail [OF k])
  qed
  then show ?thesis using s(1) by blast
qed

theorem loader_map_becomes_free_pages_witness:
  "\<exists>s p m'. convert_mb2_to_mb1 0x200000 0x9000 demo_boot_mem = Some (Inr s) \<and>
     pmm_init (g_mb_info s) 0x201000 0x300000 (bmem s) = Some (Inr (p, m')) \<and> pmm_ok (p, m')"
proof -
  have "kept_ranges demo_tags = [(0x100000, 0x4000000, 1)]"
    by (simp add: kept_ranges_def all_ranges_def demo_tags_def map_filter_def)
  then have "loader_layout demo_boot_mem 0x9000 demo_tags 0x200000 0x201000 0x300000"
    using demo_boot_at demo_boot_apart by (simp add: loader_layout_def)
  from loader_map_becomes_free_pages [OF this] show ?thesis by blast
qed

text \<open>
  \<^verbatim>\<open>pmm_free_page\<close> does not refuse the null pointer: it marks page 0 free and moves the
  search back to it, so the next \<^verbatim>\<open>pmm_alloc_page\<close> takes page 0 and returns the null pointer,
  its failure value, however many pages are free.
\<close>

theorem pmm_free_null_then_alloc_fails:
  assumes "pmm_ok (p, m)" "0 < pmm_max_blocks p"
  shows "fst (pmm_alloc_page (pmm_free_page 0 (p, m))) = 0"
proof -
  let ?m = "pmm_clear_bit p 0 m" and ?p = "p\<lparr>pmm_hint_word := 0\<rparr>"
  have fr: "pmm_free_page 0 (p, m) = (?p, ?m)"
    using assms(2) by (auto simp: pmm_free_page_def Let_def word_gt_0)
  have "\<not> pmm_used p ?m 0" using used_clear_bit [of 0 p 0 m] by simp
  then have "\<not> bit (rd64 ?m (pmm_bitmap p)) 0" using bit_bitmap_word [of ?m p 0 0] by simp
  then have b0: "bit (NOT (rd64 ?m (pmm_bitmap p))) 0" by (simp add: bit_not_iff)
  then have ne: "NOT (rd64 ?m (pmm_bitmap p)) \<noteq> 0" by auto
  have "ctz (NOT (rd64 ?m (pmm_bitmap p))) = 0"
    using ctz_bit(3) [OF ne, of 0] b0 by blast
  moreover have "rd64 ?m (pmm_bitmap p) \<noteq> NOT 0" using ne by (metis bit.double_compl)
  ultimately obtain q where "pmm_try_word ?p ?m 0 = Return (0, q)"
    by (simp add: pmm_try_word_def Let_def)
  moreover have "0 < (pmm_max_blocks p + 63) div 64"
    using assms unat_bitmap_words [of p]
    by (simp add: pmm_ok_def Let_def word_less_nat_alt bitmap_words_def)
  ultimately show ?thesis
    using assms(2) unfolding fr by (simp add: pmm_alloc_page_def for_ctl.simps [of 0])
qed

theorem pmm_free_null_then_alloc_fails_witness:
  "free_pages demo_pmm = {1, 2} \<and> fst (pmm_alloc_page (pmm_free_page 0 demo_pmm)) = 0"
  using pmm_free_null_then_alloc_fails [of "fst demo_pmm" "snd demo_pmm"] demo_pmm_ok demo_pmm_free
  by (simp add: demo_pmm_def)

end
