(* ===== verification/Vmm.thy ===== *)
theory Vmm
  imports Pmm
begin

text \<open>
  Paging, \<^verbatim>\<open>src/kernel/memory/vmm.c\<close>: mapping 4 KB, 2 MB and 1 GB pages in the four-level
  page tables, which are plain memory. Missing tables are taken from the page allocator.
  \<open>pml4\<close> is the address of the root table (a symbol of \<^verbatim>\<open>src/boot/bootmain.s\<close>); the
  addresses handed to \<^verbatim>\<open>invlpg\<close> are recorded in \<open>invlpg\<close>.

  The specification is the page walk of the processor, \<open>translate\<close>. The invariant \<open>pt_ok\<close>
  says that the tables form a tree of distinct pages that the allocator does not regard as
  free; the allocator is used through the facts of \<open>page_source\<close> only.
\<close>

section \<open>Tables and entries\<close>

abbreviation PAGE_PRESENT :: u64 where "PAGE_PRESENT \<equiv> 0x1"
abbreviation PAGE_WRITABLE :: u64 where "PAGE_WRITABLE \<equiv> 0x2"
abbreviation PAGE_USER :: u64 where "PAGE_USER \<equiv> 0x4"
abbreviation PAGE_CACHE_DISABLE :: u64 where "PAGE_CACHE_DISABLE \<equiv> 0x10"
abbreviation PAGE_PS :: u64 where "PAGE_PS \<equiv> 0x80"
definition PTE_ADDR_MASK :: u64 where "PTE_ADDR_MASK = 0x000FFFFFFFFFF000"
definition PAGE_2M_MASK :: u64 where "PAGE_2M_MASK = NOT (0x200000 - 1)"
definition PAGE_1G_MASK :: u64 where "PAGE_1G_MASK = NOT (0x40000000 - 1)"

definition PML4_INDEX :: "u64 \<Rightarrow> u64" where "PML4_INDEX a = drop_bit 39 a AND 0x1FF"
definition PDPT_INDEX :: "u64 \<Rightarrow> u64" where "PDPT_INDEX a = drop_bit 30 a AND 0x1FF"
definition PD_INDEX :: "u64 \<Rightarrow> u64" where "PD_INDEX a = drop_bit 21 a AND 0x1FF"
definition PT_INDEX :: "u64 \<Rightarrow> u64" where "PT_INDEX a = drop_bit 12 a AND 0x1FF"

record vm =
  vpmm :: pmm
  vmem :: mem
  invlpg :: "u64 list"

definition vmm_next_table :: "u64 \<Rightarrow> u64 \<Rightarrow> vm \<Rightarrow> u64 \<times> vm" where
  "vmm_next_table table idx s =
     (let entry = rd64 (vmem s) (table + 8 * idx)
      in if entry AND PAGE_PRESENT \<noteq> 0 then
           if entry AND PAGE_PS \<noteq> 0 then (0, s) else (entry AND PTE_ADDR_MASK, s)
         else
           let (new_table, p, m) = pmm_alloc_page (vpmm s, vmem s)
           in if new_table = 0 then (0, s\<lparr>vpmm := p, vmem := m\<rparr>)
              else
                let m = memset m new_table 0 4096;
                    m = wr64 m (table + 8 * idx)
                          ((new_table AND PTE_ADDR_MASK) OR PAGE_PRESENT OR PAGE_WRITABLE OR PAGE_USER)
                in (new_table, s\<lparr>vpmm := p, vmem := m\<rparr>))"

definition vmm_flush :: "u64 \<Rightarrow> u64 \<Rightarrow> u64 \<Rightarrow> vm \<Rightarrow> vm" where
  "vmm_flush virt old_entry new_entry s =
     (if old_entry \<noteq> new_entry then s\<lparr>invlpg := virt # invlpg s\<rparr> else s)"

text \<open>The common end of the three mapping functions: write one entry and flush.\<close>

definition vmm_set_entry :: "u64 \<Rightarrow> u64 \<Rightarrow> u64 \<Rightarrow> vm \<Rightarrow> vm" where
  "vmm_set_entry virt addr new_entry s =
     (let old_entry = rd64 (vmem s) addr
      in vmm_flush virt old_entry new_entry (s\<lparr>vmem := wr64 (vmem s) addr new_entry\<rparr>))"

text \<open>The values of \<^verbatim>\<open>new_entry\<close>, for 4 KB pages and for the two huge sizes.\<close>

definition page_entry :: "u64 \<Rightarrow> u64 \<Rightarrow> u64" where
  "page_entry phys fl = (phys AND PTE_ADDR_MASK) OR PAGE_PRESENT OR (fl AND NOT PAGE_PS)"

definition huge_entry :: "u64 \<Rightarrow> u64 \<Rightarrow> u64" where
  "huge_entry phys fl = (phys AND PTE_ADDR_MASK) OR PAGE_PRESENT OR PAGE_PS OR (fl AND NOT PAGE_PS)"

definition vmm_map_page :: "u64 \<Rightarrow> u64 \<Rightarrow> u64 \<Rightarrow> u64 \<Rightarrow> vm \<Rightarrow> vm" where
  "vmm_map_page pml4 virt phys fl s =
     (let (pdpt, s) = vmm_next_table pml4 (PML4_INDEX virt) s
      in if pdpt = 0 then s else
      let (pd, s) = vmm_next_table pdpt (PDPT_INDEX virt) s
      in if pd = 0 then s else
      let (pt, s) = vmm_next_table pd (PD_INDEX virt) s
      in if pt = 0 then s else
      vmm_set_entry virt (pt + 8 * PT_INDEX virt)
        (page_entry phys fl) s)"

definition vmm_map_huge_2mb :: "u64 \<Rightarrow> u64 \<Rightarrow> u64 \<Rightarrow> u64 \<Rightarrow> vm \<Rightarrow> vm" where
  "vmm_map_huge_2mb pml4 virt phys fl s =
     (if virt AND NOT PAGE_2M_MASK \<noteq> 0 \<or> phys AND NOT PAGE_2M_MASK \<noteq> 0 then s else
      let (pdpt, s) = vmm_next_table pml4 (PML4_INDEX virt) s
      in if pdpt = 0 then s else
      let (pd, s) = vmm_next_table pdpt (PDPT_INDEX virt) s
      in if pd = 0 then s else
      vmm_set_entry virt (pd + 8 * PD_INDEX virt)
        (huge_entry phys fl) s)"

definition vmm_map_huge_1gb :: "u64 \<Rightarrow> u64 \<Rightarrow> u64 \<Rightarrow> u64 \<Rightarrow> vm \<Rightarrow> vm" where
  "vmm_map_huge_1gb pml4 virt phys fl s =
     (if virt AND NOT PAGE_1G_MASK \<noteq> 0 \<or> phys AND NOT PAGE_1G_MASK \<noteq> 0 then s else
      let (pdpt, s) = vmm_next_table pml4 (PML4_INDEX virt) s
      in if pdpt = 0 then s else
      vmm_set_entry virt (pdpt + 8 * PDPT_INDEX virt)
        (huge_entry phys fl) s)"

section \<open>The page walk\<close>

text \<open>
  A path is the list of the indices taken, last one first. \<open>table_at\<close> is the table a path
  leads to, \<open>live\<close> the present entry at an index of that table.
\<close>

definition next_of :: "u64 \<Rightarrow> u64 option" where
  "next_of e = (if e AND PAGE_PRESENT \<noteq> 0 \<and> e AND PAGE_PS = 0 then Some (e AND PTE_ADDR_MASK) else None)"

fun table_at :: "mem \<Rightarrow> u64 \<Rightarrow> u64 list \<Rightarrow> u64 option" where
  "table_at m root [] = Some root"
| "table_at m root (i # up) =
     (case table_at m root up of None \<Rightarrow> None | Some t \<Rightarrow> next_of (rd64 m (t + 8 * i)))"

definition live :: "mem \<Rightarrow> u64 \<Rightarrow> u64 list \<Rightarrow> u64 \<Rightarrow> u64 option" where
  "live m root up i =
     (case table_at m root up of
        None \<Rightarrow> None
      | Some t \<Rightarrow> let e = rd64 m (t + 8 * i) in if e AND PAGE_PRESENT \<noteq> 0 then Some e else None)"

text \<open>
  The processor's translation of a virtual address, from the entries \<open>l3\<close>, \<open>l2\<close>, \<open>l1\<close> found in
  the page directory pointer table, the page directory and the page table.
\<close>

definition walk :: "u64 option \<Rightarrow> u64 option \<Rightarrow> u64 option \<Rightarrow> u64 \<Rightarrow> u64 option" where
  "walk l3 l2 l1 v =
     (case l3 of
        None \<Rightarrow> None
      | Some e3 \<Rightarrow>
          if e3 AND PAGE_PS \<noteq> 0
          then Some ((e3 AND PTE_ADDR_MASK AND PAGE_1G_MASK) OR (v AND NOT PAGE_1G_MASK))
          else (case l2 of
            None \<Rightarrow> None
          | Some e2 \<Rightarrow>
              if e2 AND PAGE_PS \<noteq> 0
              then Some ((e2 AND PTE_ADDR_MASK AND PAGE_2M_MASK) OR (v AND NOT PAGE_2M_MASK))
              else (case l1 of
                None \<Rightarrow> None
              | Some e1 \<Rightarrow> Some ((e1 AND PTE_ADDR_MASK) OR (v AND 0xFFF)))))"

definition translate :: "mem \<Rightarrow> u64 \<Rightarrow> u64 \<Rightarrow> u64 option" where
  "translate m root v =
     walk (live m root [PML4_INDEX v] (PDPT_INDEX v))
       (live m root [PDPT_INDEX v, PML4_INDEX v] (PD_INDEX v))
       (live m root [PD_INDEX v, PDPT_INDEX v, PML4_INDEX v] (PT_INDEX v)) v"

text \<open>
  The invariant. Paths of up to three indices below 512 are the paths to tables; different
  paths lead to different tables, and neither a free page nor the bitmap overlaps a table.
\<close>

definition path_ok :: "u64 list \<Rightarrow> bool" where
  "path_ok up \<longleftrightarrow> length up \<le> 3 \<and> (\<forall>i \<in> set up. i < 512)"

definition page_of :: "u64 \<Rightarrow> nat" where "page_of t = unat t div 4096"

definition page_aligned :: "u64 \<Rightarrow> bool" where "page_aligned t \<longleftrightarrow> unat t mod 4096 = 0"

definition pt_tree :: "mem \<Rightarrow> u64 \<Rightarrow> bool" where
  "pt_tree m root \<longleftrightarrow> page_aligned root \<and>
     (\<forall>up up' t. path_ok up \<longrightarrow> path_ok up' \<longrightarrow> table_at m root up = Some t \<longrightarrow>
        table_at m root up' = Some t \<longrightarrow> up = up')"

definition pt_ok :: "u64 \<Rightarrow> vm \<Rightarrow> bool" where
  "pt_ok root s \<longleftrightarrow>
     pmm_ok (vpmm s, vmem s) \<and> pt_tree (vmem s) root \<and>
     (\<forall>up t. path_ok up \<longrightarrow> table_at (vmem s) root up = Some t \<longrightarrow>
        page_of t \<notin> free_pages (vpmm s, vmem s) \<and>
        region t 4096 \<inter> bitmap_region (vpmm s) = {}) \<and>
     (\<forall>b \<in> free_pages (vpmm s, vmem s).
        region (of_nat (b * 4096)) 4096 \<inter> bitmap_region (vpmm s) = {})"

section \<open>Pages and entries in memory\<close>

lemma path_ok_Cons [simp]: "path_ok (i # up) \<longleftrightarrow> i < 512 \<and> path_ok up \<and> length up < 3"
  by (auto simp: path_ok_def)

lemma path_ok_Nil [simp]: "path_ok []"
  by (simp add: path_ok_def)

lemma bit_pte_mask: "bit PTE_ADDR_MASK n \<longleftrightarrow> 12 \<le> n \<and> n < 52"
proof -
  have e: "PTE_ADDR_MASK = push_bit 12 (mask 40)"
    by (simp add: PTE_ADDR_MASK_def mask_eq_exp_minus_1 push_bit_eq_mult)
  show ?thesis unfolding e by (auto simp: bit_push_bit_iff bit_mask_iff simp del: push_bit_mask_eq)
qed

lemma unat_and_pte_mask: "unat (e AND PTE_ADDR_MASK) mod 4096 = 0"
proof -
  have "(e AND PTE_ADDR_MASK) = (e AND PTE_ADDR_MASK) AND NOT (mask 12)"
    by (rule bit_word_eqI) (auto simp: bit_and_iff bit_not_iff bit_mask_iff bit_pte_mask)
  then have "unat (e AND PTE_ADDR_MASK) = 2 ^ 12 * (unat (e AND PTE_ADDR_MASK) div 2 ^ 12)"
    using unat_and_not_mask [of 12 "e AND PTE_ADDR_MASK"] by simp
  then have "4096 dvd unat (e AND PTE_ADDR_MASK)" by (simp add: dvd_def) blast
  then show ?thesis by simp
qed

lemma aligned_fits:
  assumes "page_aligned t" shows "unat t + 4096 \<le> 2 ^ 64"
proof -
  obtain k where k: "unat t = 4096 * k" using assms by (auto simp: page_aligned_def)
  have "4096 * k < 4096 * 2 ^ 52" using unat_bound [of t] unfolding k by simp
  then have "Suc k \<le> 2 ^ 52" by simp
  then have "4096 * Suc k \<le> 4096 * 2 ^ 52" by (rule mult_le_mono2)
  then show ?thesis unfolding k by simp
qed

lemma page_of_aligned: "page_aligned t \<Longrightarrow> unat t = page_of t * 4096"
  by (auto simp: page_aligned_def page_of_def)

lemma aligned_page_disjoint:
  assumes "page_aligned t" "page_aligned u" "t \<noteq> u"
  shows "region t 4096 \<inter> region u 4096 = {}"
proof -
  have "page_of t \<noteq> page_of u"
    using assms page_of_aligned by (metis word_unat_eq_iff)
  then have "page_of t + 1 \<le> page_of u \<or> page_of u + 1 \<le> page_of t" by linarith
  then have "unat t + 4096 \<le> unat u \<or> unat u + 4096 \<le> unat t"
    using page_of_aligned [OF assms(1)] page_of_aligned [OF assms(2)] by linarith
  then show ?thesis
    using region_disjoint [of t 4096 u 4096] region_disjoint [of u 4096 t 4096]
      aligned_fits assms by blast
qed

lemma next_of_aligned: "next_of e = Some t \<Longrightarrow> page_aligned t"
  by (auto simp: next_of_def page_aligned_def unat_and_pte_mask split: if_splits)

lemma table_at_aligned: "page_aligned root \<Longrightarrow> table_at m root up = Some t \<Longrightarrow> page_aligned t"
  by (cases up) (auto dest: next_of_aligned split: option.splits)

lemma unat_entry:
  assumes "page_aligned t" "i < 512"
  shows "unat (t + 8 * i) = unat t + 8 * unat i"
proof -
  have i: "unat i < 512" using assms(2) by (simp add: word_less_nat_alt)
  have "t + 8 * i = t + of_nat (8 * unat i)" by simp
  moreover have "unat (t + of_nat (8 * unat i)) = unat t + 8 * unat i"
    using aligned_fits [OF assms(1)] i by (intro unat_add_of_nat) simp
  ultimately show ?thesis by simp
qed

lemma entry_in_table:
  assumes "page_aligned t" "i < 512"
  shows "region (t + 8 * i) 8 \<subseteq> region t 4096"
proof
  fix x assume x: "x \<in> region (t + 8 * i) 8"
  have i: "unat i < 512" using assms(2) by (simp add: word_less_nat_alt)
  obtain k where k: "k < 8" "x = t + 8 * i + of_nat k" using region_nth [OF x] by blast
  have "x = t + of_nat (8 * unat i + k)" using k(2) by (simp add: add.assoc)
  moreover have "8 * unat i + k < 4096" using i k(1) by simp
  ultimately show "x \<in> region t 4096" using in_region_add [of "8 * unat i + k" 4096 t] by simp
qed

lemma entry_disjoint:
  assumes "page_aligned t" "page_aligned u" "i < 512" "j < 512" "(t, i) \<noteq> (u, j)"
  shows "region (t + 8 * i) 8 \<inter> region (u + 8 * j) 8 = {}"
proof (cases "t = u")
  case False
  then show ?thesis
    using aligned_page_disjoint [of t u] entry_in_table [of t i] entry_in_table [of u j] assms by blast
next
  case True
  have ij: "unat i < 512" "unat j < 512" using assms(3,4) by (simp_all add: word_less_nat_alt)
  have "unat i \<noteq> unat j" using True assms(5) by (simp add: word_unat_eq_iff)
  then have "unat (t + 8 * i) + 8 \<le> unat (t + 8 * j) \<or> unat (t + 8 * j) + 8 \<le> unat (t + 8 * i)"
    using unat_entry [OF assms(1,3)] unat_entry [OF assms(1,4)] by linarith
  moreover have "unat (t + 8 * i) + 8 \<le> 2 ^ 64" "unat (t + 8 * j) + 8 \<le> 2 ^ 64"
    using unat_entry [OF assms(1,3)] unat_entry [OF assms(1,4)] aligned_fits [OF assms(1)] ij by simp_all
  ultimately show ?thesis unfolding True [symmetric] using region_disjoint by blast
qed

section \<open>Writing one entry\<close>

lemma entry_frame:
  assumes "page_aligned t" "i < 512" "\<And>x. x \<in> region t 4096 \<Longrightarrow> m' x = m x"
  shows "rd64 m' (t + 8 * i) = rd64 m (t + 8 * i)"
proof (rule rd64_cong)
  fix x assume "x \<in> region (t + 8 * i) 8"
  then show "m' x = m x" using entry_in_table [OF assms(1,2)] by (intro assms(3)) blast
qed

text \<open>Memory that agrees on the tables gives the same walk.\<close>

lemma table_at_frame:
  assumes "page_aligned root"
    and "\<And>up t x. path_ok up \<Longrightarrow> table_at m root up = Some t \<Longrightarrow> x \<in> region t 4096 \<Longrightarrow> m' x = m x"
  shows "path_ok up \<Longrightarrow> table_at m' root up = table_at m root up"
proof (induction up)
  case (Cons i up)
  then have IH: "table_at m' root up = table_at m root up" and i: "i < 512" and up: "path_ok up"
    by simp_all
  show ?case
  proof (cases "table_at m root up")
    case (Some t)
    have "rd64 m' (t + 8 * i) = rd64 m (t + 8 * i)"
      by (rule entry_frame [OF table_at_aligned [OF assms(1) Some] i assms(2) [OF up Some]])
    then show ?thesis using IH Some by simp
  qed (simp add: IH)
qed simp

text \<open>Writing entry \<open>i0\<close> of the table at \<open>up0\<close> changes only the paths through that entry.\<close>

fun through :: "u64 list \<Rightarrow> u64 list \<Rightarrow> bool" where
  "through p [] \<longleftrightarrow> p = []"
| "through p (i # up) \<longleftrightarrow> p = i # up \<or> through p up"

lemma through_length: "through p up \<Longrightarrow> length p \<le> length up"
  by (induction up) auto

lemma write_entry_other:
  assumes tree: "pt_tree m root" and up0: "path_ok up0" "table_at m root up0 = Some t0" "i0 < 512"
    and up: "path_ok up" "table_at m root up = Some t" "i < 512" and ne: "(i, up) \<noteq> (i0, up0)"
  shows "rd64 (wr64 m (t0 + 8 * i0) e) (t + 8 * i) = rd64 m (t + 8 * i)"
proof -
  have al: "page_aligned t" "page_aligned t0"
    using tree up up0 table_at_aligned by (auto simp: pt_tree_def)
  have "(t, i) \<noteq> (t0, i0)" using tree up up0 ne unfolding pt_tree_def by blast
  then show ?thesis using al up(3) up0(3) by (intro rd64_wr64_disjoint entry_disjoint) auto
qed

lemma write_entry_path:
  assumes tree: "pt_tree m root" and up0: "path_ok up0" "table_at m root up0 = Some t0" "i0 < 512"
  shows "path_ok up \<Longrightarrow> \<not> through (i0 # up0) up \<Longrightarrow>
    table_at (wr64 m (t0 + 8 * i0) e) root up = table_at m root up"
proof (induction up)
  case (Cons i up)
  then have IH: "table_at (wr64 m (t0 + 8 * i0) e) root up = table_at m root up"
    and ok: "path_ok up" "i < 512" and ne: "(i, up) \<noteq> (i0, up0)"
    by auto
  show ?case
  proof (cases "table_at m root up")
    case (Some t)
    then show ?thesis using IH write_entry_other [OF tree up0 ok(1) Some ok(2) ne] by simp
  qed (simp add: IH)
qed simp

lemma write_entry_self:
  assumes tree: "pt_tree m root" and up0: "path_ok up0" "table_at m root up0 = Some t0" "i0 < 512"
  shows "table_at (wr64 m (t0 + 8 * i0) e) root up0 = Some t0"
    and "table_at (wr64 m (t0 + 8 * i0) e) root (i0 # up0) = next_of e"
proof -
  have "\<not> through (i0 # up0) up0" using through_length [of "i0 # up0" up0] by auto
  then show *: "table_at (wr64 m (t0 + 8 * i0) e) root up0 = Some t0"
    using write_entry_path [OF tree up0 up0(1)] up0(2) by simp
  show "table_at (wr64 m (t0 + 8 * i0) e) root (i0 # up0) = next_of e"
    using * by (simp add: rd64_wr64)
qed

lemma through_None: "table_at m root p = None \<Longrightarrow> through p up \<Longrightarrow> table_at m root up = None"
  by (induction up) auto

section \<open>Descending, with allocation\<close>

lemma live_next:
  assumes "next_of e = None" "table_at m root up = Some t" "rd64 m (t + 8 * i) = e"
  shows "table_at m root (i # up) = None"
  using assms by simp

text \<open>
  Hooking a zeroed page \<open>n\<close> into an entry that is not present adds one table and no
  translation.
\<close>

definition table_entry :: "u64 \<Rightarrow> u64" where
  "table_entry n = (n AND PTE_ADDR_MASK) OR PAGE_PRESENT OR PAGE_WRITABLE OR PAGE_USER"

lemma bit_small_const:
  "bit (1 :: u64) k \<longleftrightarrow> k = 0" "bit (2 :: u64) k \<longleftrightarrow> k = 1" "bit (4 :: u64) k \<longleftrightarrow> k = 2"
  "bit (0x80 :: u64) k \<longleftrightarrow> k = 7"
  using bit_push_one [of 0 k, where 'a = 64] bit_push_one [of 1 k, where 'a = 64]
    bit_push_one [of 2 k, where 'a = 64] bit_push_one [of 7 k, where 'a = 64]
  by auto

lemma and_one_bit: "e AND 1 \<noteq> 0 \<longleftrightarrow> bit e 0" "e AND 0x80 \<noteq> 0 \<longleftrightarrow> bit e 7" for e :: u64
  using bit_iff_and_push_bit_not_eq_0 [of e 0] bit_iff_and_push_bit_not_eq_0 [of e 7] by simp_all

lemmas entry_bits = bit_and_iff bit_or_iff bit_not_iff bit_small_const bit_pte_mask

lemma page_addr_mask:
  assumes "b < 2 ^ 40" shows "(of_nat (b * 4096) :: u64) AND PTE_ADDR_MASK = of_nat (b * 4096)"
proof (rule bit_word_eqI)
  fix k assume k: "k < LENGTH(64)"
  have "bit (of_nat (b * 4096) :: u64) k \<longleftrightarrow> 12 \<le> k \<and> bit b (k - 12)"
  proof -
    have e: "(of_nat (b * 4096) :: u64) = push_bit 12 (of_nat b)" by (simp add: push_bit_eq_mult)
    show ?thesis unfolding e using k by (auto simp: bit_push_bit_iff bit_of_nat_iff)
  qed
  moreover have "\<not> bit b j" if "40 \<le> j" for j
  proof -
    have "b < 2 ^ j" using assms that by (meson less_le_trans one_le_numeral power_increasing)
    then show ?thesis by (simp add: bit_nat_iff bit_iff_odd)
  qed
  ultimately show "bit (of_nat (b * 4096) AND PTE_ADDR_MASK) k = bit (of_nat (b * 4096) :: u64) k"
    by (cases "k < 52") (auto simp only: bit_and_iff bit_pte_mask)
qed

lemma next_of_table_entry:
  assumes "b < 2 ^ 40"
  shows "next_of (table_entry (of_nat (b * 4096))) = Some (of_nat (b * 4096))"
proof -
  let ?n = "of_nat (b * 4096) :: u64"
  have "table_entry ?n AND PTE_ADDR_MASK = ?n AND PTE_ADDR_MASK"
    unfolding table_entry_def by (rule bit_word_eqI) (auto simp only: entry_bits)
  moreover have "bit (table_entry ?n) 0" "\<not> bit (table_entry ?n) 7"
    by (simp_all add: table_entry_def entry_bits)
  ultimately show ?thesis
    using and_one_bit [of "table_entry ?n"] page_addr_mask [OF assms] by (simp add: next_of_def)
qed

lemma next_of_0 [simp]: "next_of 0 = None"
  by (simp add: next_of_def)

lemma zero_table: "rd64 m a = 0" if "\<And>x. x \<in> region a 8 \<Longrightarrow> m x = 0"
  using rd64_cong [of a m "\<lambda>_. 0"] that by (simp add: mem_eval)

lemma hook_table:
  assumes tree: "pt_tree m root" and up0: "path_ok up0" "table_at m root up0 = Some t0" "i0 < 512"
    and len: "length up0 < 3"
    and absent: "rd64 m (t0 + 8 * i0) AND PAGE_PRESENT = 0"
    and n: "next_of e = Some n" "\<And>up. path_ok up \<Longrightarrow> table_at m root up \<noteq> Some n"
    and zero: "\<And>x. x \<in> region n 4096 \<Longrightarrow> m x = 0"
    and up: "path_ok up"
  shows "table_at (wr64 m (t0 + 8 * i0) e) root up =
    (if up = i0 # up0 then Some n else table_at m root up)"
proof (cases "through (i0 # up0) up")
  case False
  then have "up \<noteq> i0 # up0" by auto
  then show ?thesis using write_entry_path [OF tree up0 up False] by simp
next
  case True
  let ?m = "wr64 m (t0 + 8 * i0) e"
  have al: "page_aligned n" "page_aligned t0"
    using n(1) next_of_aligned tree up0 table_at_aligned by (auto simp: pt_tree_def)
  have none: "table_at m root (i0 # up0) = None" using absent up0(2) by (simp add: next_of_def)
  have self: "table_at ?m root (i0 # up0) = Some n" using write_entry_self(2) [OF tree up0] n(1) by simp
  have nt: "n \<noteq> t0" using n(2) [OF up0(1)] up0(2) by blast
  have zero': "rd64 ?m (n + 8 * j) = 0" if "j < 512" for j
  proof -
    have "rd64 ?m (n + 8 * j) = rd64 m (n + 8 * j)"
      using al that up0(3) nt by (intro rd64_wr64_disjoint entry_disjoint) auto
    also have "\<dots> = 0" using entry_in_table [OF al(1) that] zero by (intro zero_table) blast
    finally show ?thesis .
  qed
  have "table_at ?m root up = (if up = i0 # up0 then Some n else None)" using True up
  proof (induction up)
    case (Cons j up)
    show ?case
    proof (cases "j # up = i0 # up0")
      case False
      then have "table_at ?m root up = (if up = i0 # up0 then Some n else None)"
        using Cons by auto
      then show ?thesis using False Cons.prems zero' [of j] by (auto split: if_splits)
    qed (use self in simp)
  qed simp
  moreover have "table_at m root up = None" by (rule through_None [OF none True])
  ultimately show ?thesis by simp
qed

text \<open>
  What one descent may do: keep the invariant and every entry but the one hooked, and write
  nothing outside the tables, the free pages and the bitmap.
\<close>

definition pt_own :: "u64 \<Rightarrow> vm \<Rightarrow> u64 set" where
  "pt_own root s = bitmap_region (vpmm s) \<union>
     (\<Union>t \<in> {t. \<exists>up. path_ok up \<and> table_at (vmem s) root up = Some t}. region t 4096) \<union>
     (\<Union>b \<in> free_pages (vpmm s, vmem s). region (of_nat (b * 4096)) 4096)"

definition pt_frame :: "u64 \<Rightarrow> vm \<Rightarrow> vm \<Rightarrow> bool" where
  "pt_frame root s s' \<longleftrightarrow> pt_own root s' \<subseteq> pt_own root s \<and>
     (\<forall>x. x \<notin> pt_own root s \<longrightarrow> vmem s' x = vmem s x)"

lemma pt_frame_refl: "pt_frame root s s"
  by (simp add: pt_frame_def)

lemma pt_frame_trans: "pt_frame root s s1 \<Longrightarrow> pt_frame root s1 s2 \<Longrightarrow> pt_frame root s s2"
  unfolding pt_frame_def by (metis subset_trans subsetD)

lemma pt_okD:
  assumes "pt_ok root s"
  shows "pmm_ok (vpmm s, vmem s)" "pt_tree (vmem s) root"
    and "\<And>up t. path_ok up \<Longrightarrow> table_at (vmem s) root up = Some t \<Longrightarrow>
        page_of t \<notin> free_pages (vpmm s, vmem s) \<and>
        region t 4096 \<inter> bitmap_region (vpmm s) = {} \<and> page_aligned t"
    and "\<And>b. b \<in> free_pages (vpmm s, vmem s) \<Longrightarrow>
        region (of_nat (b * 4096)) 4096 \<inter> bitmap_region (vpmm s) = {}"
  using assms table_at_aligned by (auto simp: pt_ok_def pt_tree_def)

lemma page_addr:
  assumes "b < 2 ^ 40"
  shows "page_of (of_nat (b * 4096)) = b" "page_aligned (of_nat (b * 4096))"
proof -
  have "unat (of_nat (b * 4096) :: u64) = b * 4096" using assms by (intro unat_of_nat_small) simp
  then show "page_of (of_nat (b * 4096)) = b" "page_aligned (of_nat (b * 4096))"
    by (simp_all add: page_of_def page_aligned_def del: of_nat_mult)
qed

text \<open>Taking a page and clearing it leaves the tables as they are.\<close>

lemma fresh_page:
  assumes ok: "pt_ok root s" and al: "pmm_alloc_page (vpmm s, vmem s) = (n, p, m)" and nz: "n \<noteq> 0"
  shows "\<exists>b. b \<in> free_pages (vpmm s, vmem s) \<and> n = of_nat (b * 4096) \<and> b < 2 ^ 40 \<and>
     pmm_ok (p, memset m n 0 4096) \<and> bitmap_region p = bitmap_region (vpmm s) \<and>
     free_pages (p, memset m n 0 4096) = free_pages (vpmm s, vmem s) - {b} \<and>
     (\<forall>x. x \<notin> bitmap_region p \<longrightarrow> x \<notin> region n 4096 \<longrightarrow> memset m n 0 4096 x = vmem s x) \<and>
     (\<forall>x \<in> region n 4096. memset m n 0 4096 x = 0)"
proof -
  note pm = pt_okD(1) [OF ok]
  let ?F = "free_pages (vpmm s, vmem s)"
  have ne: "?F \<noteq> {}" using pmm.alloc_null_iff [OF pm] al nz by simp
  obtain b where b: "b \<in> ?F" "n = of_nat (b * 4096)" "free_pages (p, m) = ?F - {b}" "pmm_ok (p, m)"
    using pmm.alloc_some [OF pm ne al] by blast
  have own: "bitmap_region p = bitmap_region (vpmm s)"
    and out: "\<And>x. x \<notin> bitmap_region (vpmm s) \<Longrightarrow> m x = vmem s x"
    using pmm.alloc_frame [OF pm al] by auto
  have b40: "b < 2 ^ 40" using pmm.free_range [OF pm b(1)] by simp
  have mset: "memset m n 0 4096 x = (if x \<in> region n 4096 then 0 else m x)" for x
    by (simp add: memset_apply in_region_iff word_less_nat_alt)
  have "region n 4096 \<inter> bitmap_region p = {}"
    using pt_okD(4) [OF ok b(1)] unfolding own b(2) .
  then have same: "m x = memset m n 0 4096 x" if "x \<in> bitmap_region p" for x
    using that by (auto simp: mset)
  have "pmm_ok (p, memset m n 0 4096) \<and> free_pages (p, memset m n 0 4096) = free_pages (p, m)"
    using pmm.stable [OF b(4) same] by blast
  moreover have "\<forall>x. x \<notin> bitmap_region p \<longrightarrow> x \<notin> region n 4096 \<longrightarrow> memset m n 0 4096 x = vmem s x"
    using out own by (simp add: mset)
  moreover have "\<forall>x \<in> region n 4096. memset m n 0 4096 x = 0" by (simp add: mset)
  ultimately show ?thesis using b b40 own by (intro exI [of _ b]) simp
qed

text \<open>The allocating branch, on the memory \<open>m\<close> in which the new page is cleared.\<close>

lemma hook_ok:
  assumes ok: "pt_ok root s" and up0: "path_ok up0" "table_at (vmem s) root up0 = Some t0" "i0 < 512"
    and len: "length up0 < 3" and absent: "rd64 (vmem s) (t0 + 8 * i0) AND PAGE_PRESENT = 0"
    and b: "b \<in> free_pages (vpmm s, vmem s)" "n = of_nat (b * 4096)" "b < 2 ^ 40"
    and pm: "pmm_ok (p, m)" and own: "bitmap_region p = bitmap_region (vpmm s)"
    and free: "free_pages (p, m) = free_pages (vpmm s, vmem s) - {b}"
    and out: "\<And>x. x \<notin> bitmap_region p \<Longrightarrow> x \<notin> region n 4096 \<Longrightarrow> m x = vmem s x"
    and zero: "\<And>x. x \<in> region n 4096 \<Longrightarrow> m x = 0"
    and m': "m' = wr64 m (t0 + 8 * i0) (table_entry n)"
  shows "\<And>up. path_ok up \<Longrightarrow> table_at m' root up =
      (if up = i0 # up0 then Some n else table_at (vmem s) root up)"
    and "pmm_ok (p, m')" "free_pages (p, m') = free_pages (vpmm s, vmem s) - {b}"
    and "\<And>up t i. path_ok up \<Longrightarrow> table_at (vmem s) root up = Some t \<Longrightarrow> i < 512 \<Longrightarrow>
      (i, up) \<noteq> (i0, up0) \<Longrightarrow> rd64 m' (t + 8 * i) = rd64 (vmem s) (t + 8 * i)"
    and "\<And>i. i < 512 \<Longrightarrow> rd64 m' (n + 8 * i) = 0"
proof -
  note okD = pt_okD [OF ok]
  have alr: "page_aligned root" using okD(2) by (simp add: pt_tree_def)
  have nal: "page_aligned n" "page_of n = b" using page_addr [OF b(3)] by (simp_all only: b(2))
  have new: "table_at (vmem s) root up \<noteq> Some n" if "path_ok up" for up
    using okD(3) [OF that, of n] b(1) nal by auto
  have same: "m x = vmem s x" if "path_ok up" "table_at (vmem s) root up = Some t" "x \<in> region t 4096" for up t x
  proof -
    have "t \<noteq> n" using new [OF that(1)] that(2) by auto
    then have "region t 4096 \<inter> region n 4096 = {}"
      using okD(3) [OF that(1,2)] nal by (intro aligned_page_disjoint) auto
    then show ?thesis using okD(3) [OF that(1,2)] that(3) own by (intro out) auto
  qed
  have tab: "table_at m root up = table_at (vmem s) root up" if "path_ok up" for up
    by (rule table_at_frame [OF alr same that])
  have tree: "pt_tree m root" using okD(2) tab unfolding pt_tree_def by metis
  have t0: "table_at m root up0 = Some t0" using tab up0 by simp
  have al0: "page_aligned t0" using okD(3) [OF up0(1,2)] by simp
  have absent': "rd64 m (t0 + 8 * i0) AND PAGE_PRESENT = 0"
    using entry_frame [OF al0 up0(3) same [OF up0(1,2)]] absent by simp
  have nx: "next_of (table_entry n) = Some n" using next_of_table_entry [OF b(3)] by (simp only: b(2))
  show "table_at m' root up = (if up = i0 # up0 then Some n else table_at (vmem s) root up)"
    if "path_ok up" for up
    using hook_table [OF tree up0(1) t0 up0(3) len absent' nx _ zero that] new tab that m' by simp
  have "x \<notin> region (t0 + 8 * i0) 8" if "x \<in> bitmap_region p" for x
    using entry_in_table [OF al0 up0(3)] okD(3) [OF up0(1,2)] own that by blast
  then have "\<And>x. x \<in> bitmap_region p \<Longrightarrow> m x = m' x" using m' by (simp add: wr64_outside)
  then show "pmm_ok (p, m')" "free_pages (p, m') = free_pages (vpmm s, vmem s) - {b}"
    using pmm.stable [OF pm, of m'] free by blast+
  show "rd64 m' (t + 8 * i) = rd64 (vmem s) (t + 8 * i)"
    if "path_ok up" "table_at (vmem s) root up = Some t" "i < 512" "(i, up) \<noteq> (i0, up0)" for up t i
    using write_entry_other [OF tree up0(1) t0 up0(3) that(1) _ that(3,4)] tab [OF that(1)] that(2) m'
      entry_frame [OF _ that(3) same [OF that(1,2)]] okD(3) [OF that(1,2)] by simp
  show "rd64 m' (n + 8 * i) = 0" if "i < 512" for i
  proof -
    have "t0 \<noteq> n" using new [OF up0(1)] up0(2) by auto
    then have "rd64 m' (n + 8 * i) = rd64 m (n + 8 * i)"
      unfolding m' using nal al0 that up0(3) by (intro rd64_wr64_disjoint entry_disjoint) auto
    also have "\<dots> = 0" using entry_in_table [OF nal(1) that] zero by (intro zero_table) blast
    finally show ?thesis .
  qed
qed

definition walkable :: "mem \<Rightarrow> u64 \<Rightarrow> u64 list \<Rightarrow> u64 \<Rightarrow> bool" where
  "walkable m root up i \<longleftrightarrow>
     (case live m root up i of None \<Rightarrow> True | Some e \<Rightarrow> e AND PAGE_PS = 0 \<and> e AND PTE_ADDR_MASK \<noteq> 0)"

definition descended :: "u64 \<Rightarrow> u64 list \<Rightarrow> u64 \<Rightarrow> vm \<Rightarrow> vm \<Rightarrow> bool" where
  "descended root up0 i0 s s' \<longleftrightarrow>
     pt_ok root s' \<and> pt_frame root s s' \<and> invlpg s' = invlpg s \<and>
     card (free_pages (vpmm s, vmem s)) \<le> Suc (card (free_pages (vpmm s', vmem s'))) \<and>
     (\<forall>up i. path_ok up \<longrightarrow> i < 512 \<longrightarrow> (i, up) \<noteq> (i0, up0) \<longrightarrow>
        live (vmem s') root up i = live (vmem s) root up i) \<and>
     (live (vmem s') root up0 i0 = live (vmem s) root up0 i0 \<or>
      live (vmem s) root up0 i0 = None \<and> next_of (the (live (vmem s') root up0 i0)) \<noteq> None)"

lemma descended_refl: "pt_ok root s \<Longrightarrow> descended root up i s s"
  by (simp add: descended_def pt_frame_refl)

lemma index_small [simp]:
  "PML4_INDEX v < 512" "PDPT_INDEX v < 512" "PD_INDEX v < 512" "PT_INDEX v < 512"
proof -
  have "x AND 0x1FF < 512" for x :: u64
  proof -
    have "x AND 0x1FF = take_bit 9 x" by (simp add: take_bit_eq_mask mask_eq_exp_minus_1)
    moreover have "unat (take_bit 9 x) < 2 ^ 9"
      by (simp only: unsigned_take_bit_eq take_bit_nat_less_exp)
    ultimately show ?thesis by (simp add: word_less_nat_alt)
  qed
  then show "PML4_INDEX v < 512" "PDPT_INDEX v < 512" "PD_INDEX v < 512" "PT_INDEX v < 512"
    by (simp_all add: PML4_INDEX_def PDPT_INDEX_def PD_INDEX_def PT_INDEX_def)
qed

lemma live_table:
  "table_at m root (i # up) = (case live m root up i of None \<Rightarrow> None | Some e \<Rightarrow> next_of e)"
  by (auto simp: live_def next_of_def Let_def split: option.splits)

lemma live_below: "live m root up i = None \<Longrightarrow> live m root (i # up) j = None"
  using live_table [of m root i up] by (simp add: live_def [of m root "i # up"] del: table_at.simps)

lemma next_of_no_ps: "next_of e \<noteq> None \<Longrightarrow> e AND PAGE_PS = 0"
  by (auto simp: next_of_def split: if_splits)

lemma descended_translate:
  assumes d: "descended root up0 i0 s s'" and len: "length up0 < 3"
  shows "translate (vmem s') root v = translate (vmem s) root v"
proof -
  let ?i4 = "PML4_INDEX v" and ?i3 = "PDPT_INDEX v" and ?i2 = "PD_INDEX v" and ?i1 = "PT_INDEX v"
  have same: "live (vmem s') root up i = live (vmem s) root up i"
    if "path_ok up" "i < 512" "(i, up) \<noteq> (i0, up0)" for up i
    using d that by (auto simp: descended_def)
  have l1: "live (vmem s') root [?i2, ?i3, ?i4] ?i1 = live (vmem s) root [?i2, ?i3, ?i4] ?i1"
    using len by (intro same) auto
  have new: "live (vmem s) root up0 i0 = None \<and> the (live (vmem s') root up0 i0) AND PAGE_PS = 0"
    if "live (vmem s') root up0 i0 \<noteq> live (vmem s) root up0 i0"
    using d that next_of_no_ps by (auto simp: descended_def)
  consider (none) "live (vmem s') root [?i4] ?i3 = live (vmem s) root [?i4] ?i3"
      "live (vmem s') root [?i3, ?i4] ?i2 = live (vmem s) root [?i3, ?i4] ?i2"
    | (three) "up0 = [?i4]" "i0 = ?i3" "live (vmem s') root up0 i0 \<noteq> live (vmem s) root up0 i0"
    | (two) "up0 = [?i3, ?i4]" "i0 = ?i2" "live (vmem s') root up0 i0 \<noteq> live (vmem s) root up0 i0"
    using same [of "[?i4]" ?i3] same [of "[?i3, ?i4]" ?i2] by auto
  then show ?thesis
  proof cases
    case three
    have "live (vmem s') root [?i3, ?i4] ?i2 = live (vmem s) root [?i3, ?i4] ?i2"
      using three by (intro same) auto
    then show ?thesis
      using three new live_below [of "vmem s" root "[?i4]" ?i3 ?i2]
      by (auto simp: translate_def walk_def split: option.splits)
  next
    case two
    have "live (vmem s') root [?i4] ?i3 = live (vmem s) root [?i4] ?i3"
      using two by (intro same) auto
    then show ?thesis
      using two new l1 live_below [of "vmem s" root "[?i3, ?i4]" ?i2 ?i1]
      by (auto simp: translate_def walk_def split: option.splits)
  next
    case none
    show ?thesis unfolding translate_def none l1 by (rule refl)
  qed
qed

lemma hook_live:
  assumes path: "\<And>up. path_ok up \<Longrightarrow> table_at m' root up = (if up = i0 # up0 then Some n else table_at m root up)"
    and ent: "\<And>up t i. path_ok up \<Longrightarrow> table_at m root up = Some t \<Longrightarrow> i < 512 \<Longrightarrow>
      (i, up) \<noteq> (i0, up0) \<Longrightarrow> rd64 m' (t + 8 * i) = rd64 m (t + 8 * i)"
    and zero: "\<And>i. i < 512 \<Longrightarrow> rd64 m' (n + 8 * i) = 0"
    and none: "table_at m root (i0 # up0) = None"
    and i: "path_ok up" "i < 512" "(i, up) \<noteq> (i0, up0)"
  shows "live m' root up i = live m root up i"
proof (cases "up = i0 # up0")
  case True
  then show ?thesis using path [OF i(1)] none zero [OF i(2)] by (simp add: live_def)
next
  case False
  then show ?thesis using path [OF i(1)] ent [OF i(1) _ i(2,3)] by (auto simp: live_def split: option.splits)
qed

lemma next_of_cases:
  "next_of e = (if e AND PAGE_PRESENT \<noteq> 0 \<and> e AND PAGE_PS = 0 then Some (e AND PTE_ADDR_MASK) else None)"
  by (simp add: next_of_def)

lemma hook_frame:
  assumes ok: "pt_ok root s" and up0: "path_ok up0" "table_at (vmem s) root up0 = Some t0" "i0 < 512"
    and b: "b \<in> free_pages (vpmm s, vmem s)" "n = of_nat (b * 4096)"
    and own: "bitmap_region (vpmm s') = bitmap_region (vpmm s)"
    and out: "\<And>x. x \<notin> bitmap_region (vpmm s) \<Longrightarrow> x \<notin> region n 4096 \<Longrightarrow> m x = vmem s x"
    and m': "vmem s' = wr64 m (t0 + 8 * i0) e"
    and path: "\<And>up. path_ok up \<Longrightarrow> table_at (vmem s') root up =
      (if up = i0 # up0 then Some n else table_at (vmem s) root up)"
    and free: "free_pages (vpmm s', vmem s') = free_pages (vpmm s, vmem s) - {b}"
  shows "pt_frame root s s'"
proof -
  have al0: "page_aligned t0" using pt_okD(3) [OF ok up0(1,2)] by simp
  have n: "region n 4096 \<subseteq> pt_own root s" using b by (auto simp: pt_own_def)
  have t0: "region (t0 + 8 * i0) 8 \<subseteq> pt_own root s"
    using entry_in_table [OF al0 up0(3)] up0(1,2) by (fastforce simp: pt_own_def)
  have "vmem s' x = vmem s x" if "x \<notin> pt_own root s" for x
  proof -
    have "x \<notin> region n 4096" "x \<notin> region (t0 + 8 * i0) 8" using that n t0 by blast+
    moreover have "x \<notin> bitmap_region (vpmm s)" using that by (simp add: pt_own_def)
    ultimately show ?thesis using out by (simp add: m' wr64_outside)
  qed
  moreover have "region t 4096 \<subseteq> pt_own root s" if "path_ok up" "table_at (vmem s') root up = Some t" for up t
    using that path [OF that(1)] n by (fastforce simp: pt_own_def split: if_splits)
  moreover have "bitmap_region (vpmm s') \<subseteq> pt_own root s" using own by (auto simp: pt_own_def)
  moreover have "region (of_nat (c * 4096)) 4096 \<subseteq> pt_own root s" if "c \<in> free_pages (vpmm s', vmem s')" for c
    using that free by (auto simp: pt_own_def)
  ultimately show ?thesis unfolding pt_frame_def by (fastforce simp: pt_own_def [of root s'])
qed

lemma hook_pt_ok:
  assumes ok: "pt_ok root s" and own: "bitmap_region (vpmm s') = bitmap_region (vpmm s)"
    and b: "b \<in> free_pages (vpmm s, vmem s)" "n = of_nat (b * 4096)" "b < 2 ^ 40"
    and path: "\<And>up. path_ok up \<Longrightarrow> table_at (vmem s') root up =
      (if up = p0 then Some n else table_at (vmem s) root up)"
    and pm: "pmm_ok (vpmm s', vmem s')"
    and free: "free_pages (vpmm s', vmem s') = free_pages (vpmm s, vmem s) - {b}"
  shows "pt_ok root s'"
proof -
  note okD = pt_okD [OF ok]
  have nal: "page_of n = b" using page_addr [OF b(3)] by (simp only: b(2))
  have new: "table_at (vmem s) root up \<noteq> Some n" if "path_ok up" for up
    using okD(3) [OF that, of n] b(1) nal by auto
  have "pt_tree (vmem s') root"
    using okD(2) path new unfolding pt_tree_def by (metis (no_types, lifting) option.inject)
  moreover have "page_of t \<notin> free_pages (vpmm s', vmem s') \<and> region t 4096 \<inter> bitmap_region (vpmm s') = {}"
    if "path_ok up" "table_at (vmem s') root up = Some t" for up t
    using that path [OF that(1)] okD(3) [OF that(1)] okD(4) [OF b(1)] nal
    unfolding own free by (auto simp: b(2) simp del: of_nat_mult split: if_splits)
  ultimately show ?thesis using pm okD(4) unfolding pt_ok_def own free by blast
qed

lemma next_table_descends:
  assumes ok: "pt_ok root s" and up0: "path_ok up0" "table_at (vmem s) root up0 = Some t0" "i0 < 512"
    and len: "length up0 < 3" and r: "vmm_next_table t0 i0 s = (r, s')"
  shows "descended root up0 i0 s s'" "r \<noteq> 0 \<Longrightarrow> table_at (vmem s') root (i0 # up0) = Some r"
    and "walkable (vmem s) root up0 i0 \<Longrightarrow> free_pages (vpmm s, vmem s) \<noteq> {} \<Longrightarrow> r \<noteq> 0"
proof -
  let ?e = "rd64 (vmem s) (t0 + 8 * i0)"
  obtain n p m where al: "pmm_alloc_page (vpmm s, vmem s) = (n, p, m)" using prod_cases3 by blast
  consider (old) "?e AND PAGE_PRESENT \<noteq> 0"
    | (full) "?e AND PAGE_PRESENT = 0" "n = 0" | (hook) "?e AND PAGE_PRESENT = 0" "n \<noteq> 0" by blast
  then have "descended root up0 i0 s s' \<and> (r \<noteq> 0 \<longrightarrow> table_at (vmem s') root (i0 # up0) = Some r) \<and>
    (walkable (vmem s) root up0 i0 \<longrightarrow> free_pages (vpmm s, vmem s) \<noteq> {} \<longrightarrow> r \<noteq> 0)"
  proof cases
    case old
    then show ?thesis using r up0(2) descended_refl [OF ok]
      by (auto simp: vmm_next_table_def Let_def next_of_def walkable_def live_def split: if_splits)
  next
    case full
    have emp: "free_pages (vpmm s, vmem s) = {}"
      using pmm.alloc_null_iff [OF pt_okD(1) [OF ok]] al full(2) by simp
    then have "(p, m) = (vpmm s, vmem s)" using pmm.alloc_none [OF pt_okD(1) [OF ok]] al by simp
    then have "s' = s" "r = 0" using r full al by (auto simp: vmm_next_table_def Let_def)
    then show ?thesis using emp descended_refl [OF ok] by simp
  next
    case hook
    obtain b where b: "b \<in> free_pages (vpmm s, vmem s)" "n = of_nat (b * 4096)" "b < 2 ^ 40"
      and f: "pmm_ok (p, memset m n 0 4096)" "bitmap_region p = bitmap_region (vpmm s)"
        "free_pages (p, memset m n 0 4096) = free_pages (vpmm s, vmem s) - {b}"
        "\<And>x. x \<notin> bitmap_region p \<Longrightarrow> x \<notin> region n 4096 \<Longrightarrow> memset m n 0 4096 x = vmem s x"
        "\<And>x. x \<in> region n 4096 \<Longrightarrow> memset m n 0 4096 x = 0"
      using fresh_page [OF ok al hook(2)] by metis
    define m' where "m' = wr64 (memset m n 0 4096) (t0 + 8 * i0) (table_entry n)"
    have s': "s' = s\<lparr>vpmm := p, vmem := m'\<rparr>" "r = n"
      using r hook al by (auto simp: vmm_next_table_def Let_def m'_def table_entry_def)
    note h = hook_ok [OF ok up0 len hook(1) b f m'_def]
    have none: "table_at (vmem s) root (i0 # up0) = None" "live (vmem s) root up0 i0 = None"
      using hook(1) up0(2) by (simp_all add: next_of_def live_def)
    have self: "table_at m' root (i0 # up0) = Some n" using h(1) [of "i0 # up0"] up0 len by (simp del: table_at.simps)
    have "pt_ok root s'" using hook_pt_ok [OF ok, of s' b n "i0 # up0"] h b f(2) s' by simp
    moreover have "pt_frame root s s'"
      using hook_frame [OF ok up0 b(1,2), of s' "memset m n 0 4096" "table_entry n"] h f s' m'_def by simp
    moreover have "live m' root up i = live (vmem s) root up i"
      if "path_ok up" "i < 512" "(i, up) \<noteq> (i0, up0)" for up i
      by (rule hook_live [OF h(1) h(4) h(5) none(1) that])
    moreover have "finite (free_pages (vpmm s, vmem s))" by (simp add: free_pages_def)
    moreover have "next_of (the (live m' root up0 i0)) \<noteq> None"
      using self live_table [of m' root i0 up0] by (auto simp del: table_at.simps split: option.splits)
    ultimately show ?thesis using s' h(3) self none b(1) hook(2)
      by (auto simp: descended_def card_Suc_Diff1 simp del: table_at.simps)
  qed
  then show "descended root up0 i0 s s'" "r \<noteq> 0 \<Longrightarrow> table_at (vmem s') root (i0 # up0) = Some r"
    "walkable (vmem s) root up0 i0 \<Longrightarrow> free_pages (vpmm s, vmem s) \<noteq> {} \<Longrightarrow> r \<noteq> 0" by blast+
qed

section \<open>Writing a leaf\<close>

text \<open>\<open>same_page k w v\<close>: the addresses agree on the translated bits from \<open>k\<close> on.\<close>

definition same_page :: "nat \<Rightarrow> u64 \<Rightarrow> u64 \<Rightarrow> bool" where
  "same_page k w v \<longleftrightarrow> drop_bit k (take_bit 48 w) = drop_bit k (take_bit 48 v)"

lemma index_eq_bits:
  "drop_bit a w AND 0x1FF = drop_bit a v AND 0x1FF \<longleftrightarrow> (\<forall>k. a \<le> k \<and> k < a + 9 \<longrightarrow> bit w k = bit v k)"
  for w v :: u64
proof -
  have m: "0x1FF = (mask 9 :: u64)" by (simp add: mask_eq_exp_minus_1)
  have b: "bit (drop_bit a x AND 0x1FF) j \<longleftrightarrow> j < 9 \<and> bit x (a + j)" for x :: u64 and j
    unfolding m by (auto simp: bit_simps)
  show ?thesis
  proof
    assume e: "drop_bit a w AND 0x1FF = drop_bit a v AND 0x1FF"
    show "\<forall>k. a \<le> k \<and> k < a + 9 \<longrightarrow> bit w k = bit v k"
    proof (intro allI impI)
      fix k assume "a \<le> k \<and> k < a + 9"
      then have "k = a + (k - a)" "k - a < 9" by linarith+
      then show "bit w k = bit v k" using b [of w "k - a"] b [of v "k - a"] e by simp
    qed
  next
    assume "\<forall>k. a \<le> k \<and> k < a + 9 \<longrightarrow> bit w k = bit v k"
    then show "drop_bit a w AND 0x1FF = drop_bit a v AND 0x1FF"
      by (intro bit_word_eqI) (auto simp: b)
  qed
qed

lemma same_page_bits: "same_page k w v \<longleftrightarrow> (\<forall>j. k \<le> j \<and> j < 48 \<longrightarrow> bit w j = bit v j)"
proof -
  have b: "bit (drop_bit k (take_bit 48 x)) j \<longleftrightarrow> k + j < 48 \<and> bit x (k + j)" for x :: u64 and j
    by (auto simp: bit_simps)
  show ?thesis
  proof
    assume e: "same_page k w v"
    show "\<forall>j. k \<le> j \<and> j < 48 \<longrightarrow> bit w j = bit v j"
    proof (intro allI impI)
      fix j assume j: "k \<le> j \<and> j < 48"
      then show "bit w j = bit v j"
        using b [of w "j - k"] b [of v "j - k"] e by (simp add: same_page_def)
    qed
  next
    assume "\<forall>j. k \<le> j \<and> j < 48 \<longrightarrow> bit w j = bit v j"
    then show "same_page k w v"
      unfolding same_page_def by (intro bit_word_eqI) (auto simp: b)
  qed
qed

lemma same_page_index:
  "same_page 12 w v \<longleftrightarrow> PML4_INDEX w = PML4_INDEX v \<and> PDPT_INDEX w = PDPT_INDEX v \<and>
     PD_INDEX w = PD_INDEX v \<and> PT_INDEX w = PT_INDEX v"
  "same_page 21 w v \<longleftrightarrow> PML4_INDEX w = PML4_INDEX v \<and> PDPT_INDEX w = PDPT_INDEX v \<and>
     PD_INDEX w = PD_INDEX v"
  "same_page 30 w v \<longleftrightarrow> PML4_INDEX w = PML4_INDEX v \<and> PDPT_INDEX w = PDPT_INDEX v"
proof -
  have r: "(\<forall>j. a \<le> j \<and> j < 48 \<longrightarrow> P j) \<longleftrightarrow>
      (\<forall>j. b \<le> j \<and> j < 48 \<longrightarrow> P j) \<and> (\<forall>j. a \<le> j \<and> j < b \<longrightarrow> P j)"
    if "a \<le> b" "b \<le> 48" for a b :: nat and P
    using that by (meson le_less_trans not_le order_trans order_less_le_trans)
  note bits = same_page_bits PML4_INDEX_def PDPT_INDEX_def PD_INDEX_def PT_INDEX_def index_eq_bits
  show c: "same_page 30 w v \<longleftrightarrow> PML4_INDEX w = PML4_INDEX v \<and> PDPT_INDEX w = PDPT_INDEX v"
    using r [of 30 39 "\<lambda>j. bit w j = bit v j"] unfolding bits by simp
  show b: "same_page 21 w v \<longleftrightarrow> PML4_INDEX w = PML4_INDEX v \<and> PDPT_INDEX w = PDPT_INDEX v \<and>
     PD_INDEX w = PD_INDEX v"
    using r [of 21 30 "\<lambda>j. bit w j = bit v j"] c unfolding bits by simp
  show "same_page 12 w v \<longleftrightarrow> PML4_INDEX w = PML4_INDEX v \<and> PDPT_INDEX w = PDPT_INDEX v \<and>
     PD_INDEX w = PD_INDEX v \<and> PT_INDEX w = PT_INDEX v"
    using r [of 12 21 "\<lambda>j. bit w j = bit v j"] b unfolding bits by simp
qed

lemma leaf_paths:
  assumes tree: "pt_tree m root" and up0: "path_ok up0" "table_at m root up0 = Some t0" "i0 < 512"
    and leaf: "next_of e = None \<or> length up0 = 3" and up: "path_ok up"
  shows "table_at (wr64 m (t0 + 8 * i0) e) root up =
    (if through (i0 # up0) up then None else table_at m root up)"
proof (cases "through (i0 # up0) up")
  case True
  then have "length up0 < 3" using through_length [OF True] up by (simp add: path_ok_def)
  then have "table_at (wr64 m (t0 + 8 * i0) e) root (i0 # up0) = None"
    using write_entry_self(2) [OF tree up0] leaf by simp
  then show ?thesis using True through_None [OF _ True] by presburger
next
  case False
  then show ?thesis using write_entry_path [OF tree up0 up] by simp
qed

lemma leaf_live:
  assumes tree: "pt_tree m root" and up0: "path_ok up0" "table_at m root up0 = Some t0" "i0 < 512"
    and leaf: "next_of e = None \<or> length up0 = 3" and pres: "e AND PAGE_PRESENT \<noteq> 0"
    and up: "path_ok up" "i < 512"
  shows "live (wr64 m (t0 + 8 * i0) e) root up i =
    (if (i, up) = (i0, up0) then Some e else if through (i0 # up0) up then None else live m root up i)"
proof (cases "(i, up) = (i0, up0)")
  case True
  then show ?thesis
    using write_entry_self(1) [OF tree up0, of e] pres by (simp add: live_def rd64_wr64)
next
  case False
  then show ?thesis
    using leaf_paths [OF tree up0 leaf up(1)] write_entry_other [OF tree up0 up(1) _ up(2) False, of _ e]
    by (auto simp: live_def split: option.splits)
qed

lemma leaf_pt_ok:
  assumes ok: "pt_ok root s" and up0: "path_ok up0" "table_at (vmem s) root up0 = Some t0" "i0 < 512"
    and leaf: "next_of e = None \<or> length up0 = 3"
    and s': "vmem s' = wr64 (vmem s) (t0 + 8 * i0) e" "vpmm s' = vpmm s"
  shows "pt_ok root s'" "pt_frame root s s'"
proof -
  note okD = pt_okD [OF ok]
  have al0: "page_aligned t0" using okD(3) [OF up0(1,2)] by simp
  note ent = entry_in_table [OF al0 up0(3)]
  have "vmem s x = vmem s' x" if "x \<in> bitmap_region (vpmm s)" for x
    using that ent okD(3) [OF up0(1,2)] unfolding s'(1) by (subst wr64_outside) auto
  then have pm: "pmm_ok (vpmm s', vmem s')" "free_pages (vpmm s', vmem s') = free_pages (vpmm s, vmem s)"
    using pmm.stable [OF okD(1), of "vmem s'"] unfolding s'(2) by blast+
  have path: "table_at (vmem s) root up = Some t" if "path_ok up" "table_at (vmem s') root up = Some t" for up t
    using leaf_paths [OF okD(2) up0 leaf that(1)] that(2) by (simp add: s'(1) split: if_splits)
  have "pt_tree (vmem s') root" using okD(2) path unfolding pt_tree_def by blast
  then show "pt_ok root s'" using ok path pm unfolding pt_ok_def s'(2) by (auto dest: path)
  have "region t0 4096 \<subseteq> pt_own root s" using up0 by (auto simp: pt_own_def)
  then have "vmem s' x = vmem s x" if "x \<notin> pt_own root s" for x
    using that ent unfolding s'(1) by (intro wr64_outside) blast
  moreover have "pt_own root s' \<subseteq> pt_own root s"
    using pm(2) path unfolding pt_own_def s'(2) by (intro Un_mono UN_mono) auto
  ultimately show "pt_frame root s s'" by (simp add: pt_frame_def)
qed

lemma table_at_live:
  "table_at m root (i # up) = Some t \<Longrightarrow>
     \<exists>e. live m root up i = Some e \<and> e AND PAGE_PS = 0 \<and> next_of e = Some t \<and> table_at m root up \<noteq> None"
  using live_table [of m root i up] next_of_no_ps
  by (auto simp: live_def simp del: table_at.simps split: option.splits)

lemma translate_leaf_4k:
  assumes tree: "pt_tree m root" and pres: "e AND PAGE_PRESENT \<noteq> 0"
    and pt: "table_at m root [PD_INDEX v, PDPT_INDEX v, PML4_INDEX v] = Some pt"
  shows "translate (wr64 m (pt + 8 * PT_INDEX v) e) root w =
    (if same_page 12 w v then Some ((e AND PTE_ADDR_MASK) OR (w AND 0xFFF)) else translate m root w)"
proof -
  let ?up = "[PD_INDEX v, PDPT_INDEX v, PML4_INDEX v]"
  note L = leaf_live [OF tree _ pt _ _ pres, simplified]
  obtain e2 where e2: "live m root [PDPT_INDEX v, PML4_INDEX v] (PD_INDEX v) = Some e2" "e2 AND PAGE_PS = 0"
    "table_at m root [PDPT_INDEX v, PML4_INDEX v] \<noteq> None"
    using table_at_live [OF pt] by blast
  obtain e3 where e3: "live m root [PML4_INDEX v] (PDPT_INDEX v) = Some e3" "e3 AND PAGE_PS = 0"
    using e2(3) table_at_live [of m root "PDPT_INDEX v" "[PML4_INDEX v]"] by blast
  show ?thesis
    using e2(1,2) e3 by (auto simp: translate_def L same_page_index walk_def)
qed

lemma translate_leaf_2m:
  assumes tree: "pt_tree m root" and pres: "e AND PAGE_PRESENT \<noteq> 0" and ps: "e AND PAGE_PS \<noteq> 0"
    and pd: "table_at m root [PDPT_INDEX v, PML4_INDEX v] = Some pd"
  shows "translate (wr64 m (pd + 8 * PD_INDEX v) e) root w =
    (if same_page 21 w v then Some ((e AND PTE_ADDR_MASK AND PAGE_2M_MASK) OR (w AND NOT PAGE_2M_MASK))
     else translate m root w)"
proof -
  have leaf: "next_of e = None" using ps by (simp add: next_of_def)
  note L = leaf_live [OF tree _ pd _ disjI1 [OF leaf] pres, simplified]
  obtain e3 where e3: "live m root [PML4_INDEX v] (PDPT_INDEX v) = Some e3" "e3 AND PAGE_PS = 0"
    using table_at_live [OF pd] by blast
  show ?thesis
    using e3 ps by (auto simp: translate_def L same_page_index walk_def)
qed

lemma translate_leaf_1g:
  assumes tree: "pt_tree m root" and pres: "e AND PAGE_PRESENT \<noteq> 0" and ps: "e AND PAGE_PS \<noteq> 0"
    and pdpt: "table_at m root [PML4_INDEX v] = Some pdpt"
  shows "translate (wr64 m (pdpt + 8 * PDPT_INDEX v) e) root w =
    (if same_page 30 w v then Some ((e AND PTE_ADDR_MASK AND PAGE_1G_MASK) OR (w AND NOT PAGE_1G_MASK))
     else translate m root w)"
proof -
  have leaf: "next_of e = None" using ps by (simp add: next_of_def)
  note L = leaf_live [OF tree _ pdpt _ disjI1 [OF leaf] pres, simplified]
  show ?thesis using ps by (auto simp: translate_def L same_page_index walk_def)
qed

section \<open>The mapping functions\<close>

text \<open>
  What a mapping of \<open>2 ^ k\<close> bytes promises: the invariant, writes only to memory that belongs
  to paging or is free, the new translation on the page and no other change, and an
  \<^verbatim>\<open>invlpg\<close> of the address whenever a translation has changed.
\<close>

definition page_mapped :: "u64 \<Rightarrow> nat \<Rightarrow> u64 \<Rightarrow> u64 \<Rightarrow> vm \<Rightarrow> vm \<Rightarrow> bool" where
  "page_mapped root k virt phys s s' \<longleftrightarrow>
     (\<forall>w. translate (vmem s') root w =
        (if same_page k w virt then Some ((phys AND PTE_ADDR_MASK AND NOT (mask k)) OR (w AND mask k))
         else translate (vmem s) root w)) \<and>
     (invlpg s' = virt # invlpg s \<or> invlpg s' = invlpg s \<and> translate (vmem s') root = translate (vmem s) root)"

definition map_refused :: "u64 \<Rightarrow> vm \<Rightarrow> vm \<Rightarrow> bool" where
  "map_refused root s s' \<longleftrightarrow>
     invlpg s' = invlpg s \<and> translate (vmem s') root = translate (vmem s) root"

lemma mask_consts: "NOT PAGE_2M_MASK = mask 21" "NOT PAGE_1G_MASK = mask 30" "0xFFF = (mask 12 :: u64)"
  by (simp_all add: PAGE_2M_MASK_def PAGE_1G_MASK_def mask_eq_exp_minus_1)

lemma page_masks: "PAGE_2M_MASK = NOT (mask 21)" "PAGE_1G_MASK = NOT (mask 30)"
  by (simp_all add: PAGE_2M_MASK_def PAGE_1G_MASK_def mask_eq_exp_minus_1)

lemma leaf_entry_bits:
  assumes "fl AND PTE_ADDR_MASK = 0"
  shows "page_entry phys fl AND PTE_ADDR_MASK = phys AND PTE_ADDR_MASK AND NOT (mask 12)"
    and "huge_entry phys fl AND PTE_ADDR_MASK = phys AND PTE_ADDR_MASK"
    and "page_entry phys fl AND PAGE_PRESENT \<noteq> 0" "huge_entry phys fl AND PAGE_PRESENT \<noteq> 0"
    and "huge_entry phys fl AND PAGE_PS \<noteq> 0"
proof -
  have fl: "bit fl k \<Longrightarrow> 12 \<le> k \<Longrightarrow> \<not> k < 52" for k
    using assms by (metis bit_0_eq bit_and_iff bit_pte_mask bot_apply bot_bool_def)
  show "page_entry phys fl AND PTE_ADDR_MASK = phys AND PTE_ADDR_MASK AND NOT (mask 12)"
    unfolding page_entry_def by (rule bit_word_eqI) (auto simp: entry_bits bit_mask_iff dest: fl)
  show "huge_entry phys fl AND PTE_ADDR_MASK = phys AND PTE_ADDR_MASK"
    unfolding huge_entry_def by (rule bit_word_eqI) (auto simp only: entry_bits dest: fl)
  show "page_entry phys fl AND PAGE_PRESENT \<noteq> 0" "huge_entry phys fl AND PAGE_PRESENT \<noteq> 0"
    "huge_entry phys fl AND PAGE_PS \<noteq> 0"
    unfolding and_one_bit by (simp_all add: page_entry_def huge_entry_def entry_bits)
qed

lemma set_entry_fields:
  "vmem (vmm_set_entry v a e s) = wr64 (vmem s) a e" "vpmm (vmm_set_entry v a e s) = vpmm s"
  "invlpg (vmm_set_entry v a e s) = v # invlpg s \<or>
     invlpg (vmm_set_entry v a e s) = invlpg s \<and> vmem (vmm_set_entry v a e s) = vmem s"
  by (auto simp: vmm_set_entry_def vmm_flush_def Let_def wr64_same)

lemma set_entry_mapped:
  assumes "\<And>w. translate (wr64 (vmem s) a e) root w =
      (if same_page k w v then Some (t w) else translate (vmem s) root w)"
    and "\<And>w. t w = (phys AND PTE_ADDR_MASK AND NOT (mask k)) OR (w AND mask k)"
  shows "page_mapped root k v phys s (vmm_set_entry v a e s)"
  using set_entry_fields [of v a e s] assms unfolding page_mapped_def by auto

lemma refused_then_mapped:
  "map_refused root s s1 \<Longrightarrow> page_mapped root k v p s1 s2 \<Longrightarrow> page_mapped root k v p s s2"
  by (simp add: map_refused_def page_mapped_def)

lemma refused_trans: "map_refused root s s1 \<Longrightarrow> map_refused root s1 s2 \<Longrightarrow> map_refused root s s2"
  by (simp add: map_refused_def)

lemma descended_refused: "descended root up i s s' \<Longrightarrow> length up < 3 \<Longrightarrow> map_refused root s s'"
  using descended_translate [of root up i s s'] by (auto simp: map_refused_def descended_def)

text \<open>After \<open>n\<close> descents: nothing translated differently, at most \<open>n\<close> pages taken.\<close>

definition descending :: "u64 \<Rightarrow> nat \<Rightarrow> vm \<Rightarrow> vm \<Rightarrow> bool" where
  "descending root n s s' \<longleftrightarrow>
     pt_ok root s' \<and> pt_frame root s s' \<and> map_refused root s s' \<and>
     card (free_pages (vpmm s, vmem s)) \<le> n + card (free_pages (vpmm s', vmem s')) \<and>
     (\<forall>up i. path_ok up \<longrightarrow> i < 512 \<longrightarrow> n \<le> length up \<longrightarrow>
        live (vmem s') root up i = live (vmem s) root up i)"

lemma descending_refl: "pt_ok root s \<Longrightarrow> descending root 0 s s"
  by (simp add: descending_def pt_frame_refl map_refused_def)

lemma descending_step:
  assumes d: "descending root n s s1" and up0: "path_ok up0" "table_at (vmem s1) root up0 = Some t0" "i0 < 512"
    and len: "length up0 = n" "n < 3" and r: "vmm_next_table t0 i0 s1 = (r, s2)"
  shows "descending root (Suc n) s s2" "r \<noteq> 0 \<Longrightarrow> table_at (vmem s2) root (i0 # up0) = Some r"
    and "walkable (vmem s) root up0 i0 \<Longrightarrow> n < card (free_pages (vpmm s, vmem s)) \<Longrightarrow> r \<noteq> 0"
proof -
  have ok: "pt_ok root s1" using d by (simp add: descending_def)
  have len': "length up0 < 3" using len by simp
  note nt = next_table_descends [OF ok up0 len' r]
  have "live (vmem s2) root up i = live (vmem s) root up i" if "path_ok up" "i < 512" "Suc n \<le> length up" for up i
  proof -
    have "live (vmem s2) root up i = live (vmem s1) root up i"
      using nt(1) that len(1) unfolding descended_def by (metis not_less_eq_eq order_refl prod.inject)
    also have "\<dots> = live (vmem s) root up i" using d that by (simp add: descending_def)
    finally show ?thesis .
  qed
  then show "descending root (Suc n) s s2"
    using nt(1) d pt_frame_trans [of root s s1 s2]
      refused_trans [OF _ descended_refused [OF nt(1) len'], of s]
    by (simp add: descending_def descended_def)
  show "r \<noteq> 0 \<Longrightarrow> table_at (vmem s2) root (i0 # up0) = Some r" by (rule nt(2))
  assume "walkable (vmem s) root up0 i0" "n < card (free_pages (vpmm s, vmem s))"
  then have "walkable (vmem s1) root up0 i0" "free_pages (vpmm s1, vmem s1) \<noteq> {}"
    using d up0(1,3) len(1) by (auto simp: descending_def walkable_def)
  then show "r \<noteq> 0" by (rule nt(3))
qed

text \<open>The outcome of a mapping function whose walk takes \<open>n\<close> descents.\<close>

definition map_outcome :: "u64 \<Rightarrow> nat \<Rightarrow> u64 \<Rightarrow> u64 \<Rightarrow> vm \<Rightarrow> vm \<Rightarrow> bool" where
  "map_outcome root k virt phys s s' \<longleftrightarrow> pt_ok root s' \<and> pt_frame root s s' \<and>
     (page_mapped root k virt phys s s' \<or> map_refused root s s')"

lemma descending_outcome: "descending root n s s' \<Longrightarrow> map_outcome root k v p s s'"
  by (auto simp: descending_def map_outcome_def)

lemma leaf_outcome:
  assumes d: "descending root n s s1"
    and up0: "path_ok up0" "table_at (vmem s1) root up0 = Some t0" "i0 < 512"
    and leaf: "next_of e = None \<or> length up0 = 3"
    and mp: "page_mapped root k v p s1 (vmm_set_entry v (t0 + 8 * i0) e s1)"
  shows "map_outcome root k v p s (vmm_set_entry v (t0 + 8 * i0) e s1)"
    and "page_mapped root k v p s (vmm_set_entry v (t0 + 8 * i0) e s1)"
proof -
  have ok: "pt_ok root s1" using d by (simp add: descending_def)
  show pm: "page_mapped root k v p s (vmm_set_entry v (t0 + 8 * i0) e s1)"
    using d mp refused_then_mapped by (auto simp: descending_def)
  note l = leaf_pt_ok [OF ok up0 leaf set_entry_fields(1,2)]
  show "map_outcome root k v p s (vmm_set_entry v (t0 + 8 * i0) e s1)"
    using l pm d pt_frame_trans unfolding map_outcome_def descending_def by metis
qed

definition walk_free :: "nat \<Rightarrow> mem \<Rightarrow> u64 \<Rightarrow> u64 \<Rightarrow> bool" where
  "walk_free n m root v \<longleftrightarrow>
     walkable m root [] (PML4_INDEX v) \<and>
     (2 \<le> n \<longrightarrow> walkable m root [PML4_INDEX v] (PDPT_INDEX v)) \<and>
     (3 \<le> n \<longrightarrow> walkable m root [PDPT_INDEX v, PML4_INDEX v] (PD_INDEX v))"

lemma map_page_result:
  assumes ok: "pt_ok root s" and fl: "fl AND PTE_ADDR_MASK = 0"
    and s': "s' = vmm_map_page root virt phys fl s"
  shows "map_outcome root 12 virt phys s s'"
    and "walk_free 3 (vmem s) root virt \<Longrightarrow> 3 \<le> card (free_pages (vpmm s, vmem s)) \<Longrightarrow>
      page_mapped root 12 virt phys s s'"
proof -
  let ?e = "page_entry phys fl"
  let ?F = "card (free_pages (vpmm s, vmem s))"
  note bits = leaf_entry_bits [OF fl, of phys]
  obtain pdpt s1 where 1: "vmm_next_table root (PML4_INDEX virt) s = (pdpt, s1)" using prod.exhaust by blast
  obtain pd s2 where 2: "vmm_next_table pdpt (PDPT_INDEX virt) s1 = (pd, s2)" using prod.exhaust by blast
  obtain pt s3 where 3: "vmm_next_table pd (PD_INDEX virt) s2 = (pt, s3)" using prod.exhaust by blast
  have z: "table_at (vmem s) root [] = Some root" by simp
  note d1 = descending_step [OF descending_refl [OF ok] path_ok_Nil z index_small(1) list.size(3) _ 1]
  note d2 = descending_step [OF d1(1) _ d1(2) index_small(2) _ _ 2]
  note d3 = descending_step [OF d2(1) _ d2(2) index_small(3) _ _ 3]
  note leaf = leaf_outcome [OF d3(1) _ d3(2) index_small(4), of ?e 12 virt phys]
  have mp: "page_mapped root 12 virt phys s3 (vmm_set_entry virt (pt + 8 * PT_INDEX virt) ?e s3)"
    if "pt_ok root s3" "table_at (vmem s3) root [PD_INDEX virt, PDPT_INDEX virt, PML4_INDEX virt] = Some pt"
    using translate_leaf_4k [OF pt_okD(2) [OF that(1)] bits(3) that(2)]
    by (intro set_entry_mapped) (auto simp: bits(1) mask_consts(3))
  have ok3: "pt_ok root s3" if "pdpt \<noteq> 0" "pd \<noteq> 0" using d3(1) that by (simp add: descending_def)
  have s': "s' = (if pdpt = 0 then s1 else if pd = 0 then s2 else if pt = 0 then s3
      else vmm_set_entry virt (pt + 8 * PT_INDEX virt) ?e s3)"
    unfolding s' vmm_map_page_def by (simp add: 1 2 3)
  show "map_outcome root 12 virt phys s s'"
    using d1(1) d2(1) d3(1) leaf(1) mp ok3 d3(2) by (auto simp: s' intro: descending_outcome simp del: table_at.simps)
  assume "walk_free 3 (vmem s) root virt" "3 \<le> ?F"
  then have "pdpt \<noteq> 0" "pd \<noteq> 0" "pt \<noteq> 0"
    using d1(3) d2(3) d3(3) by (simp_all add: walk_free_def)
  then show "page_mapped root 12 virt phys s s'"
    using leaf(2) mp ok3 d3(2) by (simp add: s' del: table_at.simps)
qed

lemma aligned_huge: "phys AND mask k = 0 \<Longrightarrow> phys AND PTE_ADDR_MASK AND NOT (mask k) = phys AND PTE_ADDR_MASK"
  for phys :: u64
proof -
  assume a: "phys AND mask k = 0"
  have "bit phys j \<Longrightarrow> \<not> j < k" for j
    using a bit_and_iff [of phys "mask k" j] bit_imp_le_length [of phys j] by (auto simp: bit_mask_iff)
  then show ?thesis by (intro bit_word_eqI) (auto simp: entry_bits bit_mask_iff)
qed

lemma map_2mb_result:
  assumes ok: "pt_ok root s" and fl: "fl AND PTE_ADDR_MASK = 0"
    and s': "s' = vmm_map_huge_2mb root virt phys fl s"
  shows "map_outcome root 21 virt phys s s'"
    and "walk_free 2 (vmem s) root virt \<Longrightarrow> 2 \<le> card (free_pages (vpmm s, vmem s)) \<Longrightarrow>
      virt AND mask 21 = 0 \<Longrightarrow> phys AND mask 21 = 0 \<Longrightarrow> page_mapped root 21 virt phys s s'"
proof -
  let ?e = "huge_entry phys fl"
  note bits = leaf_entry_bits [OF fl, of phys]
  obtain pdpt s1 where 1: "vmm_next_table root (PML4_INDEX virt) s = (pdpt, s1)" using prod.exhaust by blast
  obtain pd s2 where 2: "vmm_next_table pdpt (PDPT_INDEX virt) s1 = (pd, s2)" using prod.exhaust by blast
  have z: "table_at (vmem s) root [] = Some root" by simp
  note d1 = descending_step [OF descending_refl [OF ok] path_ok_Nil z index_small(1) list.size(3) _ 1]
  note d2 = descending_step [OF d1(1) _ d1(2) index_small(2) _ _ 2]
  have lf: "next_of ?e = None \<or> n = (3 :: nat)" for n using bits(5) by (simp add: next_of_def)
  note leaf = leaf_outcome [OF d2(1) _ d2(2) index_small(3) lf, of 21 virt phys]
  have mp: "page_mapped root 21 virt phys s2 (vmm_set_entry virt (pd + 8 * PD_INDEX virt) ?e s2)"
    if "pt_ok root s2" "table_at (vmem s2) root [PDPT_INDEX virt, PML4_INDEX virt] = Some pd"
    using translate_leaf_2m [OF pt_okD(2) [OF that(1)] bits(4) bits(5) that(2)]
    by (intro set_entry_mapped) (auto simp: bits(2) page_masks and.assoc [symmetric])
  have ok2: "pt_ok root s2" if "pdpt \<noteq> 0" using d2(1) that by (simp add: descending_def)
  have s': "s' = (if virt AND mask 21 \<noteq> 0 \<or> phys AND mask 21 \<noteq> 0 then s
      else if pdpt = 0 then s1 else if pd = 0 then s2
      else vmm_set_entry virt (pd + 8 * PD_INDEX virt) ?e s2)"
    unfolding s' vmm_map_huge_2mb_def mask_consts by (simp add: 1 2)
  show "map_outcome root 21 virt phys s s'"
    using descending_refl [OF ok] d1(1) d2(1) leaf(1) mp ok2 d2(2)
    by (auto simp: s' intro: descending_outcome simp del: table_at.simps)
  assume "walk_free 2 (vmem s) root virt" "2 \<le> card (free_pages (vpmm s, vmem s))"
    and al: "virt AND mask 21 = 0" "phys AND mask 21 = 0"
  then have "pdpt \<noteq> 0" "pd \<noteq> 0" using d1(3) d2(3) by (simp_all add: walk_free_def)
  then show "page_mapped root 21 virt phys s s'"
    using leaf(2) mp ok2 d2(2) al by (simp add: s' del: table_at.simps)
qed

lemma map_1gb_result:
  assumes ok: "pt_ok root s" and fl: "fl AND PTE_ADDR_MASK = 0"
    and s': "s' = vmm_map_huge_1gb root virt phys fl s"
  shows "map_outcome root 30 virt phys s s'"
    and "walk_free 1 (vmem s) root virt \<Longrightarrow> 1 \<le> card (free_pages (vpmm s, vmem s)) \<Longrightarrow>
      virt AND mask 30 = 0 \<Longrightarrow> phys AND mask 30 = 0 \<Longrightarrow> page_mapped root 30 virt phys s s'"
proof -
  let ?e = "huge_entry phys fl"
  note bits = leaf_entry_bits [OF fl, of phys]
  obtain pdpt s1 where 1: "vmm_next_table root (PML4_INDEX virt) s = (pdpt, s1)" using prod.exhaust by blast
  have z: "table_at (vmem s) root [] = Some root" by simp
  note d1 = descending_step [OF descending_refl [OF ok] path_ok_Nil z index_small(1) list.size(3) _ 1]
  have lf: "next_of ?e = None \<or> n = (3 :: nat)" for n using bits(5) by (simp add: next_of_def)
  note leaf = leaf_outcome [OF d1(1) _ d1(2) index_small(2) lf, of 30 virt phys]
  have mp: "page_mapped root 30 virt phys s1 (vmm_set_entry virt (pdpt + 8 * PDPT_INDEX virt) ?e s1)"
    if "pt_ok root s1" "table_at (vmem s1) root [PML4_INDEX virt] = Some pdpt"
    using translate_leaf_1g [OF pt_okD(2) [OF that(1)] bits(4) bits(5) that(2)]
    by (intro set_entry_mapped) (auto simp: bits(2) page_masks and.assoc [symmetric])
  have ok1: "pt_ok root s1" using d1(1) by (simp add: descending_def)
  have s': "s' = (if virt AND mask 30 \<noteq> 0 \<or> phys AND mask 30 \<noteq> 0 then s
      else if pdpt = 0 then s1 else vmm_set_entry virt (pdpt + 8 * PDPT_INDEX virt) ?e s1)"
    unfolding s' vmm_map_huge_1gb_def mask_consts by (simp add: 1)
  show "map_outcome root 30 virt phys s s'"
    using descending_refl [OF ok] d1(1) leaf(1) mp ok1 d1(2)
    by (auto simp: s' intro: descending_outcome simp del: table_at.simps)
  assume "walk_free 1 (vmem s) root virt" "1 \<le> card (free_pages (vpmm s, vmem s))"
    and al: "virt AND mask 30 = 0" "phys AND mask 30 = 0"
  then have "pdpt \<noteq> 0" using d1(3) by (simp add: walk_free_def)
  then show "page_mapped root 30 virt phys s s'"
    using leaf(2) mp ok1 d1(2) al by (simp add: s' del: table_at.simps)
qed

section \<open>Properties\<close>

text \<open>
  A state for the witnesses: an empty root table at page 8, the bitmap in page 1, and free
  pages 4 to 7.
\<close>

definition demo_vm :: vm where
  "demo_vm = \<lparr>vpmm = \<lparr>pmm_bitmap = 0x1000, pmm_max_blocks = 64, pmm_bitmap_size = 4096, pmm_hint_word = 0\<rparr>,
     vmem = wr64 (\<lambda>_. 0) 0x1000 (NOT 0xF0), invlpg = []\<rparr>"

lemma demo_vm_used: "b < 64 \<Longrightarrow> pmm_used (vpmm demo_vm) (vmem demo_vm) b \<longleftrightarrow> \<not> (4 \<le> b \<and> b < 8)"
proof -
  assume b: "b < 64"
  have "bit (0xF0 :: u64) b \<longleftrightarrow> 4 \<le> b \<and> b < 8"
  proof -
    have e: "(0xF0 :: u64) = push_bit 4 (mask 4)" by (simp add: mask_eq_exp_minus_1 push_bit_eq_mult)
    show ?thesis unfolding e by (auto simp: bit_push_bit_iff bit_mask_iff simp del: push_bit_mask_eq)
  qed
  moreover have "bit (NOT 0xF0 :: u64) b \<longleftrightarrow> \<not> bit (0xF0 :: u64) b"
    using b by (simp only: bit_not_iff) simp
  moreover have "pmm_used (vpmm demo_vm) (vmem demo_vm) b \<longleftrightarrow> bit (NOT 0xF0 :: u64) b"
    using b bit_bitmap_word [of "vmem demo_vm" "vpmm demo_vm" 0 b] by (simp add: demo_vm_def rd64_wr64)
  ultimately show ?thesis by simp
qed

lemma demo_vm_free: "free_pages (vpmm demo_vm, vmem demo_vm) = {4..<8}"
  using demo_vm_used by (auto simp: free_pages_def demo_vm_def)

lemma demo_vm_zero: "i < 512 \<Longrightarrow> rd64 (vmem demo_vm) (0x8000 + 8 * i) = 0"
proof (rule zero_table)
  fix x assume i: "i < 512" and x: "x \<in> region (0x8000 + 8 * i) 8"
  have "page_aligned 0x8000" by (simp add: page_aligned_def)
  then have "x \<in> region 0x8000 4096" using entry_in_table [of "0x8000" i] i x by blast
  moreover have "region 0x1000 8 \<inter> region 0x8000 4096 = {}" by (rule region_disjoint) simp_all
  ultimately have "x \<notin> region 0x1000 8" by blast
  then show "vmem demo_vm x = 0" by (simp add: demo_vm_def wr64_outside)
qed

lemma demo_vm_live: "path_ok up \<Longrightarrow> i < 512 \<Longrightarrow> live (vmem demo_vm) 0x8000 up i = None"
  and demo_vm_paths: "path_ok up \<Longrightarrow> table_at (vmem demo_vm) 0x8000 up = Some t \<Longrightarrow> up = [] \<and> t = 0x8000"
proof -
  have p: "path_ok up \<Longrightarrow> table_at (vmem demo_vm) 0x8000 up = Some t \<Longrightarrow> up = [] \<and> t = 0x8000" for up t
    by (induction up arbitrary: t) (auto simp: demo_vm_zero split: option.splits)
  then show "path_ok up \<Longrightarrow> table_at (vmem demo_vm) 0x8000 up = Some t \<Longrightarrow> up = [] \<and> t = 0x8000" .
  show "path_ok up \<Longrightarrow> i < 512 \<Longrightarrow> live (vmem demo_vm) 0x8000 up i = None"
    by (auto simp: live_def Let_def demo_vm_zero dest!: p split: option.splits)
qed

lemma demo_vm_ok: "pt_ok 0x8000 demo_vm"
proof -
  have r: "region 0x1000 8 \<inter> region (of_nat (b * 4096)) 4096 = {}" if "2 \<le> b" "b < 64" for b
  proof (rule region_disjoint)
    have u: "unat (of_nat (b * 4096) :: u64) = b * 4096" using that by (intro unat_of_nat_small) simp
    show "unat (0x1000 :: u64) + 8 \<le> unat (of_nat (b * 4096) :: u64)" using that unfolding u by simp
    show "unat (of_nat (b * 4096) :: u64) + 4096 \<le> 2 ^ 64" using that unfolding u by simp
  qed
  have bm: "bitmap_region (vpmm demo_vm) = region 0x1000 8"
    by (simp add: bitmap_region_def bitmap_words_def demo_vm_def)
  have "pmm_ok (vpmm demo_vm, vmem demo_vm)"
    using demo_vm_used by (auto simp: pmm_ok_def Let_def bitmap_words_def demo_vm_def)
  moreover have "pt_tree (vmem demo_vm) 0x8000"
    using demo_vm_paths by (auto simp: pt_tree_def page_aligned_def)
  moreover have "page_of 0x8000 \<notin> free_pages (vpmm demo_vm, vmem demo_vm)"
    by (simp add: demo_vm_free page_of_def)
  ultimately show ?thesis
    using demo_vm_paths r [of 8] r unfolding pt_ok_def bm demo_vm_free by (auto simp: Int_commute)
qed

lemma demo_vm_walk: "walk_free n (vmem demo_vm) 0x8000 v"
  by (simp add: walk_free_def walkable_def demo_vm_live)

text \<open>
  C10: \<^verbatim>\<open>vmm_map_page\<close> on well-formed page tables keeps them well formed and writes only to
  tables, free pages and the bitmap. Either the page of \<open>virt\<close> then translates to the page of
  \<open>phys\<close> and every other address as before, or no translation changes at all; a changed
  translation is always followed by \<^verbatim>\<open>invlpg\<close>. When no huge page is in the way and three pages
  are free, the mapping succeeds.
\<close>

theorem vmm_map_page_correct:
  assumes "pt_ok root s" and "fl AND PTE_ADDR_MASK = 0"
    and "s' = vmm_map_page root virt phys fl s"
  shows "pt_ok root s' \<and> pt_frame root s s' \<and>
    (page_mapped root 12 virt phys s s' \<or> map_refused root s s') \<and>
    (walk_free 3 (vmem s) root virt \<and> 3 \<le> card (free_pages (vpmm s, vmem s)) \<longrightarrow>
       page_mapped root 12 virt phys s s')"
  using map_page_result [OF assms] by (simp add: map_outcome_def)

theorem vmm_map_page_correct_witness:
  "translate (vmem (vmm_map_page 0x8000 0x40001000 0x5000 0x3 demo_vm)) 0x8000 0x40001234 = Some 0x5234"
proof -
  have "page_mapped 0x8000 12 0x40001000 0x5000 demo_vm (vmm_map_page 0x8000 0x40001000 0x5000 0x3 demo_vm)"
    using vmm_map_page_correct [OF demo_vm_ok, of "0x3" _ "0x40001000" "0x5000"] demo_vm_walk
    by (simp add: demo_vm_free PTE_ADDR_MASK_def)
  then show ?thesis
    by (simp add: page_mapped_def same_page_def PTE_ADDR_MASK_def take_bit_eq_mod drop_bit_eq_div
        mask_eq_exp_minus_1)
qed

text \<open>
  \<^verbatim>\<open>vmm_map_huge_2mb\<close> satisfies the same contract for 2 MB pages; it succeeds when both
  addresses are 2 MB aligned, no 1 GB page is in the way and two pages are free.
\<close>

theorem vmm_map_huge_2mb_correct:
  assumes "pt_ok root s" and "fl AND PTE_ADDR_MASK = 0"
    and "s' = vmm_map_huge_2mb root virt phys fl s"
  shows "pt_ok root s' \<and> pt_frame root s s' \<and>
    (page_mapped root 21 virt phys s s' \<or> map_refused root s s') \<and>
    (walk_free 2 (vmem s) root virt \<and> 2 \<le> card (free_pages (vpmm s, vmem s)) \<and>
       virt AND mask 21 = 0 \<and> phys AND mask 21 = 0 \<longrightarrow> page_mapped root 21 virt phys s s')"
  using map_2mb_result [OF assms] by (simp add: map_outcome_def)

theorem vmm_map_huge_2mb_correct_witness:
  "translate (vmem (vmm_map_huge_2mb 0x8000 0x40200000 0x600000 0x83 demo_vm)) 0x8000 0x40212345 = Some 0x612345"
proof -
  have "page_mapped 0x8000 21 0x40200000 0x600000 demo_vm
      (vmm_map_huge_2mb 0x8000 0x40200000 0x600000 0x83 demo_vm)"
    using vmm_map_huge_2mb_correct [OF demo_vm_ok, of "0x83" _ "0x40200000" "0x600000"] demo_vm_walk
    by (simp add: demo_vm_free PTE_ADDR_MASK_def mask_eq_exp_minus_1)
  then show ?thesis
    by (simp add: page_mapped_def same_page_def PTE_ADDR_MASK_def take_bit_eq_mod drop_bit_eq_div
        mask_eq_exp_minus_1)
qed

text \<open>
  \<^verbatim>\<open>vmm_map_huge_1gb\<close> satisfies the same contract for 1 GB pages; it succeeds when both
  addresses are 1 GB aligned and one page is free.
\<close>

theorem vmm_map_huge_1gb_correct:
  assumes "pt_ok root s" and "fl AND PTE_ADDR_MASK = 0"
    and "s' = vmm_map_huge_1gb root virt phys fl s"
  shows "pt_ok root s' \<and> pt_frame root s s' \<and>
    (page_mapped root 30 virt phys s s' \<or> map_refused root s s') \<and>
    (walk_free 1 (vmem s) root virt \<and> 1 \<le> card (free_pages (vpmm s, vmem s)) \<and>
       virt AND mask 30 = 0 \<and> phys AND mask 30 = 0 \<longrightarrow> page_mapped root 30 virt phys s s')"
  using map_1gb_result [OF assms] by (simp add: map_outcome_def)

theorem vmm_map_huge_1gb_correct_witness:
  "translate (vmem (vmm_map_huge_1gb 0x8000 0x80000000 0x40000000 0x83 demo_vm)) 0x8000 0x80000042 = Some 0x40000042"
proof -
  have "page_mapped 0x8000 30 0x80000000 0x40000000 demo_vm
      (vmm_map_huge_1gb 0x8000 0x80000000 0x40000000 0x83 demo_vm)"
    using vmm_map_huge_1gb_correct [OF demo_vm_ok, of "0x83" _ "0x80000000" "0x40000000"] demo_vm_walk
    by (simp add: demo_vm_free PTE_ADDR_MASK_def mask_eq_exp_minus_1)
  then show ?thesis
    by (simp add: page_mapped_def same_page_def PTE_ADDR_MASK_def take_bit_eq_mod drop_bit_eq_div
        mask_eq_exp_minus_1)
qed

end
