(* ===== verification/Usb.thy ===== *)
theory Usb
  imports Lapic Pci Vmm
begin

text \<open>
  The xHCI driver and the USB keyboard, \<^verbatim>\<open>src/drivers/usb.cpp\<close> and \<^verbatim>\<open>usb.hpp\<close>.

  \<^item> The object \<^verbatim>\<open>static_xhci\<close> lies at \<open>X\<close>; its arrays, which the controller accesses, are memory at
    the offsets the class declaration gives them, its other members are fields of \<open>xhci\<close>.
  \<^item> The controller writes to memory on its own. Before the driver looks at the event ring,
    \<open>dma_sync\<close> lets the environment \<open>dma\<close> change memory, depending on the accesses made so far.
  \<^item> Loops that poll a bounded number of times keep their bound.
\<close>

section \<open>State\<close>

record xhci =
  mmio :: u64
  opr :: u64
  rt :: u64
  ports :: u64
  db :: u64
  caplength :: u8
  max_slots :: u8
  max_intrs :: u16
  max_ports :: u8
  num_scratchpad :: u32
  pagesize :: u32
  dcbaap_phys :: u64
  cmd_ring_phys :: u64
  evt_ring_phys :: u64
  erst_phys :: u64
  pci_bus :: u8
  pci_slot :: u8
  pci_func :: u8
  cmd_idx :: u32
  cmd_cycle :: u32
  evt_idx :: u32
  evt_cycle :: u32
  ep0_idx :: u32
  ep0_cycle :: u32
  intr_idx :: u32
  intr_cycle :: u32
  prev_keys :: "u8 list"
  hid_ep_num :: u8
  hid_ep_mps :: u16
  hid_interface :: u8
  usb_active_slot :: int
  usb_irq_active :: bool

definition xhci_initial :: xhci where
  "xhci_initial = \<lparr>mmio = 0, opr = 0, rt = 0, ports = 0, db = 0, caplength = 0, max_slots = 0, max_intrs = 0,
     max_ports = 0, num_scratchpad = 0, pagesize = 0, dcbaap_phys = 0, cmd_ring_phys = 0, evt_ring_phys = 0,
     erst_phys = 0, pci_bus = 0, pci_slot = 0, pci_func = 0, cmd_idx = 0, cmd_cycle = 0, evt_idx = 0,
     evt_cycle = 0, ep0_idx = 0, ep0_cycle = 0, intr_idx = 0, intr_cycle = 0, prev_keys = replicate 6 0,
     hid_ep_num = 0, hid_ep_mps = 0, hid_interface = 0, usb_active_slot = 0, usb_irq_active = False\<rparr>"

record usb = lapic +
  kinput :: input_state
  kpmm :: pmm
  kinvlpg :: "u64 list"
  xh :: xhci
  isr_count :: u64
  keys_count :: u64
  push_count :: u64
  bad_code_count :: u64
  xfer_pending :: bool
  dma :: "io list \<Rightarrow> mem \<Rightarrow> mem"

text \<open>The offsets of the arrays in \<^verbatim>\<open>XhciController\<close>, from their sizes and alignments.\<close>

abbreviation RING_TRBS :: u32 where "RING_TRBS \<equiv> 256"
abbreviation MAX_SCRATCHPAD :: u32 where "MAX_SCRATCHPAD \<equiv> 32"

definition x_dcbaap :: "u64 \<Rightarrow> u64" where "x_dcbaap X = X + 128"
definition x_scratchpad_array :: "u64 \<Rightarrow> u64" where "x_scratchpad_array X = X + 2176"
definition x_scratchpad_data :: "u64 \<Rightarrow> u64" where "x_scratchpad_data X = X + 4096"
definition x_cmd_ring :: "u64 \<Rightarrow> u64" where "x_cmd_ring X = X + 135168"
definition x_evt_ring :: "u64 \<Rightarrow> u64" where "x_evt_ring X = X + 139264"
definition x_erst :: "u64 \<Rightarrow> u64" where "x_erst X = X + 143360"
definition x_ep0_ring :: "u64 \<Rightarrow> u64" where "x_ep0_ring X = X + 143424"
definition x_intr_ring :: "u64 \<Rightarrow> u64" where "x_intr_ring X = X + 147520"
definition x_input_ctx :: "u64 \<Rightarrow> u64" where "x_input_ctx X = X + 151616"
definition x_dev_ctx :: "u64 \<Rightarrow> u64" where "x_dev_ctx X = X + 152704"
definition x_ctrl_buf :: "u64 \<Rightarrow> u64" where "x_ctrl_buf X = X + 414848"
definition x_intr_buf :: "u64 \<Rightarrow> u64" where "x_intr_buf X = X + 415360"

lemmas x_offsets = x_dcbaap_def x_scratchpad_array_def x_scratchpad_data_def x_cmd_ring_def x_evt_ring_def x_erst_def
  x_ep0_ring_def x_intr_ring_def x_input_ctx_def x_dev_ctx_def x_ctrl_buf_def x_intr_buf_def

abbreviation XHCI_TRB_LINK :: u32 where "XHCI_TRB_LINK \<equiv> 6"
abbreviation XHCI_TRB_SETUP :: u32 where "XHCI_TRB_SETUP \<equiv> 2"
abbreviation XHCI_TRB_DATA :: u32 where "XHCI_TRB_DATA \<equiv> 3"
abbreviation XHCI_TRB_STATUS :: u32 where "XHCI_TRB_STATUS \<equiv> 4"
abbreviation XHCI_TRB_ENABLE_SLOT :: u32 where "XHCI_TRB_ENABLE_SLOT \<equiv> 9"
abbreviation XHCI_TRB_ADDRESS_DEV :: u32 where "XHCI_TRB_ADDRESS_DEV \<equiv> 11"
abbreviation XHCI_TRB_CONFIG_EP :: u32 where "XHCI_TRB_CONFIG_EP \<equiv> 12"
abbreviation XHCI_TRB_NORMAL :: u32 where "XHCI_TRB_NORMAL \<equiv> 1"
abbreviation XHCI_TRB_XFER_EVT :: u8 where "XHCI_TRB_XFER_EVT \<equiv> 32"
abbreviation XHCI_TRB_CMD_CMPL :: u8 where "XHCI_TRB_CMD_CMPL \<equiv> 33"
abbreviation XHCI_TRB_PORTSC :: u8 where "XHCI_TRB_PORTSC \<equiv> 34"
abbreviation USB_IRQ_VECTOR :: u8 where "USB_IRQ_VECTOR \<equiv> 0x40"

abbreviation set_xh :: "(xhci \<Rightarrow> xhci) \<Rightarrow> 'z usb_scheme \<Rightarrow> 'z usb_scheme" where "set_xh \<equiv> xh_update"

definition dma_sync :: "'z usb_scheme \<Rightarrow> 'z usb_scheme" where
  "dma_sync s = io_do Dma_Sync (set_kmem (dma s (io_log s) (kmem s)) s)"

text \<open>Transfer request blocks: parameter, status, control.\<close>

definition trb_write :: "u64 \<Rightarrow> u32 \<Rightarrow> u64 \<Rightarrow> u32 \<Rightarrow> u32 \<Rightarrow> mem \<Rightarrow> mem" where
  "trb_write ring idx param stat ctrl m =
     (let a = ring + 16 * ucast idx in wr32 (wr32 (wr64 m a param) (a + 8) stat) (a + 12) ctrl)"

definition trb_param :: "mem \<Rightarrow> u64 \<Rightarrow> u32 \<Rightarrow> u64" where "trb_param m ring idx = rd64 m (ring + 16 * ucast idx)"
definition trb_status :: "mem \<Rightarrow> u64 \<Rightarrow> u32 \<Rightarrow> u32" where "trb_status m ring idx = rd32 m (ring + 16 * ucast idx + 8)"
definition trb_control :: "mem \<Rightarrow> u64 \<Rightarrow> u32 \<Rightarrow> u32" where "trb_control m ring idx = rd32 m (ring + 16 * ucast idx + 12)"

definition trb_type :: "u32 \<Rightarrow> u8" where "trb_type ctrl = ucast (drop_bit 10 ctrl AND 0x3F)"
definition trb_code :: "u32 \<Rightarrow> u8" where "trb_code stat = ucast (drop_bit 24 stat AND 0xFF)"

definition on_mem :: "(mem \<Rightarrow> mem) \<Rightarrow> 'z console_scheme \<Rightarrow> 'z console_scheme" where
  "on_mem f s = set_kmem (f (kmem s)) s"

section \<open>Keys\<close>

definition hid_key_to_ascii :: "u8 \<Rightarrow> u8" where
  "hid_key_to_ascii k =
     (if 0x04 \<le> k \<and> k \<le> 0x1D then k - 0x04 + 0x61
      else if 0x1E \<le> k \<and> k \<le> 0x26 then k - 0x1E + 0x31
      else if k = 0x27 then 0x30
      else if k = 0x28 then 0x0A
      else if k = 0x29 then 27
      else if k = 0x2A then 0x08
      else if k = 0x2B then 0x09
      else if k = 0x2C then 0x20
      else if k = 0x2D then 0x2D
      else if k = 0x2E then 0x3D
      else if k = 0x2F then 0x5B
      else if k = 0x30 then 0x5D
      else if k = 0x31 then 0x5C
      else if k = 0x33 then 0x3B
      else if k = 0x34 then 0x27
      else if k = 0x35 then 0x60
      else if k = 0x36 then 0x2C
      else if k = 0x37 then 0x2E
      else if k = 0x38 then 0x2F
      else 0)"

text \<open>One key of a report: new keys are counted, and queued if they have a character.\<close>

definition process_key :: "u8 \<Rightarrow> 'z usb_scheme \<Rightarrow> 'z usb_scheme" where
  "process_key k s =
     (if k = 0 then s
      else if k \<in> set (prev_keys (xh s)) then s
      else
        let s = s\<lparr>keys_count := keys_count s + 1\<rparr>; c = hid_key_to_ascii k in
        if c \<noteq> 0 then s\<lparr>kinput := input_push c (kinput s), push_count := push_count s + 1\<rparr> else s)"

definition process_keys :: "u64 \<Rightarrow> 'z usb_scheme \<Rightarrow> 'z usb_scheme" where
  "process_keys report s =
     (let keys = map (\<lambda>i. kmem s (report + 2 + of_nat i)) [0..<6];
          s = fold process_key keys s
      in set_xh (prev_keys_update (\<lambda>_. keys)) s)"

section \<open>Controller registers\<close>

definition lapic_enable :: "'z hw_scheme \<Rightarrow> 'z hw_scheme" where
  "lapic_enable s =
     (let (msr, s) = io_ask (Msr_Read 0x1B) s;
          s = io_do (Msr_Write 0x1B (msr OR push_bit 11 1)) s;
          (svr, s) = mmio_read (0xFEE00000 + 0xF0) s;
          svr = (if svr AND 0xFF = 0 then (svr AND NOT 0xFF) OR 0xFF else svr);
          svr = svr OR push_bit 8 1
      in mmio_write (0xFEE00000 + 0x80) 0 (mmio_write (0xFEE00000 + 0xF0) svr s))"

definition parse_caps :: "u64 \<Rightarrow> 'z usb_scheme \<Rightarrow> 'z usb_scheme" where
  "parse_caps base_addr s =
     (let (cap0, s) = mmio_read base_addr s;
          (cap1, s) = mmio_read (base_addr + 0x04) s;
          (cap2, s) = mmio_read (base_addr + 0x08) s;
          (dboff, s) = mmio_read (base_addr + 0x14) s;
          (rtsoff, s) = mmio_read (base_addr + 0x18) s;
          cl = ucast (cap0 AND 0xFF) :: u8;
          o' = base_addr + ucast cl
      in set_xh (\<lambda>x. x\<lparr>mmio := base_addr, caplength := cl,
           max_slots := ucast (cap1 AND 0xFF), max_intrs := ucast (drop_bit 8 cap1 AND 0x7FF),
           max_ports := ucast (drop_bit 24 cap1 AND 0xFF),
           num_scratchpad := push_bit 5 (drop_bit 21 cap2 AND 0x1F) OR (cap2 AND 0xFF),
           opr := o', db := base_addr + ucast (dboff AND NOT 0x3), rt := base_addr + ucast (rtsoff AND NOT 0x1F),
           ports := o' + 0x400\<rparr>) s)"

definition halt :: "'z usb_scheme \<Rightarrow> 'z usb_scheme" where
  "halt s =
     (let s = mmio_write (opr (xh s)) 0 s
      in snd (poll 1000000 (Mmio_Read (opr (xh s) + 0x04)) (\<lambda>v. v AND 1 \<noteq> 0) s))"

definition xhci_reset :: "'z usb_scheme \<Rightarrow> 'z usb_scheme" where
  "xhci_reset s =
     (let o' = opr (xh s);
          s = snd (poll 1000000 (Mmio_Read (o' + 0x04)) (\<lambda>v. v AND push_bit 11 1 = 0) s);
          s = halt s;
          s = mmio_write o' 2 s;
          s = snd (poll 10000000 (Mmio_Read o') (\<lambda>v. v AND 2 = 0) s);
          s = snd (poll 10000000 (Mmio_Read (o' + 0x04)) (\<lambda>v. v AND push_bit 11 1 = 0) s);
          s = halt s;
          (p, s) = mmio_read (o' + 0x08) s
      in set_xh (pagesize_update (\<lambda>_. p)) s)"

definition write_phys :: "u64 \<Rightarrow> u64 \<Rightarrow> 'z hw_scheme \<Rightarrow> 'z hw_scheme" where
  "write_phys reg_addr v s = mmio_write (reg_addr + 4) (ucast (drop_bit 32 v)) (mmio_write reg_addr (ucast v) s)"

definition setup_dcbaap :: "u64 \<Rightarrow> 'z usb_scheme \<Rightarrow> 'z usb_scheme" where
  "setup_dcbaap X s =
     (let sp = (if num_scratchpad (xh s) > MAX_SCRATCHPAD then MAX_SCRATCHPAD else num_scratchpad (xh s));
          s = on_mem (\<lambda>m. memset m (x_dcbaap X) 0 2048) s;
          s = (if sp > 0 then
                 on_mem (\<lambda>m. wr64 m (x_dcbaap X) (x_scratchpad_array X))
                   (for_loop 0 sp (\<lambda>i. on_mem (\<lambda>m.
                      wr64 (memset m (x_scratchpad_data X + 4096 * ucast i) 0 4096)
                        (x_scratchpad_array X + 8 * ucast i) (x_scratchpad_data X + 4096 * ucast i))) s)
               else s);
          s = set_xh (dcbaap_phys_update (\<lambda>_. x_dcbaap X)) s
      in write_phys (opr (xh s) + 0x30) (x_dcbaap X) s)"

definition setup_cmd_ring :: "u64 \<Rightarrow> 'z usb_scheme \<Rightarrow> 'z usb_scheme" where
  "setup_cmd_ring X s =
     (let ring = x_cmd_ring X;
          s = on_mem (\<lambda>m. memset m ring 0 4096) s;
          s = set_xh (\<lambda>x. x\<lparr>cmd_ring_phys := ring, cmd_idx := 0, cmd_cycle := 1\<rparr>) s;
          s = on_mem (\<lambda>m. wr32 (wr64 m (ring + 16 * 255) ring) (ring + 16 * 255 + 12)
                 (push_bit 10 XHCI_TRB_LINK OR push_bit 1 1 OR 1)) s;
          s = mmio_write (opr (xh s) + 0x18) (ucast ring OR 1) s
      in mmio_write (opr (xh s) + 0x1C) (ucast (drop_bit 32 ring)) s)"

definition setup_evt_ring :: "u64 \<Rightarrow> 'z usb_scheme \<Rightarrow> 'z usb_scheme" where
  "setup_evt_ring X s =
     (let ring = x_evt_ring X; erst = x_erst X;
          s = on_mem (\<lambda>m. memset m ring 0 4096) s;
          s = set_xh (\<lambda>x. x\<lparr>evt_ring_phys := ring, evt_idx := 0, evt_cycle := 1, erst_phys := erst\<rparr>) s;
          s = on_mem (\<lambda>m. wr32 (wr32 (wr64 m erst ring) (erst + 8) RING_TRBS) (erst + 12) 0) s;
          ir = rt (xh s) + 0x20;
          s = mmio_write (ir + 0x08) 1 s;
          s = write_phys (ir + 0x18) ring s
      in write_phys (ir + 0x10) erst s)"

definition xhci_start :: "'z usb_scheme \<Rightarrow> 'z usb_scheme" where
  "xhci_start s =
     (let s = mmio_write (opr (xh s)) 1 s
      in snd (poll 1000000 (Mmio_Read (opr (xh s) + 0x04)) (\<lambda>v. v AND 1 = 0) s))"

section \<open>Event ring and commands\<close>

definition evt_advance :: "'z usb_scheme \<Rightarrow> 'z usb_scheme" where
  "evt_advance s =
     (let s = set_xh (\<lambda>x. x\<lparr>evt_idx := evt_idx x + 1\<rparr>) s;
          s = (if evt_idx (xh s) = RING_TRBS
               then set_xh (\<lambda>x. x\<lparr>evt_idx := 0, evt_cycle := evt_cycle x XOR 1\<rparr>) s else s);
          ir = rt (xh s) + 0x20;
          erdp = evt_ring_phys (xh s) + ucast (evt_idx (xh s)) * 16;
          s = mmio_write (ir + 0x18) (ucast erdp OR push_bit 3 1) s
      in mmio_write (ir + 0x1C) (ucast (drop_bit 32 erdp)) s)"

text \<open>
  The loop of \<^verbatim>\<open>wait_cmd\<close> and \<^verbatim>\<open>wait_xfer\<close>: it consumes events until one of type \<open>want\<close> for the block at
  \<open>phys\<close> arrives, and returns its status and control words.
\<close>

fun wait_event :: "u64 \<Rightarrow> nat \<Rightarrow> u8 \<Rightarrow> u8 list \<Rightarrow> u64 \<Rightarrow> 'z usb_scheme \<Rightarrow> (u32 \<times> u32) option \<times> 'z usb_scheme" where
  "wait_event X 0 want others phys s = (None, s)"
| "wait_event X (Suc n) want others phys s =
     (let s = dma_sync s;
          ring = x_evt_ring X; i = evt_idx (xh s);
          ctrl = trb_control (kmem s) ring i
      in if ctrl AND 1 \<noteq> evt_cycle (xh s) then wait_event X n want others phys s
         else if trb_type ctrl = want then
           let stat = trb_status (kmem s) ring i; p = trb_param (kmem s) ring i; s = evt_advance s
           in if p = phys then (Some (stat, ctrl), s) else wait_event X n want others phys s
         else if trb_type ctrl \<in> set others then wait_event X n want others phys (evt_advance s)
         else wait_event X n want others phys s)"

definition wait_cmd :: "u64 \<Rightarrow> u64 \<Rightarrow> 'z usb_scheme \<Rightarrow> int \<times> u8 option \<times> 'z usb_scheme" where
  "wait_cmd X cmd_phys s =
     (case wait_event X 20000000 XHCI_TRB_CMD_CMPL [XHCI_TRB_PORTSC, XHCI_TRB_XFER_EVT] cmd_phys s of
        (None, s) \<Rightarrow> (-1, None, s)
      | (Some (stat, ctrl), s) \<Rightarrow> (uint (trb_code stat), Some (ucast (drop_bit 24 ctrl AND 0xFF)), s))"

definition submit_cmd :: "u64 \<Rightarrow> u32 \<Rightarrow> u64 \<Rightarrow> u32 \<Rightarrow> u8 \<Rightarrow> 'z usb_scheme \<Rightarrow> int \<times> u8 option \<times> 'z usb_scheme" where
  "submit_cmd X type param stat slot_id s =
     (let ring = x_cmd_ring X;
          s = (if cmd_idx (xh s) = RING_TRBS - 1 then
                 set_xh (\<lambda>x. x\<lparr>cmd_idx := 0, cmd_cycle := cmd_cycle x XOR 1\<rparr>)
                   (on_mem (\<lambda>m. wr32 m (ring + 16 * 255 + 12)
                      (push_bit 10 XHCI_TRB_LINK OR push_bit 1 1 OR cmd_cycle (xh s))) s)
               else s);
          phys = cmd_ring_phys (xh s) + ucast (cmd_idx (xh s)) * 16;
          s = on_mem (trb_write ring (cmd_idx (xh s)) param stat
                (push_bit 10 type OR push_bit 24 (ucast slot_id) OR cmd_cycle (xh s))) s;
          s = mmio_write (db (xh s)) 0 s;
          s = set_xh (\<lambda>x. x\<lparr>cmd_idx := cmd_idx x + 1\<rparr>) s
      in wait_cmd X phys s)"

definition ep0_init :: "u64 \<Rightarrow> 'z usb_scheme \<Rightarrow> 'z usb_scheme" where
  "ep0_init X s =
     set_xh (\<lambda>x. x\<lparr>ep0_idx := 0, ep0_cycle := 1\<rparr>) (on_mem (\<lambda>m. memset m (x_ep0_ring X) 0 4096) s)"

definition wait_xfer :: "u64 \<Rightarrow> u64 \<Rightarrow> 'z usb_scheme \<Rightarrow> int \<times> 'z usb_scheme" where
  "wait_xfer X trb_phys s =
     (case wait_event X 20000000 XHCI_TRB_XFER_EVT [XHCI_TRB_PORTSC, XHCI_TRB_CMD_CMPL] trb_phys s of
        (None, s) \<Rightarrow> (-1, s)
      | (Some (stat, ctrl), s) \<Rightarrow> (uint (trb_code stat), s))"

definition setup_packet :: "u8 \<Rightarrow> u8 \<Rightarrow> u16 \<Rightarrow> u16 \<Rightarrow> u16 \<Rightarrow> u64" where
  "setup_packet bmRequestType bRequest wValue wIndex wLength =
     ucast bmRequestType OR push_bit 8 (ucast bRequest) OR push_bit 16 (ucast wValue) OR
     push_bit 32 (ucast wIndex) OR push_bit 48 (ucast wLength)"

definition control_xfer ::
  "u64 \<Rightarrow> u8 \<Rightarrow> u8 \<Rightarrow> u8 \<Rightarrow> u16 \<Rightarrow> u16 \<Rightarrow> u16 \<Rightarrow> u64 \<Rightarrow> bool \<Rightarrow> 'z usb_scheme \<Rightarrow> int \<times> 'z usb_scheme" where
  "control_xfer X slt bmRequestType bRequest wValue wIndex wLength data dir_in s =
     (let has_data = (wLength \<noteq> 0);
          trt = (if has_data then if dir_in then 2 else 3 else 0) :: u32;
          idx = ep0_idx (xh s); cycle = ep0_cycle (xh s); ring = x_ep0_ring X
      in if sint idx + 3 \<ge> 256 then (-1, s)
         else
           let s = on_mem (trb_write ring idx (setup_packet bmRequestType bRequest wValue wIndex wLength) 8
                     (push_bit 10 XHCI_TRB_SETUP OR push_bit 16 trt OR push_bit 6 1 OR cycle)) s;
               idx = idx + 1;
               s = (if has_data then
                      on_mem (trb_write ring idx data (ucast wLength)
                        (push_bit 10 XHCI_TRB_DATA OR push_bit 16 (if dir_in then 1 else 0) OR cycle)) s
                    else s);
               idx = (if has_data then idx + 1 else idx);
               status_dir = (if has_data then if dir_in then 0 else 1 else 1) :: u32;
               s = on_mem (trb_write ring idx 0 0
                     (push_bit 10 XHCI_TRB_STATUS OR push_bit 16 status_dir OR push_bit 5 1 OR cycle)) s;
               status_phys = ring + 16 * ucast idx;
               s = set_xh (\<lambda>x. x\<lparr>ep0_idx := idx + 1\<rparr>) s;
               s = mmio_write (db (xh s) + 4 * ucast slt) 1 s
           in wait_xfer X status_phys s)"

definition enable_slot :: "u64 \<Rightarrow> 'z usb_scheme \<Rightarrow> int \<times> 'z usb_scheme" where
  "enable_slot X s =
     (case submit_cmd X XHCI_TRB_ENABLE_SLOT 0 0 0 s of (rc, sl, s) \<Rightarrow>
        if rc \<noteq> 1 then (-1, kprintf (''USB: Enable Slot failed (rc=%d)'' @ [CHR 0x0A]) [ArgInt (of_int rc)] s)
        else (uint (case sl of None \<Rightarrow> 0 | Some v \<Rightarrow> v), s))"

definition dev_ctx_at :: "u64 \<Rightarrow> u8 \<Rightarrow> u64" where "dev_ctx_at X slt = x_dev_ctx X + 1024 * ucast slt"

definition address_device :: "u64 \<Rightarrow> u8 \<Rightarrow> u32 \<Rightarrow> u32 \<Rightarrow> 'z usb_scheme \<Rightarrow> int \<times> 'z usb_scheme" where
  "address_device X slt port speed s =
     (let ic = x_input_ctx X; ep0_phys = x_ep0_ring X;
          s = on_mem (\<lambda>m. memset (memset m (dev_ctx_at X slt) 0 1024) ic 0 1056) s;
          s = ep0_init X s;
          s = on_mem (\<lambda>m. wr64 m (x_dcbaap X + 8 * ucast slt) (dev_ctx_at X slt)) s;
          s = on_mem (\<lambda>m.
                let m = wr32 m (ic + 4) (1 OR push_bit 1 1);
                    m = wr32 m (ic + 32) (push_bit 20 speed OR push_bit 27 1);
                    m = wr32 m (ic + 36) (push_bit 16 port);
                    m = wr32 m (ic + 68) (push_bit 3 4 OR push_bit 16 8);
                    m = wr32 m (ic + 72) (ucast (ep0_phys AND 0xFFFFFFF0) OR 1);
                    m = wr32 m (ic + 76) (ucast (drop_bit 32 ep0_phys))
                in wr32 m (ic + 80) 8) s
      in case submit_cmd X XHCI_TRB_ADDRESS_DEV ic 0 slt s of (rc, _, s) \<Rightarrow>
           if rc \<noteq> 1 then (-1, kprintf (''USB: Address Device failed (rc=%d)'' @ [CHR 0x0A]) [ArgInt (of_int rc)] s)
           else (0, s))"

definition get_descriptor :: "u64 \<Rightarrow> u8 \<Rightarrow> u8 \<Rightarrow> u8 \<Rightarrow> u64 \<Rightarrow> u16 \<Rightarrow> 'z usb_scheme \<Rightarrow> int \<times> 'z usb_scheme" where
  "get_descriptor X slt type idx buf len =
     control_xfer X slt 0x80 0x06 (push_bit 8 (ucast type) OR ucast idx) 0 len buf True"

definition set_configuration :: "u64 \<Rightarrow> u8 \<Rightarrow> u8 \<Rightarrow> 'z usb_scheme \<Rightarrow> int \<times> 'z usb_scheme" where
  "set_configuration X slt cfg = control_xfer X slt 0x00 0x09 (ucast cfg) 0 0 0 False"

definition set_protocol_boot :: "u64 \<Rightarrow> u8 \<Rightarrow> u8 \<Rightarrow> 'z usb_scheme \<Rightarrow> int \<times> 'z usb_scheme" where
  "set_protocol_boot X slt iface = control_xfer X slt 0x21 0x0B 0 (ucast iface) 0 0 False"

definition set_idle :: "u64 \<Rightarrow> u8 \<Rightarrow> u8 \<Rightarrow> 'z usb_scheme \<Rightarrow> int \<times> 'z usb_scheme" where
  "set_idle X slt iface = control_xfer X slt 0x21 0x0A 0 (ucast iface) 0 0 False"

definition configure_endpoint :: "u64 \<Rightarrow> u8 \<Rightarrow> u8 \<Rightarrow> u8 \<Rightarrow> u16 \<Rightarrow> u8 \<Rightarrow> 'z usb_scheme \<Rightarrow> int \<times> 'z usb_scheme" where
  "configure_endpoint X slt ep_num ep_type mps interval s =
     (let ic = x_input_ctx X; ring = x_intr_ring X; dci = ep_num * 2 + 1; ec = ic + 32 + 32 * ucast dci;
          s = on_mem (\<lambda>m.
                let m = memset m ic 0 1056;
                    m = wr32 m (ic + 4) (1 OR push_bit (unat dci) 1);
                    m = memcpy m (ic + 32) (dev_ctx_at X slt) 32;
                    sc0 = rd32 m (ic + 32);
                    cur = drop_bit 27 sc0 AND 0x1F;
                    cur = (if cur < ucast dci then ucast dci else cur);
                    m = wr32 m (ic + 32) ((sc0 AND NOT (push_bit 27 0x1F)) OR push_bit 27 cur);
                    m = memset m ring 0 4096;
                    m = wr32 m ec (push_bit 16 (ucast interval));
                    m = wr32 m (ec + 4) (push_bit 3 (ucast ep_type) OR push_bit 16 (ucast mps));
                    m = wr32 m (ec + 8) (ucast (ring AND 0xFFFFFFF0) OR 1);
                    m = wr32 m (ec + 12) (ucast (drop_bit 32 ring))
                in wr32 m (ec + 16) 8) s;
          s = set_xh (\<lambda>x. x\<lparr>intr_idx := 0, intr_cycle := 1\<rparr>) s
      in case submit_cmd X XHCI_TRB_CONFIG_EP ic 0 slt s of (rc, _, s) \<Rightarrow>
           if rc \<noteq> 1 then (-1, kprintf (''USB: Configure Endpoint failed (rc=%d)'' @ [CHR 0x0A]) [ArgInt (of_int rc)] s)
           else (0, s))"

definition queue_interrupt_in_async :: "u64 \<Rightarrow> u8 \<Rightarrow> 'z usb_scheme \<Rightarrow> 'z usb_scheme" where
  "queue_interrupt_in_async X slt s =
     (let ring = x_intr_ring X;
          s = (if intr_idx (xh s) \<ge> RING_TRBS - 1 then
                 set_xh (\<lambda>x. x\<lparr>intr_idx := 0, intr_cycle := intr_cycle x XOR 1\<rparr>)
                   (on_mem (\<lambda>m. wr32 (wr64 m (ring + 16 * 255) ring) (ring + 16 * 255 + 12)
                      (push_bit 10 XHCI_TRB_LINK OR push_bit 1 1 OR intr_cycle (xh s))) s)
               else s);
          s = on_mem (\<lambda>m. memset m (x_intr_buf X) 0 64) s;
          s = on_mem (trb_write ring (intr_idx (xh s)) (x_intr_buf X) (ucast (hid_ep_mps (xh s)))
                (push_bit 10 XHCI_TRB_NORMAL OR push_bit 5 1 OR intr_cycle (xh s))) s;
          s = mmio_write (db (xh s) + 4 * ucast slt) (ucast (hid_ep_num (xh s)) * 2 + 1) s
      in set_xh (\<lambda>x. x\<lparr>intr_idx := intr_idx x + 1\<rparr>) s)"

section \<open>Setting up the keyboard\<close>

definition portsc_at :: "u32 \<Rightarrow> 'z usb_scheme \<Rightarrow> u64" where "portsc_at p s = ports (xh s) + ucast (p * 0x10)"

text \<open>All change bits of a port: CSC, PEC, WRC, OCC, PRC, PLC, CEC.\<close>

definition PORTSC_CHANGES :: u32 where
  "PORTSC_CHANGES = push_bit 17 1 OR push_bit 18 1 OR push_bit 19 1 OR push_bit 20 1 OR push_bit 21 1 OR
     push_bit 22 1 OR push_bit 23 1"

definition port_reset :: "u32 \<Rightarrow> 'z usb_scheme \<Rightarrow> u32 \<times> 'z usb_scheme" where
  "port_reset port s =
     (let portsc = portsc_at port s;
          s = mmio_write portsc PORTSC_CHANGES s;
          (val, s) = mmio_read portsc s;
          s = (if val AND push_bit 9 1 = 0 then mmio_write portsc (val OR push_bit 9 1) s else s);
          s = mmio_write portsc (push_bit 4 1) s;
          s = snd (poll 10000000 (Mmio_Read portsc) (\<lambda>v. v AND push_bit 21 1 \<noteq> 0) s);
          s = mmio_write portsc (push_bit 21 1) s;
          (v, s) = mmio_read portsc s
      in (drop_bit 10 v AND 0xF, s))"

lemma descriptor_step:
  fixes off :: u32 and tot :: u16 and blen :: u8
  assumes "off + 2 \<le> ucast tot" "blen \<noteq> 0"
  shows "2 ^ 32 - unat (off + 2 + ucast blen) < 2 ^ 32 - unat (off + 2)"
    "unat (off + 2 + ucast blen) = unat (off + 2) + unat blen"
proof -
  have "unat (off + 2) \<le> unat (ucast tot :: u32)" using assms(1) by (simp add: word_le_nat_alt)
  also have "\<dots> < 2 ^ 16" using unat_bound [of tot] by (simp add: unat_ucast_mod)
  finally have "unat (off + 2) < 2 ^ 16" .
  moreover have u: "unat (ucast blen :: u32) = unat blen" "unat blen < 256" "0 < unat blen"
    using unat_bound [of blen] assms(2) by (simp_all add: unat_ucast_mod unat_gt_0)
  ultimately show eq: "unat (off + 2 + ucast blen) = unat (off + 2) + unat blen"
    by (subst unat_add_lem [THEN iffD1]) simp_all
  show "2 ^ 32 - unat (off + 2 + ucast blen) < 2 ^ 32 - unat (off + 2)"
    unfolding eq using u \<open>unat (off + 2) < 2 ^ 16\<close> by simp
qed

text \<open>
  The walk over the configuration descriptor at \<open>cfg\<close>. \<open>tot\<close> comes from two bytes of the
  descriptor. The result is the interface, endpoint address, packet size and interval.
\<close>

function find_hid :: "(u32 \<Rightarrow> u8) \<Rightarrow> u16 \<Rightarrow> u32 \<Rightarrow> bool \<Rightarrow> u8 \<Rightarrow> (u8 \<times> u8 \<times> u16 \<times> u8) option" where
  "find_hid cfg tot off in_hid iface =
     (if off + 2 \<le> ucast tot then
        let blen = cfg off; btype = cfg (off + 1) in
        if blen = 0 then None
        else if btype = 0x04 \<and> off + 9 \<le> ucast tot then
          (if cfg (off + 5) = 0x03 \<and> cfg (off + 6) = 0x01 \<and> cfg (off + 7) = 0x01
           then find_hid cfg tot (off + ucast blen) True (cfg (off + 2))
           else find_hid cfg tot (off + ucast blen) False iface)
        else if btype = 0x05 \<and> off + 7 \<le> ucast tot \<and> in_hid \<and>
                cfg (off + 3) AND 0x03 = 0x03 \<and> cfg (off + 2) AND 0x80 \<noteq> 0
        then Some (iface, cfg (off + 2), ucast (cfg (off + 4)) OR push_bit 8 (ucast (cfg (off + 5))), cfg (off + 6))
        else find_hid cfg tot (off + ucast blen) in_hid iface
      else None)"
  by pat_completeness auto

termination
proof (relation "measure (\<lambda>(cfg, tot, off, in_hid, iface). 2 ^ 32 - unat (off + 2))")
  have c: "(off :: u32) + ucast (blen :: u8) + 2 = off + 2 + ucast blen" for off blen by simp
  show "((cfg, tot, off + ucast x, True, cfg (off + 2)), cfg, tot, off, in_hid, iface)
      \<in> measure (\<lambda>(cfg, tot, off, in_hid, iface). 2 ^ 32 - unat (off + 2))"
    if "off + 2 \<le> ucast tot" "x = cfg off" "x \<noteq> 0" for cfg :: "u32 \<Rightarrow> u8" and tot :: u16 and off in_hid iface x
    unfolding in_measure split c by (rule descriptor_step(1) [OF that(1,3)])
  show "((cfg, tot, off + ucast x, False, iface), cfg, tot, off, in_hid, iface)
      \<in> measure (\<lambda>(cfg, tot, off, in_hid, iface). 2 ^ 32 - unat (off + 2))"
    if "off + 2 \<le> ucast tot" "x = cfg off" "x \<noteq> 0" for cfg :: "u32 \<Rightarrow> u8" and tot :: u16 and off in_hid iface x
    unfolding in_measure split c by (rule descriptor_step(1) [OF that(1,3)])
  show "((cfg, tot, off + ucast x, in_hid, iface), cfg, tot, off, in_hid, iface)
      \<in> measure (\<lambda>(cfg, tot, off, in_hid, iface). 2 ^ 32 - unat (off + 2))"
    if "off + 2 \<le> ucast tot" "x = cfg off" "x \<noteq> 0" for cfg :: "u32 \<Rightarrow> u8" and tot :: u16 and off in_hid iface x
    unfolding in_measure split c by (rule descriptor_step(1) [OF that(1,3)])
qed simp

declare find_hid.simps [simp del]

definition find_hid_keyboard :: "mem \<Rightarrow> u64 \<Rightarrow> u16 \<Rightarrow> (u8 \<times> u8 \<times> u16 \<times> u8) option" where
  "find_hid_keyboard m cfg tot = find_hid (\<lambda>i. m (cfg + ucast i)) tot 0 False 0"

definition setup_keyboard :: "u64 \<Rightarrow> u32 \<Rightarrow> u32 \<Rightarrow> 'z usb_scheme \<Rightarrow> int \<times> 'z usb_scheme" where
  "setup_keyboard X port speed s =
     (let buf = x_ctrl_buf X; (slt, s) = enable_slot X s; sl = of_int slt :: u8 in
      if slt < 0 then (-1, s) else
      let (rc, s) = address_device X sl port speed s in if rc \<noteq> 0 then (-1, s) else
      let (rc, s) = get_descriptor X sl 0x01 0 buf 18 s in if rc \<noteq> 1 then (-1, s) else
      let (rc, s) = get_descriptor X sl 0x02 0 buf 256 s in if rc \<noteq> 1 then (-1, s) else
      let tot = ucast (kmem s (buf + 2)) OR push_bit 8 (ucast (kmem s (buf + 3))) :: u16 in
      case find_hid_keyboard (kmem s) buf tot of
        None \<Rightarrow> (-1, kprintf (''USB: no HID keyboard interface'' @ [CHR 0x0A]) [] s)
      | Some (iface, ep_addr, mps, interval) \<Rightarrow>
          let (rc, s) = set_configuration X sl (kmem s (buf + 5)) s in if rc \<noteq> 1 then (-1, s) else
          let s = snd (set_protocol_boot X sl iface s);
              s = snd (set_idle X sl iface s);
              s = set_xh (\<lambda>x. x\<lparr>hid_ep_num := ep_addr AND 0x0F, hid_ep_mps := mps, hid_interface := iface\<rparr>) s;
              (rc, s) = configure_endpoint X sl (hid_ep_num (xh s)) 7 mps interval s
          in if rc \<noteq> 0 then (-1, s) else
          let s = set_xh (prev_keys_update (\<lambda>_. replicate 6 0)) s;
              s = on_mem (\<lambda>m. memset m (x_intr_buf X) 0 64) s
          in (slt, s))"

section \<open>Interrupts\<close>

definition pci_read32 :: "u8 \<Rightarrow> u8 \<Rightarrow> u8 \<Rightarrow> u8 \<Rightarrow> 'z hw_scheme \<Rightarrow> u32 \<times> 'z hw_scheme" where
  "pci_read32 b d f offset s = inl 0xCFC (outl 0xCF8 (config_address b d f offset) s)"

definition pci_write32 :: "u8 \<Rightarrow> u8 \<Rightarrow> u8 \<Rightarrow> u8 \<Rightarrow> u32 \<Rightarrow> 'z hw_scheme \<Rightarrow> 'z hw_scheme" where
  "pci_write32 b d f offset val s = outl 0xCFC val (outl 0xCF8 (config_address b d f offset) s)"

definition pci_read_bar64 :: "u8 \<Rightarrow> u8 \<Rightarrow> u8 \<Rightarrow> u8 \<Rightarrow> 'z hw_scheme \<Rightarrow> bool \<times> u64 \<times> 'z hw_scheme" where
  "pci_read_bar64 b d f offset s =
     (let (bar0, s) = pci_read32 b d f offset s in
      if bar0 AND 1 \<noteq> 0 then (True, ucast (bar0 AND 0xFFFFFFFC), s)
      else if drop_bit 1 bar0 AND 3 = 2 then
        let (bar1, s) = pci_read32 b d f (offset + 4) s
        in (False, push_bit 32 (ucast bar1) OR ucast (bar0 AND 0xFFFFFFF0), s)
      else (False, ucast (bar0 AND 0xFFFFFFF0), s))"

text \<open>The capability list is followed for at most 64 entries.\<close>

fun find_msix_cap :: "nat \<Rightarrow> u8 \<Rightarrow> u8 \<Rightarrow> u8 \<Rightarrow> u32 \<Rightarrow> 'z hw_scheme \<Rightarrow> u8 option \<times> 'z hw_scheme" where
  "find_msix_cap 0 b d f cap_ptr s = (None, s)"
| "find_msix_cap (Suc n) b d f cap_ptr s =
     (if cap_ptr = 0 then (None, s)
      else
        let (cap_dw, s) = pci_read32 b d f (ucast cap_ptr) s in
        if (ucast cap_dw :: u8) = 0x11 then (Some (ucast cap_ptr), s)
        else find_msix_cap n b d f (ucast (ucast (drop_bit 8 cap_dw) AND 0xFC :: u8)) s)"

definition setup_msix :: "'z usb_scheme \<Rightarrow> int \<times> 'z usb_scheme" where
  "setup_msix s =
     (let b = pci_bus (xh s); d = pci_slot (xh s); f = pci_func (xh s);
          (cmd_status, s) = pci_read32 b d f 0x04 s
      in if drop_bit 16 cmd_status AND 0x0010 = 0 then (-1, s) else
      let (cp, s) = pci_read32 b d f 0x34 s;
          (cap, s) = find_msix_cap 64 b d f (cp AND 0xFC) s
      in case cap of
           None \<Rightarrow> (-1, s)
         | Some cap \<Rightarrow>
             let (cap_dword, s) = pci_read32 b d f cap s;
                 msgctl = ucast (drop_bit 16 cap_dword) :: u16;
                 table_size = (msgctl AND 0x7FF) + 1;
                 (table_off_bir, s) = pci_read32 b d f (cap + 0x04) s;
                 bir = ucast (table_off_bir AND 0x7) :: u8;
                 table_offset = table_off_bir AND 0xFFFFFFF8;
                 (bar_low, s) = pci_read32 b d f (0x10 + 4 * bir) s;
                 is_64 = (drop_bit 1 bar_low AND 3 = 2);
                 (bar_high, s) = (if is_64 then pci_read32 b d f (0x10 + 4 * (bir + 1)) s else (0, s));
                 table_addr = (ucast (bar_low AND 0xFFFFFFF0) OR push_bit 32 (ucast bar_high)) + ucast table_offset
             in if table_size < 1 then (-1, s) else
             let s = mmio_write table_addr 0xFEE00000 s;
                 s = mmio_write (table_addr + 4) 0 s;
                 s = mmio_write (table_addr + 8) (ucast USB_IRQ_VECTOR) s;
                 s = mmio_write (table_addr + 12) 0 s;
                 msgctl = (msgctl AND 0x3FFF) OR push_bit 15 1;
                 s = pci_write32 b d f cap ((cap_dword AND 0x0000FFFF) OR push_bit 16 (ucast msgctl)) s;
                 (verify_dword, s) = pci_read32 b d f cap s
             in if (ucast (drop_bit 16 verify_dword) :: u16) AND push_bit 15 1 = 0 then (-1, s) else (0, s))"

definition enable_interrupter :: "'z usb_scheme \<Rightarrow> 'z usb_scheme" where
  "enable_interrupter s =
     (let ir = rt (xh s) + 0x20; o' = opr (xh s);
          (cmd, s) = mmio_read o' s;
          s = mmio_write o' (cmd OR 1 OR push_bit 2 1) s;
          s = mmio_write (o' + 0x04) (push_bit 3 1) s;
          s = mmio_write (ir + 0x04) 0 s;
          s = mmio_write ir 1 s;
          s = mmio_write ir 2 s;
          (iman_after, s) = mmio_read ir s
      in if iman_after AND 2 = 0
         then kprintf (''USB: IMAN.IE not set (IMAN=%x)'' @ [CHR 0x0A]) [ArgInt iman_after] s else s)"

definition get_xfer :: "u64 \<Rightarrow> u32 \<Rightarrow> u32 \<Rightarrow> 'z usb_scheme \<Rightarrow> bool \<times> 'z usb_scheme" where
  "get_xfer X ctrl stat s =
     (let epid = ucast (drop_bit 16 ctrl AND 0x1F) :: u8;
          s = evt_advance s;
          s = (if trb_code stat \<noteq> 1 then s\<lparr>bad_code_count := bad_code_count s + 1\<rparr> else s)
      in if uint epid = uint (hid_ep_num (xh s)) * 2 + 1 then (True, process_keys (x_intr_buf X) s) else (False, s))"

fun drain_events :: "u64 \<Rightarrow> nat \<Rightarrow> bool \<Rightarrow> 'z usb_scheme \<Rightarrow> bool \<times> 'z usb_scheme" where
  "drain_events X 0 got s = (got, s)"
| "drain_events X (Suc n) got s =
     (let s = dma_sync s;
          ring = x_evt_ring X; i = evt_idx (xh s);
          ctrl = trb_control (kmem s) ring i
      in if ctrl AND 1 \<noteq> evt_cycle (xh s) then (got, s)
         else if trb_type ctrl = XHCI_TRB_XFER_EVT then
           let (hit, s) = get_xfer X ctrl (trb_status (kmem s) ring i) s in drain_events X n (got \<or> hit) s
         else if trb_type ctrl = XHCI_TRB_PORTSC \<or> trb_type ctrl = XHCI_TRB_CMD_CMPL
         then drain_events X n got (evt_advance s)
         else (got, s))"

definition handle_interrupt :: "u64 \<Rightarrow> 'z usb_scheme \<Rightarrow> 'z usb_scheme" where
  "handle_interrupt X s =
     (let s = s\<lparr>isr_count := isr_count s + 1\<rparr>;
          s = mmio_write (opr (xh s) + 0x04) (push_bit 3 1) s;
          ir = rt (xh s) + 0x20;
          s = mmio_write ir 1 s;
          (got_xfer, s) = drain_events X 256 False s;
          s = s\<lparr>xfer_pending := False\<rparr>;
          s = (if got_xfer \<and> usb_active_slot (xh s) > 0
               then (queue_interrupt_in_async X (of_int (usb_active_slot (xh s))) s)\<lparr>xfer_pending := True\<rparr> else s)
      in mmio_write ir 2 s)"

section \<open>Initialisation\<close>

definition power_port :: "u32 \<Rightarrow> 'z usb_scheme \<Rightarrow> 'z usb_scheme" where
  "power_port p s =
     (let (val, s) = mmio_read (portsc_at p s) s in
      if val AND push_bit 9 1 = 0 then mmio_write (portsc_at p s) (val OR push_bit 9 1) s else s)"

text \<open>The first port with a device, and its speed.\<close>

definition scan_port :: "u32 \<Rightarrow> 'z usb_scheme \<Rightarrow> ('z usb_scheme, (u32 \<times> u32) \<times> 'z usb_scheme) ctl" where
  "scan_port p s =
     (let (val, s) = mmio_read (portsc_at p s) s;
          s = mmio_write (portsc_at p s) (PORTSC_CHANGES OR push_bit 9 1) s
      in if val AND 1 = 0 then Next s
         else let (speed, s) = port_reset p s in Return ((p + 1, speed), s))"

definition xhci_run :: "u64 \<Rightarrow> u64 \<Rightarrow> u8 \<Rightarrow> u8 \<Rightarrow> u8 \<Rightarrow> 'z usb_scheme \<Rightarrow> 'z usb_scheme" where
  "xhci_run X mmio_addr b d f s =
     (let s = set_xh (\<lambda>x. x\<lparr>pci_bus := b, pci_slot := d, pci_func := f\<rparr>) s;
          s = parse_caps mmio_addr s;
          s = xhci_reset s;
          s = mmio_write (opr (xh s) + 0x38) (ucast (max_slots (xh s))) s;
          s = setup_dcbaap X s;
          s = setup_cmd_ring X s;
          s = setup_evt_ring X s;
          s = xhci_start s;
          s = for_loop 0 (ucast (max_ports (xh s))) power_port s
      in case for_ctl 0 (ucast (max_ports (xh s))) scan_port s of
           Next s \<Rightarrow> kprintf (''USB: no device on any port'' @ [CHR 0x0A]) [] s
         | Return ((port, speed), s) \<Rightarrow>
             let (kbslot, s) = setup_keyboard X port speed s in
             if kbslot < 0 then kprintf (''USB: keyboard setup failed'' @ [CHR 0x0A]) [] s else
             let s = set_xh (usb_active_slot_update (\<lambda>_. kbslot)) s;
                 s = lapic_enable s;
                 (rc, s) = setup_msix s
             in if rc = 0 then
                  let (rc, s) = irq_register USB_IRQ_VECTOR Usb_handler_c ''xHCI'' s in
                  if rc \<noteq> 0 then kprintf (''USB: IRQ %d already in use'' @ [CHR 0x0A]) [ArgInt (ucast USB_IRQ_VECTOR)] s else
                  let s = enable_interrupter s;
                      s = s\<lparr>xfer_pending := False\<rparr>;
                      s = queue_interrupt_in_async X (of_int kbslot) s;
                      s = s\<lparr>xfer_pending := True\<rparr>;
                      s = set_xh (usb_irq_active_update (\<lambda>_. True)) s
                  in kprintf (''USB: keyboard ready (IRQ %d)'' @ [CHR 0x0A]) [ArgInt (ucast USB_IRQ_VECTOR)] s
                else kprintf (''USB: MSI-X unavailable'' @ [CHR 0x0A]) [] s)"

text \<open>The names printed for the controller, \<^verbatim>\<open>src/drivers/pcidf.h\<close>.\<close>

definition pci_vendors :: "(u16 \<times> string) list" where
  "pci_vendors =
     [(0x8086, ''Intel Corporation''),
      (0x10DE, ''NVIDIA Corporation''),
      (0x1002, ''Advanced Micro Devices, Inc. [AMD/ATI]''),
      (0x10EC, ''Realtek Semiconductor Co., Ltd.''),
      (0x1B36, ''Red Hat, Inc. (QEMU Virtual Devices)''),
      (0x1106, ''VIA Technologies, Inc.''),
      (0x15AD, ''VMware''),
      (0x80EE, ''Oracle Corporation (VirtualBox)''),
      (0x1011, ''Digital Equipment Corporation (DEC)''),
      (0x106B, ''Apple Inc.'')]"

definition pci_devices :: "(u16 \<times> u16 \<times> string) list" where
  "pci_devices =
     [(0x8086, 0x100E, ''82540EM Gigabit Ethernet Controller (e1000)''),
      (0x8086, 0x15B8, ''Ethernet Connection (2) I219-V''),
      (0x8086, 0x2822, ''SATA Controller [RAID mode]''),
      (0x8086, 0x1C22, ''6 Series/C200 Series Chipset Family SMBus Controller''),
      (0x8086, 0xA12F, ''100 Series/C230 Series Chipset Family USB 3.0 xHCI Controller''),
      (0x8086, 0x2415, ''82801AA AC'97 Audio Controller''),
      (0x8086, 0x7000, ''82371SB PIIX3 ISA [Bridge]''),
      (0x8086, 0x7010, ''82371SB PIIX3 IDE [Interface]''),
      (0x8086, 0x7111, ''82371AB/EB/MB PIIX4 IDE''),
      (0x8086, 0x2918, ''82801IB (ICH9) LPC Interface Controller''),
      (0x8086, 0x2922, ''82801IR/IO/IH (ICH9R/DO/DH) 6 port SATA Controller [AHCI mode]''),
      (0x1B36, 0x000D, ''QEMU XHCI USB Host Controller''),
      (0x1B36, 0x0001, ''QEMU PCI-to-PCI Bridge''),
      (0x10EC, 0x8139, ''RTL8139 RTL8139C+ Fast Ethernet Adapter''),
      (0x10EC, 0x8168, ''RTL8111/8168/8411 PCI Express Gigabit Ethernet Controller''),
      (0x15AD, 0x0405, ''SVGA II Adapter''),
      (0x15AD, 0x0740, ''VMware Virtual Machine Communication Interface''),
      (0x80EE, 0xBEEF, ''VirtualBox Graphics Adapter''),
      (0x80EE, 0xCAFE, ''VirtualBox Guest Service''),
      (0x1002, 0x4391, ''SB7x0/SB8x0/SB9x0 SATA Controller [AHCI mode]''),
      (0x1022, 0x7814, ''FCH USB XHCI Controller'')]"

definition pci_get_vendor_name :: "u16 \<Rightarrow> string" where
  "pci_get_vendor_name v =
     (case List.find (\<lambda>e. fst e = v) pci_vendors of Some e \<Rightarrow> snd e | None \<Rightarrow> ''Unknown Vendor'')"

definition pci_get_device_name :: "u16 \<Rightarrow> u16 \<Rightarrow> string" where
  "pci_get_device_name v d =
     (case List.find (\<lambda>e. fst e = v \<and> fst (snd e) = d) pci_devices of
        Some e \<Rightarrow> snd (snd e) | None \<Rightarrow> ''Unknown Device'')"

definition map_kernel_page :: "u64 \<Rightarrow> u64 \<Rightarrow> 'z usb_scheme \<Rightarrow> 'z usb_scheme" where
  "map_kernel_page pml4 addr s =
     (let v = vmm_map_page pml4 addr addr (PAGE_PRESENT OR PAGE_WRITABLE OR PAGE_CACHE_DISABLE)
                \<lparr>vpmm = kpmm s, vmem = kmem s, invlpg = kinvlpg s\<rparr>
      in set_kmem (vmem v) (s\<lparr>kpmm := vpmm v, kinvlpg := invlpg v\<rparr>))"

definition usb_init :: "u64 \<Rightarrow> u64 \<Rightarrow> 'z usb_scheme \<Rightarrow> 'z usb_scheme" where
  "usb_init X pml4 s =
     (case findPciDevice Xhci s of
        (None, s) \<Rightarrow> kprintf (''USB: no controller found'' @ [CHR 0x0A]) [] s
      | (Some dev, s) \<Rightarrow>
          let b = bus dev; d = slot dev; f = func dev;
              (cmd, s) = pci_read32 b d f 0x04 s;
              s = pci_write32 b d f 0x04 (cmd OR 0x0007) s;
              (is_io, bar, s) = pci_read_bar64 b d f 0x10 s
          in if bar = 0 \<or> is_io then kprintf (''USB: BAR is zero or IO space, cannot init xHCI'' @ [CHR 0x0A]) [] s
             else
               let s = kprintf (''USB xHCI found: Vendor:'' @ [CHR 0x0A] @ ''    %s'' @ [CHR 0x0A] @ ''    Device: %s'' @ [CHR 0x0A])
                         [ArgStr (pci_get_vendor_name (vendor_id dev) @ [NUL]),
                          ArgStr (pci_get_device_name (vendor_id dev) (device_id dev) @ [NUL])] s;
                   phys_page_start = bar AND NOT 0xFFF;
                   s = for_loop 0 (256 :: u64) (\<lambda>i. map_kernel_page pml4 (phys_page_start + i * 4096)) s;
                   xhci_virtual_address = phys_page_start + (bar AND 0xFFF)
               in xhci_run X xhci_virtual_address b d f s)"

definition usb_get_isr_count :: "'z usb_scheme \<Rightarrow> u64" where "usb_get_isr_count s = isr_count s"
definition usb_get_keys_count :: "'z usb_scheme \<Rightarrow> u64" where "usb_get_keys_count s = keys_count s"
definition usb_get_push_count :: "'z usb_scheme \<Rightarrow> u64" where "usb_get_push_count s = push_count s"
definition usb_get_bad_code_count :: "'z usb_scheme \<Rightarrow> u64" where "usb_get_bad_code_count s = bad_code_count s"

section \<open>Reports\<close>

text \<open>The keys of a report that were not down in the previous one, and the characters they stand for.\<close>

definition new_keys :: "u8 list \<Rightarrow> u8 list \<Rightarrow> u8 list" where
  "new_keys prev keys = filter (\<lambda>k. k \<noteq> 0 \<and> k \<notin> set prev) keys"

definition key_chars :: "u8 list \<Rightarrow> u8 list" where
  "key_chars ks = filter (\<lambda>c. c \<noteq> 0) (map hid_key_to_ascii ks)"

definition report_keys :: "mem \<Rightarrow> u64 \<Rightarrow> u8 list" where
  "report_keys m report = map (\<lambda>i. m (report + 2 + of_nat i)) [0..<6]"

lemma process_key_fields:
  "xh (process_key k s) = xh s" "kterm (process_key k s) = kterm s" "irq_table (process_key k s) = irq_table s"
  "device (process_key k s) = device s" "io_log (process_key k s) = io_log s" "dma (process_key k s) = dma s"
  "fault (process_key k s) = fault s" "pit_ticks (process_key k s) = pit_ticks s"
  by (simp_all add: process_key_def Let_def)

lemma fold_process_key:
  fixes s :: "'z usb_scheme"
  defines "new \<equiv> new_keys (prev_keys (xh s))"
  shows "kinput (fold process_key keys s) = fold input_push (key_chars (new keys)) (kinput s)"
    "keys_count (fold process_key keys s) = keys_count s + of_nat (length (new keys))"
    "push_count (fold process_key keys s) = push_count s + of_nat (length (key_chars (new keys)))"
    "xh (fold process_key keys s) = xh s"
  unfolding new_def
proof (induction keys arbitrary: s)
  case (Cons k keys)
  { case 1 show ?case using Cons(1) [of "process_key k s"]
      by (auto simp: process_key_fields new_keys_def key_chars_def) (auto simp: process_key_def Let_def) }
  { case 2 show ?case using Cons(2) [of "process_key k s"]
      by (auto simp: process_key_fields new_keys_def) (auto simp: process_key_def Let_def) }
  { case 3 show ?case using Cons(3) [of "process_key k s"]
      by (auto simp: process_key_fields new_keys_def key_chars_def) (auto simp: process_key_def Let_def) }
  { case 4 show ?case using Cons(4) [of "process_key k s"] by (simp add: process_key_fields) }
qed (simp_all add: new_keys_def key_chars_def)

lemma process_keys_fields:
  "irq_table (process_keys r s) = irq_table s" "kterm (process_keys r s) = kterm s" "device (process_keys r s) = device s"
  "io_log (process_keys r s) = io_log s" "dma (process_keys r s) = dma s" "fault (process_keys r s) = fault s"
  "pit_ticks (process_keys r s) = pit_ticks s"
proof -
  have "irq_table (fold process_key ks s) = irq_table s \<and> kterm (fold process_key ks s) = kterm s \<and>
      device (fold process_key ks s) = device s \<and> io_log (fold process_key ks s) = io_log s \<and>
      dma (fold process_key ks s) = dma s \<and> fault (fold process_key ks s) = fault s \<and>
      pit_ticks (fold process_key ks s) = pit_ticks s" for ks
    by (induction ks arbitrary: s) (simp_all add: process_key_fields)
  then show "irq_table (process_keys r s) = irq_table s" "kterm (process_keys r s) = kterm s" "device (process_keys r s) = device s"
    "io_log (process_keys r s) = io_log s" "dma (process_keys r s) = dma s" "fault (process_keys r s) = fault s"
    "pit_ticks (process_keys r s) = pit_ticks s"
    by (simp_all add: process_keys_def Let_def)
qed

lemma pending_fold_push:
  "input_ok q \<Longrightarrow> input_ok (fold input_push cs q) \<and> pending (fold input_push cs q) = fold (spec_push 255) cs (pending q)"
  by (induction cs arbitrary: q) (simp_all add: iq.ok_push iq.contents_push)

section \<open>The event ring as a stream\<close>

text \<open>
  The driver's place in the unbounded stream of events: event \<open>N\<close> uses block \<open>N mod 256\<close> of the ring, and
  its cycle bit is 1 in the first lap, 0 in the second, and so on.
\<close>

definition lap_bit :: "nat \<Rightarrow> u32" where "lap_bit N = (if even (N div 256) then 1 else 0)"

definition ring_at :: "nat \<Rightarrow> xhci \<Rightarrow> bool" where
  "ring_at N x \<longleftrightarrow> evt_idx x = of_nat (N mod 256) \<and> evt_cycle x = lap_bit N"

definition evt_control :: "mem \<Rightarrow> u64 \<Rightarrow> nat \<Rightarrow> u32" where
  "evt_control m X N = trb_control m (x_evt_ring X) (of_nat (N mod 256))"

definition evt_status :: "mem \<Rightarrow> u64 \<Rightarrow> nat \<Rightarrow> u32" where
  "evt_status m X N = trb_status m (x_evt_ring X) (of_nat (N mod 256))"

text \<open>The controller has written event \<open>N\<close>.\<close>

definition posted :: "mem \<Rightarrow> u64 \<Rightarrow> nat \<Rightarrow> bool" where
  "posted m X N \<longleftrightarrow> evt_control m X N AND 1 = lap_bit N"

definition known_event :: "mem \<Rightarrow> u64 \<Rightarrow> nat \<Rightarrow> bool" where
  "known_event m X N \<longleftrightarrow> trb_type (evt_control m X N) \<in> {XHCI_TRB_XFER_EVT, XHCI_TRB_PORTSC, XHCI_TRB_CMD_CMPL}"

definition report_event :: "mem \<Rightarrow> u64 \<Rightarrow> u8 \<Rightarrow> nat \<Rightarrow> bool" where
  "report_event m X ep N \<longleftrightarrow> trb_type (evt_control m X N) = XHCI_TRB_XFER_EVT \<and>
     uint (ucast (drop_bit 16 (evt_control m X N) AND 0x1F) :: u8) = uint ep * 2 + 1"

lemma mmio_write_fields [simp]:
  "xh (mmio_write a v s) = xh s" "kterm (mmio_write a v s) = kterm s" "irq_table (mmio_write a v s) = irq_table s"
  "dma (mmio_write a v s) = dma s" "kinput (mmio_write a v s) = kinput s" "fault (mmio_write a v s) = fault s"
  "pit_ticks (mmio_write a v s) = pit_ticks s"
  by (simp_all add: mmio_write_def io_do_def)

lemma dma_sync_fields [simp]:
  "xh (dma_sync s) = xh s" "irq_table (dma_sync s) = irq_table s" "dma (dma_sync s) = dma s" "kinput (dma_sync s) = kinput s"
  "fault (dma_sync s) = fault s" "kmem (dma_sync s) = dma s (io_log s) (kmem s)" "pit_ticks (dma_sync s) = pit_ticks s"
  "terminal_ok (kterm (dma_sync s)) = terminal_ok (kterm s)" "tfb (kterm (dma_sync s)) = tfb (kterm s)"
  by (simp_all add: dma_sync_def set_kmem_def io_do_def terminal_ok_def)

lemma evt_advance_fields [simp]:
  "kterm (evt_advance s) = kterm s" "irq_table (evt_advance s) = irq_table s" "dma (evt_advance s) = dma s"
  "kinput (evt_advance s) = kinput s" "fault (evt_advance s) = fault s" "pit_ticks (evt_advance s) = pit_ticks s"
  "hid_ep_num (xh (evt_advance s)) = hid_ep_num (xh s)" "prev_keys (xh (evt_advance s)) = prev_keys (xh s)"
  by (simp_all add: evt_advance_def Let_def)

lemma last_block: "k < 256 \<Longrightarrow> of_nat k + 1 = (256 :: u32) \<longleftrightarrow> k = 255"
proof -
  assume k: "k < 256"
  have n: "unat (255 :: u32) = 255" by simp
  have u: "unat (of_nat k :: u32) = k" using k by (intro unat_of_nat_small) simp
  have "of_nat k = (255 :: u32) \<longleftrightarrow> k = 255" unfolding word_unat_eq_iff u n ..
  then show "of_nat k + 1 = (256 :: u32) \<longleftrightarrow> k = 255" by simp
qed

lemma evt_advance_ring:
  assumes "ring_at N (xh s)"
  shows "ring_at (Suc N) (xh (evt_advance s))"
proof -
  define k q where "k = N mod 256" and "q = N div 256"
  have k: "k < 256" by (simp add: k_def)
  have r: "evt_idx (xh s) = of_nat k" "evt_cycle (xh s) = (if even q then 1 else 0)"
    using assms by (simp_all add: ring_at_def lap_bit_def k_def q_def)
  have x: "evt_idx (xh (evt_advance s)) = (if k = 255 then 0 else of_nat k + 1)"
    "evt_cycle (xh (evt_advance s)) = (if k = 255 then evt_cycle (xh s) XOR 1 else evt_cycle (xh s))"
    using last_block [OF k] by (simp_all add: evt_advance_def Let_def r(1))
  have n: "Suc N mod 256 = (if k = 255 then 0 else Suc k)" "Suc N div 256 = (if k = 255 then Suc q else q)"
    by (simp_all add: mod_Suc div_Suc k_def q_def)
  show ?thesis unfolding ring_at_def lap_bit_def n x r(2) by (simp add: add.commute)
qed

lemma get_xfer_result:
  assumes "get_xfer X ctrl stat s = (hit, s')"
  shows "hit \<longleftrightarrow> uint (ucast (drop_bit 16 ctrl AND 0x1F) :: u8) = uint (hid_ep_num (xh s)) * 2 + 1"
    "ring_at N (xh s) \<Longrightarrow> ring_at (Suc N) (xh s')" "kterm s' = kterm s" "dma s' = dma s"
    "hid_ep_num (xh s') = hid_ep_num (xh s)" "irq_table s' = irq_table s" "fault s' = fault s" "pit_ticks s' = pit_ticks s"
    "input_ok (kinput s) \<Longrightarrow> input_ok (kinput s')"
proof -
  define s1 where "s1 = (if trb_code stat \<noteq> 1 then (evt_advance s)\<lparr>bad_code_count := bad_code_count (evt_advance s) + 1\<rparr> else evt_advance s)"
  have s1: "xh s1 = xh (evt_advance s)" "kterm s1 = kterm s" "dma s1 = dma s" "irq_table s1 = irq_table s"
    "fault s1 = fault s" "kinput s1 = kinput s" "pit_ticks s1 = pit_ticks s" by (simp_all add: s1_def)
  let ?hit = "uint (ucast (drop_bit 16 ctrl AND 0x1F) :: u8) = uint (hid_ep_num (xh s)) * 2 + 1"
  have "hit = ?hit" "s' = (if ?hit then process_keys (x_intr_buf X) s1 else s1)"
    using assms by (auto simp: get_xfer_def Let_def s1_def [symmetric] s1 split: if_splits)
  moreover have "ring_at M (xh (process_keys r s1)) = ring_at M (xh s1)" "hid_ep_num (xh (process_keys r s1)) = hid_ep_num (xh s1)" for M r
    by (simp_all add: process_keys_def Let_def fold_process_key(4) ring_at_def)
  moreover have "input_ok (kinput (process_keys r s1))" if "input_ok (kinput s1)" for r
    using pending_fold_push [OF that] by (simp add: process_keys_def Let_def fold_process_key(1))
  ultimately show "hit \<longleftrightarrow> ?hit" "ring_at N (xh s) \<Longrightarrow> ring_at (Suc N) (xh s')" "kterm s' = kterm s" "dma s' = dma s"
    "hid_ep_num (xh s') = hid_ep_num (xh s)" "irq_table s' = irq_table s" "fault s' = fault s" "pit_ticks s' = pit_ticks s"
    "input_ok (kinput s) \<Longrightarrow> input_ok (kinput s')"
    using evt_advance_ring [of N s] by (simp_all add: s1 process_keys_fields)
qed

text \<open>One round of the loop at event \<open>N\<close>, when the controller is quiet.\<close>

lemma drain_round:
  assumes "ring_at N (xh s)" "dma s = (\<lambda>_ m. m)" and t: "t = dma_sync s"
  shows "drain_events X (Suc b) got s =
    (if \<not> posted (kmem s) X N then (got, t)
     else if trb_type (evt_control (kmem s) X N) = XHCI_TRB_XFER_EVT then
       (case get_xfer X (evt_control (kmem s) X N) (evt_status (kmem s) X N) t of (hit, t) \<Rightarrow> drain_events X b (got \<or> hit) t)
     else if known_event (kmem s) X N then drain_events X b got (evt_advance t)
     else (got, t))"
proof -
  have m: "kmem t = kmem s" using assms(2) by (simp add: t)
  have "trb_control (kmem t) (x_evt_ring X) (evt_idx (xh t)) = evt_control (kmem s) X N"
    "trb_status (kmem t) (x_evt_ring X) (evt_idx (xh t)) = evt_status (kmem s) X N"
    "evt_control (kmem s) X N AND 1 = evt_cycle (xh t) \<longleftrightarrow> posted (kmem s) X N"
    using assms(1) m by (simp_all add: evt_control_def evt_status_def posted_def ring_at_def t)
  then show ?thesis unfolding drain_events.simps Let_def t [symmetric] by (simp add: known_event_def)
qed

lemma drain_stream:
  assumes "ring_at N (xh s)" "dma s = (\<lambda>_ m. m)" "n < b"
    and "\<And>k. k < n \<Longrightarrow> posted (kmem s) X (N + k) \<and> known_event (kmem s) X (N + k)" "\<not> posted (kmem s) X (N + n)"
    and "drain_events X b got s = (g, s')"
  shows "ring_at (N + n) (xh s') \<and> kmem s' = kmem s \<and>
    g = (got \<or> (\<exists>k < n. report_event (kmem s) X (hid_ep_num (xh s)) (N + k)))"
  using assms
proof (induction n arbitrary: N b got s)
  case 0
  then obtain b' where "b = Suc b'" by (cases b) auto
  then have "s' = dma_sync s" "g = got" using 0 drain_round [OF 0(1,2) refl, of X b' got] by simp_all
  then show ?case using 0 by simp
next
  case (Suc n)
  obtain b' where b: "b = Suc b'" "n < b'" using Suc.prems(3) by (cases b) auto
  define t where "t = dma_sync s"
  have t: "ring_at N (xh t)" "kmem t = kmem s" "dma t = (\<lambda>_ m. m)" "hid_ep_num (xh t) = hid_ep_num (xh s)"
    using Suc.prems(1,2) by (simp_all add: t_def)
  have now: "posted (kmem s) X N" "known_event (kmem s) X N" using Suc.prems(4) [of 0] by simp_all
  have later: "posted (kmem s) X (Suc N + k) \<and> known_event (kmem s) X (Suc N + k)" if "k < n" for k
    using Suc.prems(4) [of "Suc k"] that by simp
  have stop: "\<not> posted (kmem s) X (Suc N + n)" using Suc.prems(5) by simp
  have go: "\<exists>hit u. drain_events X b got s = drain_events X b' (got \<or> hit) u \<and> ring_at (Suc N) (xh u) \<and> kmem u = kmem s \<and>
      dma u = (\<lambda>_ m. m) \<and> hid_ep_num (xh u) = hid_ep_num (xh s) \<and> hit = report_event (kmem s) X (hid_ep_num (xh s)) N"
  proof (cases "trb_type (evt_control (kmem s) X N) = XHCI_TRB_XFER_EVT")
    case True
    obtain hit u where u: "get_xfer X (evt_control (kmem s) X N) (evt_status (kmem s) X N) t = (hit, u)" by force
    show ?thesis using drain_round [OF Suc.prems(1,2) t_def, of X b' got] True now u get_xfer_result [OF u] t b
      by (intro exI [of _ hit] exI [of _ u]) (simp add: report_event_def)
  next
    case False
    then show ?thesis using drain_round [OF Suc.prems(1,2) t_def, of X b' got] now t b evt_advance_ring [OF t(1)]
      by (intro exI [of _ False] exI [of _ "evt_advance t"]) (simp add: report_event_def)
  qed
  then obtain hit u where u: "drain_events X b got s = drain_events X b' (got \<or> hit) u" "ring_at (Suc N) (xh u)"
    "kmem u = kmem s" "dma u = (\<lambda>_ m. m)" "hid_ep_num (xh u) = hid_ep_num (xh s)"
    "hit = report_event (kmem s) X (hid_ep_num (xh s)) N" by blast
  have "ring_at (Suc N + n) (xh s') \<and> kmem s' = kmem u \<and>
      g = ((got \<or> hit) \<or> (\<exists>k < n. report_event (kmem u) X (hid_ep_num (xh u)) (Suc N + k)))"
    using later stop Suc.prems(6) u(1,3) by (intro Suc.IH [OF u(2,4) b(2)]) auto
  then show ?case using u by (auto simp: less_Suc_eq_0_disj)
qed

section \<open>Properties\<close>

text \<open>A machine whose event ring at 0x222000 holds one port status event, and with a report at 0x1000.\<close>

definition demo_usb_mem :: mem where
  "demo_usb_mem = (\<lambda>_. 0)(0x22200C := 0x01, 0x22200D := 0x88, 0x1002 := 0x04, 0x1003 := 0x28)"

definition demo_usb :: usb where
  "demo_usb = \<lparr>device = (\<lambda>_ _. 0), io_log = [],
     irq_table = (\<lambda>_. \<lparr>handler = None, irq_name = None, irq_count = 0\<rparr>),
     kterm = terminal_initial fb_initial demo_usb_mem, fault = False, pit_ticks = 0, lapic_ticks = 0,
     kinput = \<lparr>buffer = replicate 256 0, head = 0, tail = 0\<rparr>, kpmm = pmm_setup 0 0, kinvlpg = [],
     xh = xhci_initial\<lparr>evt_cycle := 1, prev_keys := [0x28, 0, 0, 0, 0, 0]\<rparr>, isr_count = 0, keys_count = 0,
     push_count = 0, bad_code_count = 0, xfer_pending = False, dma = (\<lambda>_ m. m)\<rparr>"

lemma demo_usb_fields:
  "kmem demo_usb = demo_usb_mem" "input_ok (kinput demo_usb)" "pending (kinput demo_usb) = []"
  "prev_keys (xh demo_usb) = [0x28, 0, 0, 0, 0, 0]" "dma demo_usb = (\<lambda>_ m. m)" "ring_at 0 (xh demo_usb)"
  by (simp_all add: demo_usb_def terminal_initial_def input_ok_def pending_def ring_at_def lap_bit_def xhci_initial_def)

text \<open>
  C32: \<^verbatim>\<open>process_keys\<close> queues exactly the characters of the keys that are in the report and were not in the
  previous one, in order and as far as the queue has room; it counts them, remembers the
  report's keys, and changes no memory.
\<close>

theorem process_keys_correct:
  assumes "input_ok (kinput s)"
  shows "let keys = report_keys (kmem s) report; new = new_keys (prev_keys (xh s)) keys; s' = process_keys report s in
    input_ok (kinput s') \<and> pending (kinput s') = fold (spec_push 255) (key_chars new) (pending (kinput s)) \<and>
    keys_count s' = keys_count s + of_nat (length new) \<and> push_count s' = push_count s + of_nat (length (key_chars new)) \<and>
    prev_keys (xh s') = keys \<and> kmem s' = kmem s"
  using pending_fold_push [OF assms] process_keys_fields(2) [of report s]
  by (simp add: Let_def process_keys_def report_keys_def fold_process_key)

theorem process_keys_correct_witness:
  "pending (kinput (process_keys 0x1000 demo_usb)) = [0x61]"
proof -
  have "[0..<6] = [0, 1, 2, 3, 4, 5 :: nat]" by (simp add: upt_rec)
  then have k: "report_keys demo_usb_mem 0x1000 = [0x04, 0x28, 0, 0, 0, 0]" by (simp add: report_keys_def demo_usb_mem_def)
  have c: "key_chars (new_keys [0x28, 0, 0, 0, 0, 0] [0x04, 0x28, 0, 0, 0, 0]) = [0x61]"
    by (simp add: key_chars_def new_keys_def hid_key_to_ascii_def)
  show ?thesis using process_keys_correct [OF demo_usb_fields(2), of "0x1000"]
    by (simp add: Let_def demo_usb_fields k c spec_push_def)
qed



end
