(* ===== verification/Bytes.thy ===== *)
theory Bytes
  imports Memory
begin

text \<open>
  Byte strings in memory, for the parts of the kernel that parse firmware tables and program
  images: \<open>bytes_at m p bs\<close> says that \<open>bs\<close> is stored at \<open>p\<close>, \<open>same_bytes\<close> is the comparison loop of the
  sources, \<open>byte_sum\<close> their checksum loop, and \<open>scan16\<close> the search for a table on 16-byte
  boundaries.
\<close>

fun bytes_at :: "mem \<Rightarrow> u64 \<Rightarrow> u8 list \<Rightarrow> bool" where
  "bytes_at m p [] \<longleftrightarrow> True"
| "bytes_at m p (b # bs) \<longleftrightarrow> m p = b \<and> bytes_at m (p + 1) bs"

definition byte_sum :: "mem \<Rightarrow> u64 \<Rightarrow> u32 \<Rightarrow> u8" where
  "byte_sum m p n = for_loop 0 n (\<lambda>i sum. sum + m (p + ucast i)) 0"

definition scan16 :: "u64 \<Rightarrow> u64 \<Rightarrow> (u64 \<Rightarrow> bool) \<Rightarrow> (unit, u64) ctl" where
  "scan16 a n found = for_ctl 0 n (\<lambda>i _. if found (a + 16 * i) then Return (a + 16 * i) else Next ()) ()"

lemma bytes_at_append:
  "bytes_at m p (xs @ ys) \<longleftrightarrow> bytes_at m p xs \<and> bytes_at m (p + of_nat (length xs)) ys"
  by (induction xs arbitrary: p) (simp_all add: add.assoc)

lemma bytes_at_nth: "bytes_at m p bs \<Longrightarrow> i < length bs \<Longrightarrow> m (p + of_nat i) = bs ! i"
proof (induction bs arbitrary: p i)
  case (Cons b bs)
  show ?case
  proof (cases i)
    case (Suc j)
    then have "p + of_nat i = p + 1 + of_nat j" by simp
    moreover have "m (p + 1 + of_nat j) = bs ! j" using Cons.prems Suc by (intro Cons.IH) simp_all
    ultimately show ?thesis using Suc by (simp only: nth_Cons_Suc)
  qed (use Cons in simp)
qed simp

lemma bytes_at_iff: "bytes_at m p bs \<longleftrightarrow> (\<forall>i < length bs. m (p + of_nat i) = bs ! i)"
proof
  show "\<forall>i < length bs. m (p + of_nat i) = bs ! i \<Longrightarrow> bytes_at m p bs"
  proof (induction bs arbitrary: p)
    case (Cons b bs)
    have "m (p + 1 + of_nat i) = bs ! i" if "i < length bs" for i
      using Cons.prems [rule_format, of "Suc i"] that by (simp add: add.assoc)
    then show ?case using Cons.IH [of "p + 1"] Cons.prems [rule_format, of 0] by simp
  qed simp
qed (use bytes_at_nth in blast)

text \<open>The sum of the bytes, modulo 256.\<close>

lemma byte_sum_list: "byte_sum m p n = sum_list (map (\<lambda>i. m (p + of_nat i)) [0..<unat n])"
proof -
  let ?P = "\<lambda>i s. s = sum_list (map (\<lambda>i. m (p + of_nat i)) [0..<unat (i :: u32)])"
  have "?P n (for_loop 0 n (\<lambda>i sum. sum + m (p + ucast i)) 0)"
  proof (rule for_loop_inv [where P = ?P])
    fix j s assume "j < n" "?P j s"
    then show "?P (j + 1) (s + m (p + ucast j))"
      by (simp add: unat_Suc_less [OF \<open>j < n\<close>])
  qed auto
  then show ?thesis by (simp add: byte_sum_def)
qed

text \<open>The search returns the first match and fails only if there is none.\<close>

lemma scan16_result:
  assumes "unat n < 2 ^ 60"
  shows "case scan16 a n found of
      Next _ \<Rightarrow> \<forall>i < unat n. \<not> found (a + 16 * of_nat i)
    | Return r \<Rightarrow> \<exists>i < unat n. r = a + 16 * of_nat i \<and> found r \<and> (\<forall>j < i. \<not> found (a + 16 * of_nat j))"
  unfolding scan16_def
proof (rule for_ctl_inv [where P = "\<lambda>i _. \<forall>j < unat i. \<not> found (a + 16 * of_nat j)"])
  fix j and t t' :: unit
  assume "j < n" "\<forall>i < unat j. \<not> found (a + 16 * of_nat i)"
    "(if found (a + 16 * j) then Return (a + 16 * j) else Next ()) = Next t'"
  then show "\<forall>i < unat (j + 1). \<not> found (a + 16 * of_nat i)"
    by (auto simp: unat_Suc_less [OF \<open>j < n\<close>] less_Suc_eq split: if_splits)
next
  fix j and t :: unit and r
  assume "j < n" "\<forall>i < unat j. \<not> found (a + 16 * of_nat i)"
    "(if found (a + 16 * j) then Return (a + 16 * j) else Next ()) = Return r"
  then show "\<exists>i < unat n. r = a + 16 * of_nat i \<and> found r \<and> (\<forall>j < i. \<not> found (a + 16 * of_nat j))"
    by (intro exI [of _ "unat j"]) (auto simp: word_less_nat_alt split: if_splits)
qed auto

lemma scan16_find:
  assumes "unat n < 2 ^ 60"
  shows "scan16 a n found =
    (case List.find found (map (\<lambda>i. a + 16 * of_nat i) [0..<unat n]) of None \<Rightarrow> Next () | Some p \<Rightarrow> Return p)"
proof (cases "scan16 a n found")
  case (Next u)
  then have "List.find found (map (\<lambda>i. a + 16 * of_nat i) [0..<unat n]) = None"
    using scan16_result [OF assms, where a = a and found = found] by (auto simp: find_None_iff)
  then show ?thesis using Next by simp
next
  case (Return r)
  then obtain i where i: "i < unat n" "r = a + 16 * of_nat i" "found r" "\<forall>j < i. \<not> found (a + 16 * of_nat j)"
    using scan16_result [OF assms, where a = a and found = found] by auto
  then have "List.find found (map (\<lambda>i. a + 16 * of_nat i) [0..<unat n]) = Some r"
    unfolding find_Some_iff by (intro exI [of _ i]) simp
  then show ?thesis using Return by simp
qed

end
