(* ===== verification/Smbios.thy ===== *)
theory Smbios
  imports Bytes
begin

text \<open>
  The SMBIOS tables, \<^verbatim>\<open>src/kernel/smbios/smbios.c\<close>, and the processor name, \<^verbatim>\<open>cpuinfo.c\<close>. Loops that
  run until they meet a zero byte are partial: \<open>None\<close> is a loop that never ends. A string result
  is a pointer, 0 for none.
\<close>

section \<open>Entry point\<close>

record smbios =
  smbios_table :: u64
  smbios_count :: u16

definition checksum_ok :: "mem \<Rightarrow> u64 \<Rightarrow> u8 \<Rightarrow> bool" where
  "checksum_ok m p len \<longleftrightarrow> for_loop 0 len (\<lambda>i sum. sum + m (p + ucast i)) 0 = 0"

definition ep_length :: "mem \<Rightarrow> u64 \<Rightarrow> u8" where "ep_length m p = m (p + 5)"
definition ep_table_address :: "mem \<Rightarrow> u64 \<Rightarrow> u32" where "ep_table_address m p = rd32 m (p + 24)"
definition ep_num_structures :: "mem \<Rightarrow> u64 \<Rightarrow> u16" where "ep_num_structures m p = rd16 m (p + 28)"

definition ep_valid :: "mem \<Rightarrow> u64 \<Rightarrow> bool" where
  "ep_valid m p \<longleftrightarrow>
     \<not> (m p \<noteq> 0x5F \<or> m (p + 1) \<noteq> 0x53 \<or> m (p + 2) \<noteq> 0x4D \<or> m (p + 3) \<noteq> 0x5F) \<and>
     \<not> ep_length m p < 0x1F \<and> checksum_ok m p (ep_length m p) \<and> \<not> ep_table_address m p < 0x1000"

abbreviation SMBIOS_START :: u64 where "SMBIOS_START \<equiv> 0xF0000"
abbreviation SMBIOS_STEPS :: u64 where "SMBIOS_STEPS \<equiv> 0x1000"

text \<open>The loop runs over the 4096 paragraphs from \<^verbatim>\<open>SMBIOS_START\<close> to \<^verbatim>\<open>SMBIOS_END\<close>.\<close>

definition smbios_init :: "mem \<Rightarrow> smbios" where
  "smbios_init m =
     (case scan16 SMBIOS_START SMBIOS_STEPS (ep_valid m) of
        Next _ \<Rightarrow> \<lparr>smbios_table = 0, smbios_count = 0\<rparr>
      | Return p \<Rightarrow> \<lparr>smbios_table = ucast (ep_table_address m p), smbios_count = ep_num_structures m p\<rparr>)"

section \<open>Structures\<close>

partial_function (option) skip_string :: "mem \<Rightarrow> u64 \<Rightarrow> u64 option" where
  [code]: "skip_string m p = (if m p \<noteq> 0 then skip_string m (p + 1) else Some p)"

partial_function (option) smbios_string_from :: "mem \<Rightarrow> u8 \<Rightarrow> u8 \<Rightarrow> u64 \<Rightarrow> u64 option" where
  [code]: "smbios_string_from m idx n p =
     (if m p = 0 then Some 0
      else if n = idx then Some p
      else (case skip_string m p of None \<Rightarrow> None | Some q \<Rightarrow> smbios_string_from m idx (n + 1) (q + 1)))"

definition smbios_string :: "mem \<Rightarrow> u64 \<Rightarrow> u8 \<Rightarrow> u64 option" where
  "smbios_string m hdr idx =
     (if idx = 0 then Some 0 else smbios_string_from m idx 1 (hdr + ucast (m (hdr + 1))))"

partial_function (option) skip_strings :: "mem \<Rightarrow> u64 \<Rightarrow> u64 option" where
  [code]: "skip_strings m p = (if m p \<noteq> 0 \<or> m (p + 1) \<noteq> 0 then skip_strings m (p + 1) else Some p)"

text \<open>The loop of \<^verbatim>\<open>find_field\<close>, with the number of structures left.\<close>

fun find_field_from :: "mem \<Rightarrow> u8 \<Rightarrow> u8 \<Rightarrow> nat \<Rightarrow> u64 \<Rightarrow> u64 option" where
  "find_field_from m type offset 0 p = Some 0"
| "find_field_from m type offset (Suc k) p =
     (if m p = 127 \<or> m (p + 1) < 4 then Some 0
      else
        (case (if m p = type \<and> m (p + 1) > offset then smbios_string m p (m (p + ucast offset)) else Some 0) of
           None \<Rightarrow> None
         | Some s \<Rightarrow>
             if s \<noteq> 0 then Some s
             else (case skip_strings m (p + ucast (m (p + 1))) of
                     None \<Rightarrow> None
                   | Some q \<Rightarrow> find_field_from m type offset k (q + 2))))"

definition find_field :: "mem \<Rightarrow> smbios \<Rightarrow> u8 \<Rightarrow> u8 \<Rightarrow> u64 option" where
  "find_field m s type offset =
     (if smbios_table s = 0 then Some 0
      else find_field_from m type offset (unat (smbios_count s)) (smbios_table s))"

definition smbios_get_board_vendor :: "mem \<Rightarrow> smbios \<Rightarrow> u64 option" where
  "smbios_get_board_vendor m s = find_field m s 2 0x04"

definition smbios_get_board_name :: "mem \<Rightarrow> smbios \<Rightarrow> u64 option" where
  "smbios_get_board_name m s = find_field m s 2 0x05"

section \<open>The processor name\<close>

text \<open>\<open>cpuid\<close> gives the registers EAX, EBX, ECX, EDX for a leaf.\<close>

partial_function (option) skip_spaces :: "mem \<Rightarrow> u64 \<Rightarrow> u64 \<Rightarrow> u64 option" where
  [code]: "skip_spaces m out i = (if m (out + i) = 0x20 then skip_spaces m out (i + 1) else Some i)"

partial_function (option) shift_down :: "u64 \<Rightarrow> u64 \<Rightarrow> u64 \<Rightarrow> mem \<Rightarrow> mem option" where
  [code]: "shift_down out i j m =
     (if m (out + i) \<noteq> 0 then shift_down out (i + 1) (j + 1) (m(out + j := m (out + i)))
      else Some (m(out + j := 0)))"

definition cpuid_store :: "(u32 \<Rightarrow> u32 \<times> u32 \<times> u32 \<times> u32) \<Rightarrow> u32 \<Rightarrow> u64 \<Rightarrow> mem \<Rightarrow> mem" where
  "cpuid_store cpuid leaf p m =
     (case cpuid leaf of (a, b, c, d) \<Rightarrow>
        wr32 (wr32 (wr32 (wr32 m p a) (p + 4) b) (p + 8) c) (p + 12) d)"

definition cpu_get_brand :: "(u32 \<Rightarrow> u32 \<times> u32 \<times> u32 \<times> u32) \<Rightarrow> u64 \<Rightarrow> u64 \<Rightarrow> mem \<Rightarrow> mem option" where
  "cpu_get_brand cpuid out mx m =
     (if mx < 49 then Some (if mx \<noteq> 0 then m(out := 0) else m)
      else if fst (cpuid 0x80000000) < 0x80000004 then Some (m(out := 0))
      else
        let m = cpuid_store cpuid 0x80000002 out m;
            m = cpuid_store cpuid 0x80000003 (out + 16) m;
            m = cpuid_store cpuid 0x80000004 (out + 32) m;
            m = m(out + 48 := 0)
        in case skip_spaces m out 0 of
             None \<Rightarrow> None
           | Some i \<Rightarrow> if i > 0 then shift_down out i 0 m else Some m)"

section \<open>Tables as data\<close>

text \<open>
  An SMBIOS structure: its type, the bytes of its formatted area after type and length, and its
  strings; \<open>encode\<close> is its layout in memory as the SMBIOS specification gives it.
\<close>

record dmi =
  s_type :: u8
  s_fields :: "u8 list"
  s_strings :: "u8 list list"

definition encode_strings :: "u8 list list \<Rightarrow> u8 list" where
  "encode_strings ss = (if ss = [] then [0, 0] else concat (map (\<lambda>s. s @ [0]) ss) @ [0])"

definition encode :: "dmi \<Rightarrow> u8 list" where
  "encode t = s_type t # of_nat (length (s_fields t) + 2) # s_fields t @ encode_strings (s_strings t)"

definition structure_ok :: "dmi \<Rightarrow> bool" where
  "structure_ok t \<longleftrightarrow> s_type t \<noteq> 127 \<and> 2 \<le> length (s_fields t) \<and> length (s_fields t) + 2 < 256 \<and>
     (\<forall>s \<in> set (s_strings t). s \<noteq> [] \<and> 0 \<notin> set s)"

text \<open>The byte of a structure at an offset.\<close>

definition field_byte :: "dmi \<Rightarrow> u8 \<Rightarrow> u8" where
  "field_byte t off = (s_type t # of_nat (length (s_fields t) + 2) # s_fields t) ! unat off"

fun lookup_field :: "u8 \<Rightarrow> u8 \<Rightarrow> dmi list \<Rightarrow> u8 list option" where
  "lookup_field ty off [] = None"
| "lookup_field ty off (t # ts) =
     (let i = unat (field_byte t off) in
      if s_type t = ty \<and> unat off < length (s_fields t) + 2 \<and> 1 \<le> i \<and> i \<le> length (s_strings t)
      then Some (s_strings t ! (i - 1)) else lookup_field ty off ts)"

section \<open>Walking a table\<close>

lemma skip_string_at: "bytes_at m p (s @ [0]) \<Longrightarrow> 0 \<notin> set s \<Longrightarrow> skip_string m p = Some (p + of_nat (length s))"
proof (induction s arbitrary: p)
  case Nil
  then show ?case by (subst skip_string.simps) simp
next
  case (Cons b s)
  then have "skip_string m (p + 1) = Some (p + 1 + of_nat (length s))" by (intro Cons.IH) simp_all
  then show ?case using Cons.prems by (subst skip_string.simps) (simp add: add.assoc)
qed

text \<open>The strings of a structure are numbered from \<open>n\<close> at \<open>p\<close>.\<close>

definition string_found :: "mem \<Rightarrow> u8 list list \<Rightarrow> nat \<Rightarrow> u64 \<Rightarrow> u64 \<Rightarrow> bool" where
  "string_found m ss i p r \<longleftrightarrow>
     (if i < length ss
      then \<exists>k. r = p + of_nat k \<and> k < length (concat (map (\<lambda>s. s @ [0]) ss)) \<and> bytes_at m r (ss ! i @ [0])
      else r = 0)"

lemma string_found_Cons:
  assumes "string_found m ss i (p + of_nat (length s) + 1) r"
  shows "string_found m (s # ss) (Suc i) p r"
proof (cases "i < length ss")
  case True
  then obtain k where k: "r = p + of_nat (length s) + 1 + of_nat k"
    "k < length (concat (map (\<lambda>s. s @ [0]) ss))" "bytes_at m r (ss ! i @ [0])"
    using assms by (auto simp: string_found_def)
  then have "r = p + of_nat (length s + 1 + k)" by (simp add: add.assoc)
  then show ?thesis using k True unfolding string_found_def
    by (simp only: length_Cons Suc_less_eq if_True) (rule exI [of _ "length s + 1 + k"], simp)
qed (use assms in \<open>simp add: string_found_def\<close>)

lemma string_from_at:
  assumes "bytes_at m p (concat (map (\<lambda>s. s @ [0]) ss) @ [0])" "\<forall>s \<in> set ss. s \<noteq> [] \<and> 0 \<notin> set s"
    and "unat n \<le> unat idx"
  shows "\<exists>r. smbios_string_from m idx n p = Some r \<and> string_found m ss (unat idx - unat n) p r"
  using assms
proof (induction ss arbitrary: n p)
  case Nil
  then show ?case by (subst smbios_string_from.simps) (simp add: string_found_def)
next
  case (Cons s ss)
  let ?q = "p + of_nat (length s) + 1"
  have s: "bytes_at m p (s @ [0])" "bytes_at m ?q (concat (map (\<lambda>s. s @ [0]) ss) @ [0])" "s \<noteq> []" "0 \<notin> set s"
    using Cons.prems by (simp_all add: bytes_at_append add.assoc)
  have p: "m p \<noteq> 0" using s by (cases s) auto
  show ?case
  proof (cases "n = idx")
    case True
    then have "smbios_string_from m idx n p = Some p" using p by (subst smbios_string_from.simps) simp
    then show ?thesis using True s by (auto simp: string_found_def intro!: exI [of _ "0 :: nat"])
  next
    case False
    then have lt: "unat n < unat idx" using Cons.prems(3) by (metis le_neq_implies_less word_unat_eq_iff)
    then have n1: "unat (n + 1) = Suc (unat n)" by (intro unat_Suc_less) (simp add: word_less_nat_alt)
    have step: "smbios_string_from m idx n p = smbios_string_from m idx (n + 1) ?q"
      using p False skip_string_at [OF s(1,4)] by (subst smbios_string_from.simps) simp
    have "\<forall>s \<in> set ss. s \<noteq> [] \<and> 0 \<notin> set s" "unat (n + 1) \<le> unat idx" using Cons.prems lt n1 by simp_all
    then obtain r where r: "smbios_string_from m idx (n + 1) ?q = Some r"
      "string_found m ss (unat idx - unat (n + 1)) ?q r" using Cons.IH [OF s(2)] by blast
    have "unat idx - unat n = Suc (unat idx - unat (n + 1))" using lt n1 by simp
    then show ?thesis using step r string_found_Cons [OF r(2)] by simp
  qed
qed

lemma skip_strings_at:
  assumes "bytes_at m p (encode_strings ss)" "\<forall>s \<in> set ss. s \<noteq> [] \<and> 0 \<notin> set s"
  shows "skip_strings m p = Some (p + of_nat (length (encode_strings ss)) - 2)"
proof (cases "ss = []")
  case True
  then show ?thesis using assms by (subst skip_strings.simps) (simp add: encode_strings_def)
next
  case False
  have skip: "skip_strings m q = Some (q + of_nat (length s) + of_nat (length (concat (map (\<lambda>s. s @ [0]) ss))))"
    if "bytes_at m q (s @ 0 # concat (map (\<lambda>s. s @ [0]) ss) @ [0])" "0 \<notin> set s" "\<forall>s \<in> set ss. s \<noteq> [] \<and> 0 \<notin> set s"
    for q s ss
    using that
  proof (induction ss arbitrary: q s)
    case Nil
    then show ?case
    proof (induction s arbitrary: q)
      case Nil
      then show ?case by (subst skip_strings.simps) simp
    next
      case (Cons b s)
      then have "skip_strings m (q + 1) = Some (q + 1 + of_nat (length s))" by simp
      then show ?case using Cons.prems by (subst skip_strings.simps) (simp add: add.assoc)
    qed
  next
    case (Cons t ss)
    note outer = Cons
    show ?case using outer(2,3)
    proof (induction s arbitrary: q)
      case Nil
      have t: "t \<noteq> []" "0 \<notin> set t" using outer(4) by simp_all
      have "bytes_at m (q + 1) (t @ 0 # concat (map (\<lambda>s. s @ [0]) ss) @ [0])" using Nil by simp
      from outer(1) [OF this t(2)] outer(4)
      have "skip_strings m (q + 1) = Some (q + 1 + of_nat (length t) + of_nat (length (concat (map (\<lambda>s. s @ [0]) ss))))"
        by simp
      moreover have "m (q + 1) \<noteq> 0" using Nil t by (cases t) auto
      ultimately show ?case by (subst skip_strings.simps) (simp add: ac_simps)
    next
      case (Cons b s)
      then have "skip_strings m (q + 1) = Some (q + 1 + of_nat (length s) + of_nat (length (concat (map (\<lambda>s. s @ [0]) (t # ss)))))"
        by simp
      then show ?case using Cons.prems by (subst skip_strings.simps) (simp add: ac_simps)
    qed
  qed
  obtain s rest where ss: "ss = s # rest" using False by (cases ss) auto
  then show ?thesis using skip [of p s rest] assms by (simp add: encode_strings_def ac_simps)
qed

lemma encode_at:
  assumes "bytes_at m p (encode t)" "structure_ok t"
  shows "m p = s_type t" "unat (m (p + 1)) = length (s_fields t) + 2"
    "bytes_at m (p + ucast (m (p + 1))) (encode_strings (s_strings t))"
    "unat off < length (s_fields t) + 2 \<Longrightarrow> m (p + ucast off) = field_byte t off"
proof -
  let ?h = "s_type t # of_nat (length (s_fields t) + 2) # s_fields t"
  have e: "encode t = ?h @ encode_strings (s_strings t)" by (simp add: encode_def)
  have h: "bytes_at m p ?h" and q: "bytes_at m (p + of_nat (length ?h)) (encode_strings (s_strings t))"
    using assms(1) unfolding e bytes_at_append by blast+
  have len: "length (s_fields t) + 2 < 256" using assms(2) by (simp add: structure_ok_def)
  show "m p = s_type t" using h by simp
  have "m (p + 1) = of_nat (length (s_fields t) + 2)" using h by simp
  then show l: "unat (m (p + 1)) = length (s_fields t) + 2"
    using len unat_of_nat_small [of "length (s_fields t) + 2", where 'a = 8] by simp
  have "(ucast (m (p + 1)) :: u64) = of_nat (unat (m (p + 1)))" by simp
  then show "bytes_at m (p + ucast (m (p + 1))) (encode_strings (s_strings t))"
    using q unfolding l by simp
  assume "unat off < length (s_fields t) + 2"
  then have "m (p + of_nat (unat off)) = ?h ! unat off" using h by (intro bytes_at_nth) simp_all
  then show "m (p + ucast off) = field_byte t off" by (simp add: field_byte_def)
qed

lemma encode_strings_tail: "\<exists>xs. encode_strings ss = concat (map (\<lambda>s. s @ [0]) ss) @ [0] @ xs"
  by (simp add: encode_strings_def)

lemma struct_string:
  assumes t: "bytes_at m p (encode t)" "structure_ok t" and fit: "p \<noteq> 0" "unat p + length (encode t) \<le> 2 ^ 64"
  shows "\<exists>r. smbios_string m p idx = Some r \<and>
    (if 1 \<le> unat idx \<and> unat idx \<le> length (s_strings t)
     then r \<noteq> 0 \<and> bytes_at m r (s_strings t ! (unat idx - 1) @ [0]) else r = 0)"
proof (cases "idx = 0")
  case True
  then show ?thesis by (simp add: smbios_string_def)
next
  case False
  let ?L = "length (s_fields t) + 2"
  have q: "p + ucast (m (p + 1)) = p + of_nat ?L"
    using encode_at(2) [OF t] by (metis of_nat_unat)
  have i: "1 \<le> unat idx" using False by (simp add: Suc_le_eq unat_gt_0)
  have "bytes_at m (p + of_nat ?L) (concat (map (\<lambda>s. s @ [0]) (s_strings t)) @ [0])"
    using encode_at(3) [OF t] encode_strings_tail [of "s_strings t"] q by (auto simp: bytes_at_append)
  moreover have "\<forall>s \<in> set (s_strings t). s \<noteq> [] \<and> 0 \<notin> set s" using t by (simp add: structure_ok_def)
  ultimately obtain r where r: "smbios_string_from m idx 1 (p + of_nat ?L) = Some r"
    "string_found m (s_strings t) (unat idx - 1) (p + of_nat ?L) r"
    using string_from_at [of m _ _ 1 idx] i by (metis unsigned_1)
  have "r \<noteq> 0" if i_lt: "unat idx - 1 < length (s_strings t)"
  proof -
    obtain k where k: "r = p + of_nat ?L + of_nat k" "k < length (concat (map (\<lambda>s. s @ [0]) (s_strings t)))"
      using r(2) unfolding string_found_def by (simp only: i_lt if_True) blast
    have "length (concat (map (\<lambda>s. s @ [0]) (s_strings t))) \<le> length (encode_strings (s_strings t))"
      by (simp add: encode_strings_def)
    then have "?L + k < length (encode t)" using k(2) unfolding encode_def length_append length_Cons by linarith
    moreover have "r = p + of_nat (?L + k)" using k(1) by (simp add: add.assoc)
    ultimately have "unat r = unat p + (?L + k)" using fit by (simp only:) (rule unat_add_of_nat, simp)
    then show ?thesis using \<open>p \<noteq> 0\<close> by auto
  qed
  moreover have "smbios_string m p idx = Some r" using r(1) False q by (simp add: smbios_string_def)
  moreover have "unat idx - 1 < length (s_strings t) \<longleftrightarrow> 1 \<le> unat idx \<and> unat idx \<le> length (s_strings t)" using i by auto
  moreover have "if unat idx - 1 < length (s_strings t) then bytes_at m r (s_strings t ! (unat idx - 1) @ [0]) else r = 0"
    using r(2) unfolding string_found_def by meson
  ultimately show ?thesis by (metis (full_types))
qed

lemma find_from_at:
  assumes "bytes_at m p (concat (map encode ts))" "\<forall>t \<in> set ts. structure_ok t"
    and "p \<noteq> 0" "unat p + length (concat (map encode ts)) < 2 ^ 64"
  shows "\<exists>r. find_field_from m ty off (length ts) p = Some r \<and>
    (case lookup_field ty off ts of None \<Rightarrow> r = 0 | Some s \<Rightarrow> r \<noteq> 0 \<and> bytes_at m r (s @ [0]))"
  using assms
proof (induction ts arbitrary: p)
  case (Cons t ts)
  let ?q = "p + of_nat (length (encode t))"
  have t: "bytes_at m p (encode t)" "structure_ok t" and rest: "bytes_at m ?q (concat (map encode ts))"
    using Cons.prems by (simp_all add: bytes_at_append)
  have fit: "unat p + length (encode t) < 2 ^ 64" using Cons.prems(4) by simp
  then have uq: "unat ?q = unat p + length (encode t)" by (intro unat_add_of_nat) simp
  then have "unat ?q \<noteq> 0" using Cons.prems(3) by (simp add: unat_eq_zero)
  then have q: "?q \<noteq> 0" "unat ?q + length (concat (map encode ts)) < 2 ^ 64"
    using Cons.prems(4) uq by auto
  have "\<forall>t \<in> set ts. structure_ok t" using Cons.prems by simp
  then obtain r where r: "find_field_from m ty off (length ts) ?q = Some r"
    "case lookup_field ty off ts of None \<Rightarrow> r = 0 | Some s \<Rightarrow> r \<noteq> 0 \<and> bytes_at m r (s @ [0])"
    using Cons.IH [OF rest _ q] by blast
  have len: "\<not> m (p + 1) < 4" "off < m (p + 1) \<longleftrightarrow> unat off < length (s_fields t) + 2"
    using encode_at(2) [OF t] t(2) by (simp_all add: word_less_nat_alt structure_ok_def)
  have ty: "m p \<noteq> 127" using encode_at(1) [OF t] t(2) by (simp add: structure_ok_def)
  have "skip_strings m (p + ucast (m (p + 1))) = Some (?q - 2)"
  proof -
    have "(ucast (m (p + 1)) :: u64) = of_nat (length (s_fields t) + 2)"
      using encode_at(2) [OF t] by (metis of_nat_unat)
    then show ?thesis
      using skip_strings_at [OF encode_at(3) [OF t]] t(2) by (simp add: structure_ok_def encode_def ac_simps)
  qed
  then have skip: "(case skip_strings m (p + ucast (m (p + 1))) of None \<Rightarrow> None
      | Some q \<Rightarrow> find_field_from m ty off (length ts) (q + 2)) = Some r"
    using r(1) by simp
  show ?case
  proof (cases "s_type t = ty \<and> unat off < length (s_fields t) + 2")
    case True
    obtain s where s: "smbios_string m p (field_byte t off) = Some s"
      "if 1 \<le> unat (field_byte t off) \<and> unat (field_byte t off) \<le> length (s_strings t)
       then s \<noteq> 0 \<and> bytes_at m s (s_strings t ! (unat (field_byte t off) - 1) @ [0]) else s = 0"
      using struct_string [OF t Cons.prems(3)] fit by (meson less_imp_le)
    show ?thesis using True s len ty encode_at(1,4) [OF t] r skip by (auto simp: Let_def)
  next
    case False
    then show ?thesis using len ty encode_at(1) [OF t] r skip by (auto simp: Let_def)
  qed
qed simp

section \<open>Properties\<close>



definition demo_board :: dmi where
  "demo_board = \<lparr>s_type = 2, s_fields = [0, 0, 1, 2], s_strings = [[0x41, 0x42], [0x43]]\<rparr>"

definition demo_dmi_mem :: mem where
  "demo_dmi_mem a = (if unat (a - 0x2000) < length (encode demo_board) then encode demo_board ! unat (a - 0x2000) else 0)"


end
