(* ===== verification/Acpi.thy ===== *)
theory Acpi
  imports Bytes Hardware
begin

text \<open>
  ACPI, \<^verbatim>\<open>src/arch/x86_64/acpi.c\<close>: finding the tables, extracting the sleep type of the soft-off state
  from the \<^verbatim>\<open>_S5_\<close> package of the AML code, and powering off and rebooting. Tables are read from
  memory; \<open>acpi_shutdown\<close> and \<open>acpi_reboot\<close> end in an endless loop around \<^verbatim>\<open>hlt\<close>.
\<close>

section \<open>Finding tables\<close>

record acpi =
  pm1a_cnt_blk :: u32
  pm1b_cnt_blk :: u32
  slp_typa :: u8
  slp_typb :: u8
  have_s5 :: bool
  is_qemu :: bool

definition acpi_initial :: acpi where
  "acpi_initial = \<lparr>pm1a_cnt_blk = 0, pm1b_cnt_blk = 0, slp_typa = 5, slp_typb = 5, have_s5 = False, is_qemu = False\<rparr>"

fun acpi_memcmp :: "mem \<Rightarrow> u64 \<Rightarrow> u8 list \<Rightarrow> int" where
  "acpi_memcmp m p [] = 0"
| "acpi_memcmp m p (y # ys) = (if m p \<noteq> y then uint (m p) - uint y else acpi_memcmp m (p + 1) ys)"

definition acpi_checksum :: "mem \<Rightarrow> u64 \<Rightarrow> u32 \<Rightarrow> u8" where "acpi_checksum m p len = byte_sum m p len"

definition sig_rsdp :: "u8 list" where "sig_rsdp = [0x52, 0x53, 0x44, 0x20, 0x50, 0x54, 0x52, 0x20]"
definition sig_rsdt :: "u8 list" where "sig_rsdt = [0x52, 0x53, 0x44, 0x54]"
definition sig_xsdt :: "u8 list" where "sig_xsdt = [0x58, 0x53, 0x44, 0x54]"
definition sig_facp :: "u8 list" where "sig_facp = [0x46, 0x41, 0x43, 0x50]"
definition sig_ssdt :: "u8 list" where "sig_ssdt = [0x53, 0x53, 0x44, 0x54]"
definition sig_dsdt :: "u8 list" where "sig_dsdt = [0x44, 0x53, 0x44, 0x54]"

definition rsdp_valid :: "mem \<Rightarrow> u64 \<Rightarrow> bool" where
  "rsdp_valid m p \<longleftrightarrow> acpi_memcmp m p sig_rsdp = 0 \<and> acpi_checksum m p 20 = 0"

text \<open>The first kilobyte of the EBDA has 64 paragraphs, the BIOS area 0xE0000 to 0x100000 has 8192.\<close>

definition find_rsdp :: "mem \<Rightarrow> u64" where
  "find_rsdp m =
     (let ebda_seg = rd16 m 0x40E; bios = (case scan16 0xE0000 0x2000 (rsdp_valid m) of Return p \<Rightarrow> p | Next _ \<Rightarrow> 0) in
      if ebda_seg \<noteq> 0 then
        (case scan16 (push_bit 4 (ucast ebda_seg)) 64 (rsdp_valid m) of Return p \<Rightarrow> p | Next _ \<Rightarrow> bios)
      else bios)"

section \<open>The soft-off package\<close>

text \<open>An integer of the package at offset \<open>off\<close>: its value and the offset after it.\<close>

definition parse_int_element :: "(u32 \<Rightarrow> u8) \<Rightarrow> u32 \<Rightarrow> u32 \<Rightarrow> (u8 \<times> u32) option" where
  "parse_int_element p len off =
     (if off \<ge> len then None
      else
        let op = p off in
        if op = 0x00 then Some (0, off + 1)
        else if op = 0x01 then Some (1, off + 1)
        else if op = 0xFF then Some (0xFF, off + 1)
        else if op = 0x0A then (if off + 1 \<ge> len then None else Some (p (off + 1), off + 2))
        else if op = 0x0B then (if off + 2 \<ge> len then None else Some (p (off + 1), off + 3))
        else if op = 0x0C then (if off + 4 \<ge> len then None else Some (p (off + 1), off + 5))
        else if op = 0x0E then (if off + 8 \<ge> len then None else Some (p (off + 1), off + 9))
        else if op \<ge> 0x02 then Some (op, off + 1)
        else None)"

definition pkglen_bytes :: "u8 \<Rightarrow> u32" where
  "pkglen_bytes pkglen =
     (if pkglen AND 0xC0 = 0x40 then 2 else if pkglen AND 0xC0 = 0x80 then 3
      else if pkglen AND 0xC0 = 0xC0 then 4 else 1)"

text \<open>Skipping a method header: up to 16 bytes are searched for the package.\<close>

definition skip_method :: "(u32 \<Rightarrow> u8) \<Rightarrow> u32 \<Rightarrow> u32 \<Rightarrow> u32" where
  "skip_method dsdt len off =
     (let off = off + (1 + pkglen_bytes (dsdt (off + 1)) + 1) in
      case for_ctl 0 (16 :: u32)
        (\<lambda>k _. if \<not> off + k < len then Return off else if dsdt (off + k) = 0x12 then Return (off + k) else Next ()) () of
        Next _ \<Rightarrow> off
      | Return o' \<Rightarrow> o')"

fun parse_elements :: "(u32 \<Rightarrow> u8) \<Rightarrow> u32 \<Rightarrow> nat \<Rightarrow> u32 \<Rightarrow> u8 list" where
  "parse_elements dsdt len 0 off = []"
| "parse_elements dsdt len (Suc n) off =
     (case parse_int_element dsdt len off of
        None \<Rightarrow> []
      | Some (v, off) \<Rightarrow> v # parse_elements dsdt len n off)"

text \<open>\<^verbatim>\<open>vals\<close> starts as zeros; elements that cannot be parsed stay zero.\<close>

definition val_at :: "u8 list \<Rightarrow> nat \<Rightarrow> u8" where "val_at vs i = (if i < length vs then vs ! i else 0)"

definition s5_package :: "(u32 \<Rightarrow> u8) \<Rightarrow> u32 \<Rightarrow> u32 \<Rightarrow> (u8 \<times> u8) option" where
  "s5_package dsdt len off =
     (let off = (if off < len \<and> dsdt off = 0x08 then off + 1 else off);
          off = (if off < len \<and> dsdt off = 0x14 then skip_method dsdt len off else off)
      in if off \<ge> len \<or> dsdt off \<noteq> 0x12 then None
         else
           let off = off + 1;
               off = off + pkglen_bytes (dsdt off)
           in if off \<ge> len then None
              else
                let num = dsdt off; off = off + 1 in
                if num < 2 then None
                else let vals = parse_elements dsdt len (min 4 (unat num)) off
                     in Some (val_at vals 0, val_at vals 1))"

definition s5_name :: "(u32 \<Rightarrow> u8) \<Rightarrow> u32 \<Rightarrow> bool" where
  "s5_name dsdt i \<longleftrightarrow> dsdt i = 0x5F \<and> dsdt (i + 1) = 0x53 \<and> dsdt (i + 2) = 0x35 \<and> dsdt (i + 3) = 0x5F"

function find_s5_from :: "(u32 \<Rightarrow> u8) \<Rightarrow> u32 \<Rightarrow> u32 \<Rightarrow> (u8 \<times> u8) option" where
  "find_s5_from dsdt len i =
     (if i + 4 < len then
        (case (if s5_name dsdt i then s5_package dsdt len (i + 4) else None) of
           Some r \<Rightarrow> Some r
         | None \<Rightarrow> find_s5_from dsdt len (i + 1))
      else None)"
  by pat_completeness auto
termination
proof (relation "measure (\<lambda>(dsdt, len, i). 2 ^ 32 - unat (i + 4))", goal_cases)
  case (2 dsdt len i)
  have "unat (i + 4 + 1) = Suc (unat (i + 4))" by (rule unat_Suc_less [OF 2(1)])
  moreover have "i + 1 + 4 = i + 4 + 1" by simp
  ultimately show ?case using unat_bound [of "i + 4"] unat_bound [of "i + 4 + 1"] by (simp del: add.assoc)
qed simp

declare find_s5_from.simps [simp del]

definition find_s5 :: "mem \<Rightarrow> u64 \<Rightarrow> u32 \<Rightarrow> (u8 \<times> u8) option" where
  "find_s5 m dsdt len = find_s5_from (\<lambda>i. m (dsdt + ucast i)) len 0"

section \<open>Initialisation\<close>

definition sdt_length :: "mem \<Rightarrow> u64 \<Rightarrow> u32" where "sdt_length m t = rd32 m (t + 4)"
abbreviation sizeof_sdt_header :: u32 where "sizeof_sdt_header \<equiv> 36"

definition try_table_s5 :: "mem \<Rightarrow> u64 \<Rightarrow> acpi \<Rightarrow> acpi" where
  "try_table_s5 m hdr a =
     (if have_s5 a then a
      else
        (case find_s5 m hdr (sdt_length m hdr) of
           None \<Rightarrow> a
         | Some (x, y) \<Rightarrow>
             if x = 0 \<and> y = 0 then a\<lparr>slp_typa := 5, slp_typb := 5, have_s5 := True\<rparr>
             else a\<lparr>slp_typa := x, slp_typb := y, have_s5 := True\<rparr>))"

definition detect_qemu :: "mem \<Rightarrow> u64 \<Rightarrow> acpi \<Rightarrow> acpi" where
  "detect_qemu m sdt a =
     (if acpi_memcmp m (sdt + 10) [0x42, 0x4F, 0x43, 0x48, 0x53, 0x20] = 0 \<or>
         acpi_memcmp m (sdt + 10) [0x51, 0x45, 0x4D, 0x55, 0x20, 0x20] = 0
      then a\<lparr>is_qemu := True\<rparr> else a)"

definition read_fadt :: "mem \<Rightarrow> u64 \<Rightarrow> u32 \<times> u32 \<times> u32" where
  "read_fadt m fadt =
     (let dsdt32 = rd32 m (fadt + 0x28);
          x_dsdt = (if sdt_length m fadt \<ge> 0x94
                    then push_bit 32 (ucast (rd32 m (fadt + 0x90))) OR ucast (rd32 m (fadt + 0x8C)) else 0 :: u64)
      in (rd32 m (fadt + 0x40), rd32 m (fadt + 0x44), if x_dsdt \<noteq> 0 then ucast x_dsdt else dsdt32))"

definition acpi_table :: "mem \<Rightarrow> u64 \<Rightarrow> acpi \<times> u32 \<Rightarrow> acpi \<times> u32" where
  "acpi_table m hdr st =
     (case st of (a, dsdt_phys) \<Rightarrow>
        if acpi_memcmp m hdr sig_facp = 0 then
          (case read_fadt m hdr of (pa, pb, d) \<Rightarrow> (a\<lparr>pm1a_cnt_blk := pa, pm1b_cnt_blk := pb\<rparr>, d))
        else if acpi_memcmp m hdr sig_ssdt = 0 then (try_table_s5 m hdr a, dsdt_phys)
        else (a, dsdt_phys))"

definition acpi_init :: "mem \<Rightarrow> acpi \<Rightarrow> acpi" where
  "acpi_init m a =
     (let rsdp = find_rsdp m in
      if rsdp = 0 then a
      else
        let (sdt_phys, entry_size) =
              (if m (rsdp + 15) \<ge> 2 \<and> rd64 m (rsdp + 24) \<noteq> 0
               then (ucast (rd64 m (rsdp + 24)) :: u32, 8 :: u32) else (rd32 m (rsdp + 16), 4));
            sdt = ucast sdt_phys
        in if acpi_memcmp m sdt sig_rsdt \<noteq> 0 \<and> acpi_memcmp m sdt sig_xsdt \<noteq> 0 then a
           else
             let a = detect_qemu m sdt a;
                 entries = (sdt_length m sdt - sizeof_sdt_header) div entry_size;
                 base = sdt + 36;
                 (a, dsdt_phys) = for_loop 0 entries
                   (\<lambda>i. acpi_table m (if entry_size = 8 then rd64 m (base + ucast (i * 8))
                                      else ucast (rd32 m (base + ucast (i * 4))))) (a, 0);
                 a = (if dsdt_phys \<noteq> 0 \<and> acpi_memcmp m (ucast dsdt_phys) sig_dsdt = 0
                      then try_table_s5 m (ucast dsdt_phys) a else a)
             in if \<not> have_s5 a then a\<lparr>slp_typa := 5, slp_typb := 5\<rparr> else a)"

definition acpi_shutdown :: "'z hw_scheme \<Rightarrow> 'z hw_scheme" where
  "acpi_shutdown s = io_do Hlt (outw 0xB004 0x2000 (outw 0x604 0x2000 (outl 0x501 0 s)))"

definition acpi_reboot :: "'z hw_scheme \<Rightarrow> 'z hw_scheme" where
  "acpi_reboot s =
     (let (_, s) = poll 100000 (In8 0x64) (\<lambda>v. (ucast v :: u8) AND 0x02 = 0) s;
          s = outb 0x64 0xFE s;
          s = io_do (Load_Idt 0 0) s
      in io_do Hlt (io_do (Software_Int 0) s))"

section \<open>Signatures\<close>

lemma memcmp_zero: "acpi_memcmp m p ys = 0 \<longleftrightarrow> bytes_at m p ys"
  by (induction m p ys rule: acpi_memcmp.induct) (auto simp: word_uint_eq_iff)

section \<open>Encoded packages\<close>

text \<open>
  The AML encodings of an integer and the low byte of its value: the constants Zero, One and
  Ones, and the byte, word, double and quad word prefixes.
\<close>

fun aml_value :: "u8 list \<Rightarrow> u8 option" where
  "aml_value [] = None"
| "aml_value (x # bs) =
     (if (x = 0x00 \<or> x = 0x01 \<or> x = 0xFF) \<and> bs = [] then Some x
      else if x = 0x0A \<and> length bs = 1 \<or> x = 0x0B \<and> length bs = 2 \<or> x = 0x0C \<and> length bs = 4 \<or> x = 0x0E \<and> length bs = 8
      then Some (hd bs) else None)"

text \<open>The package as firmware stores it: name, package operator, length, element count, elements.\<close>

definition s5_bytes :: "u8 list \<Rightarrow> u8 \<Rightarrow> u8 list \<Rightarrow> u8 list \<Rightarrow> u8 list" where
  "s5_bytes pkglen num ea eb = [0x5F, 0x53, 0x35, 0x5F, 0x12] @ pkglen @ [num] @ ea @ eb"

definition pkglen_ok :: "u8 list \<Rightarrow> bool" where
  "pkglen_ok p \<longleftrightarrow> p \<noteq> [] \<and> length p = unat (pkglen_bytes (hd p))"

text \<open>A table seen through 32-bit offsets.\<close>

definition table_view :: "(u32 \<Rightarrow> u8) \<Rightarrow> u32 \<Rightarrow> u8 list \<Rightarrow> bool" where
  "table_view f len tbl \<longleftrightarrow> length tbl = unat len \<and> (\<forall>k < length tbl. f (of_nat k) = tbl ! k)"

lemma view_at: "table_view f len tbl \<Longrightarrow> tbl = a @ x # b \<Longrightarrow> k = length a \<Longrightarrow> f (of_nat k) = x"
  by (auto simp: table_view_def nth_append)

lemma view_ge:
  assumes "table_view f len tbl" "k \<le> length tbl"
  shows "len \<le> of_nat k \<longleftrightarrow> k = length tbl" "of_nat k < len \<longleftrightarrow> k < length tbl"
proof -
  have "length tbl < 2 ^ 32" using assms(1) unat_bound [of len] by (simp add: table_view_def)
  then have "unat (of_nat k :: u32) = k" using assms(2) by (intro unat_of_nat_small) simp
  then show "len \<le> of_nat k \<longleftrightarrow> k = length tbl" "of_nat k < len \<longleftrightarrow> k < length tbl"
    using assms by (auto simp: table_view_def word_le_nat_alt word_less_nat_alt)
qed

lemma of_nat_plus: "(of_nat k :: 'a::len word) + numeral n = of_nat (k + numeral n)" "(of_nat k :: 'a word) + 1 = of_nat (k + 1)"
  by simp_all

lemma parse_int_at:
  assumes v: "table_view f len tbl" and tbl: "tbl = pre @ e @ post" and e: "aml_value e = Some x"
  shows "parse_int_element f len (of_nat (length pre)) = Some (x, of_nat (length pre + length e))"
proof -
  obtain y bs where y: "e = y # bs" using e by (cases e) auto
  define w :: u32 where "w = of_nat (length pre)"
  have f0: "f w = y" using v tbl y unfolding w_def by (intro view_at [of f len tbl pre y "bs @ post"]) simp_all
  have lt: "\<not> len \<le> w + of_nat j" if "j \<le> length bs" for j
    using view_ge(1) [OF v, of "length pre + j"] that tbl y by (simp add: w_def)
  have f1: "f (w + 1) = hd bs" if "bs \<noteq> []"
    using v tbl y that view_at [of f len tbl "pre @ [y]" "hd bs" "tl bs @ post"] by (simp add: w_def add.commute)
  have g: "of_nat (length pre + length e) = w + 1 + of_nat (length bs)" by (simp add: w_def y)
  consider "y \<in> {0, 1, 0xFF}" "bs = []" "x = y" | "x = hd bs" "(y, length bs) \<in> {(0x0A, 1), (0x0B, 2), (0x0C, 4), (0x0E, 8)}"
    using e y by (auto split: if_splits)
  then show ?thesis
  proof cases
    case 1
    then show ?thesis using f0 lt [of 0] unfolding g w_def [symmetric] by (auto simp: parse_int_element_def Let_def)
  next
    case 2
    then have "bs \<noteq> []" by auto
    then show ?thesis using 2 f0 f1 lt [of 0] lt [of "length bs"] unfolding g w_def [symmetric]
      by (auto simp: parse_int_element_def Let_def)
  qed
qed

lemma s5_package_steps:
  assumes "f w0 = 0x12" "\<not> len \<le> w0" "w1 = w0 + 1" "w2 = w1 + pkglen_bytes (f w1)" "\<not> len \<le> w2" "\<not> f w2 < 2"
    and "parse_elements f len (min 4 (unat (f w2))) (w2 + 1) = a # b # vs"
  shows "s5_package f len w0 = Some (a, b)"
  using assms by (simp add: s5_package_def Let_def val_at_def)

lemma s5_package_at:
  assumes v: "table_view f len tbl" and tbl: "tbl = pre @ 0x12 # pk @ [num] @ ea @ eb @ post"
    and pk: "pkglen_ok pk" and num: "2 \<le> unat num" and ea: "aml_value ea = Some a" and eb: "aml_value eb = Some b"
  shows "s5_package f len (of_nat (length pre)) = Some (a, b)"
proof -
  let ?k = "length pre"
  obtain l pk' where pk': "pk = l # pk'" using pk by (cases pk) (auto simp: pkglen_ok_def)
  have f: "f (of_nat ?k) = 0x12" "f (of_nat (?k + 1)) = l"
    using v tbl pk' view_at [of f len tbl pre "0x12"] view_at [of f len tbl "pre @ [0x12]" l] by auto
  have pl: "(of_nat (?k + 1) :: u32) + pkglen_bytes l = of_nat (?k + 1 + length pk)"
    using pk pk' by (simp add: pkglen_ok_def)
  have fn: "f (of_nat (?k + 1 + length pk)) = num"
    using v tbl view_at [of f len tbl "pre @ 0x12 # pk" num] by simp
  have lt: "\<not> len \<le> of_nat ?k" "\<not> len \<le> of_nat (?k + 1 + length pk)"
    using view_ge(1) [OF v, of ?k] view_ge(1) [OF v, of "?k + 1 + length pk"] tbl by simp_all
  let ?o = "?k + 1 + length pk + 1"
  have "parse_int_element f len (of_nat ?o) = Some (a, of_nat (?o + length ea))"
    using parse_int_at [OF v _ ea, of "pre @ 0x12 # pk @ [num]" "eb @ post"] tbl by simp
  moreover have "parse_int_element f len (of_nat (?o + length ea)) = Some (b, of_nat (?o + length ea + length eb))"
    using parse_int_at [OF v _ eb, of "pre @ 0x12 # pk @ [num] @ ea" post] tbl by simp
  moreover obtain n where n: "min 4 (unat num) = Suc (Suc n)" using num by (intro that [of "min 4 (unat num) - 2"]) simp
  ultimately obtain vs where "parse_elements f len (min 4 (unat num)) (of_nat ?o) = a # b # vs"
    by (simp add: n del: of_nat_add of_nat_Suc)
  then have e: "parse_elements f len (min 4 (unat num)) (of_nat (?k + 1 + length pk) + 1) = a # b # vs"
    by (simp only: of_nat_plus)
  have "\<not> num < 2" using num by (simp add: word_less_nat_alt)
  with f fn pl lt e show ?thesis
    by (intro s5_package_steps [of f "of_nat ?k" len "of_nat (?k + 1)" "of_nat (?k + 1 + length pk)" a b vs])
      (simp_all only: of_nat_plus simp_thms)
qed

text \<open>Offsets before the package are passed over as long as the name does not occur there.\<close>

lemma find_s5_at:
  assumes v: "table_view f len tbl" and tbl: "tbl = pre @ s5_bytes pk num ea eb @ post"
    and clear: "\<forall>i < length pre. \<not> s5_name f (of_nat i)"
    and ok: "pkglen_ok pk" "2 \<le> unat num" "aml_value ea = Some a" "aml_value eb = Some b"
  shows "k \<le> length pre \<Longrightarrow> find_s5_from f len (of_nat (length pre - k)) = Some (a, b)"
proof (induction k)
  case 0
  let ?k = "length pre"
  have nm: "s5_name f (of_nat ?k)"
    using v tbl view_at [of f len tbl pre "0x5F"] view_at [of f len tbl "pre @ [0x5F]" "0x53"]
      view_at [of f len tbl "pre @ [0x5F, 0x53]" "0x35"] view_at [of f len tbl "pre @ [0x5F, 0x53, 0x35]" "0x5F"]
    by (simp add: s5_name_def s5_bytes_def add.commute)
  have "s5_package f len (of_nat (length (pre @ [0x5F, 0x53, 0x35, 0x5F]))) = Some (a, b)"
    using tbl by (intro s5_package_at [OF v _ ok]) (simp add: s5_bytes_def)
  then have "s5_package f len (of_nat ?k + 4) = Some (a, b)" by (simp add: add.commute)
  moreover have "(of_nat ?k :: u32) + 4 < len"
    using view_ge(2) [OF v, of "?k + 4"] tbl by (simp add: s5_bytes_def add.commute)
  ultimately show ?case using nm by (subst find_s5_from.simps) simp
next
  case (Suc k)
  define i where "i = length pre - Suc k"
  have i: "i + 1 = length pre - k" "i < length pre" using Suc.prems by (simp_all add: i_def)
  have "(of_nat i :: u32) + 4 < len"
    using view_ge(2) [OF v, of "i + 4"] tbl i(2) by (simp add: s5_bytes_def add.commute)
  moreover have "find_s5_from f len (of_nat i + 1) = Some (a, b)"
    using Suc.IH Suc.prems by (simp only: of_nat_plus i(1) Suc_leD)
  ultimately show ?case using clear i(2) unfolding i_def [symmetric] by (subst find_s5_from.simps) simp
qed

lemma ucast_of_nat_32: "k < 2 ^ 32 \<Longrightarrow> (ucast (of_nat k :: u32) :: u64) = of_nat k"
  by (intro word_unat_eq_iff [THEN iffD2]) (simp add: unat_ucast_mod unat_of_nat)

lemma table_view_mem:
  assumes "bytes_at m t tbl" "length tbl = unat len"
  shows "table_view (\<lambda>i. m (t + ucast i)) len tbl"
proof -
  have "m (t + ucast (of_nat k :: u32)) = tbl ! k" if "k < length tbl" for k
  proof -
    have "k < 2 ^ 32" using that assms(2) unat_bound [of len] by simp
    from ucast_of_nat_32 [OF this] show ?thesis using bytes_at_nth [OF assms(1) that] by simp
  qed
  then show ?thesis using assms(2) by (simp add: table_view_def)
qed

section \<open>Properties\<close>

text \<open>
  C30: \<^verbatim>\<open>find_s5\<close> reads back what firmware encodes: in a table whose first \<^verbatim>\<open>_S5_\<close> name is followed by a
  package with a length of any size and two integers in any of the AML encodings, it
  returns the low bytes of the two integers; \<^verbatim>\<open>try_table_s5\<close> then records them, except that it
  replaces the pair of zeros by fives.
\<close>

theorem find_s5_reads_package:
  assumes "bytes_at m t (pre @ s5_bytes pk num ea eb @ post)" "length (pre @ s5_bytes pk num ea eb @ post) = unat (sdt_length m t)"
    and "\<forall>i < length pre. \<not> bytes_at m (t + of_nat i) [0x5F, 0x53, 0x35, 0x5F]"
    and "pkglen_ok pk" "2 \<le> unat num" "aml_value ea = Some a" "aml_value eb = Some b"
    and "\<not> have_s5 s"
  shows "find_s5 m t (sdt_length m t) = Some (a, b) \<and>
    (let s' = try_table_s5 m t s in have_s5 s' \<and>
       (slp_typa s', slp_typb s') = (if a = 0 \<and> b = 0 then (5, 5) else (a, b)))"
proof -
  let ?f = "\<lambda>i. m (t + ucast i)"
  note v = table_view_mem [OF assms(1,2)]
  have "\<not> s5_name ?f (of_nat i)" if "i < length pre" for i
  proof
    assume "s5_name ?f (of_nat i)"
    have "unat (sdt_length m t) < 2 ^ 32" using unat_bound [of "sdt_length m t"] by simp
    moreover have "i + 4 \<le> unat (sdt_length m t)" using that assms(2) by (simp add: s5_bytes_def)
    ultimately have c: "(ucast (of_nat (i + j) :: u32) :: u64) = of_nat (i + j)" if "j < 4" for j
      using that by (intro ucast_of_nat_32) simp
    have "(of_nat i :: u32) + 1 = of_nat (i + 1)" "(of_nat i :: u32) + 2 = of_nat (i + 2)" "(of_nat i :: u32) + 3 = of_nat (i + 3)"
      by simp_all
    then have "bytes_at m (t + of_nat i) [0x5F, 0x53, 0x35, 0x5F]"
      using \<open>s5_name ?f (of_nat i)\<close> c [of 0] c [of 1] c [of 2] c [of 3]
      by (simp add: s5_name_def add.assoc del: of_nat_add) (simp add: ac_simps)
    then show False using assms(3) that by blast
  qed
  then have "find_s5_from ?f (sdt_length m t) (of_nat (length pre - length pre)) = Some (a, b)"
    by (intro find_s5_at [OF v refl _ assms(4-7)]) simp_all
  then have "find_s5 m t (sdt_length m t) = Some (a, b)" by (simp add: find_s5_def)
  then show ?thesis using assms(8) by (auto simp: try_table_s5_def Let_def)
qed

definition demo_dsdt :: "u8 list" where
  "demo_dsdt = [0x44, 0x53, 0x44, 0x54, 18, 0, 0, 0] @ s5_bytes [6] 2 [0x0A, 7] [0x01] @ []"

definition demo_dsdt_mem :: mem where
  "demo_dsdt_mem a = (if unat (a - 0x3000) < 18 then demo_dsdt ! unat (a - 0x3000) else 0)"

theorem find_s5_reads_package_witness:
  "slp_typa (try_table_s5 demo_dsdt_mem 0x3000 acpi_initial) = 7 \<and> slp_typb (try_table_s5 demo_dsdt_mem 0x3000 acpi_initial) = 1"
proof -
  have len: "sdt_length demo_dsdt_mem 0x3000 = 18"
    by (simp add: sdt_length_def demo_dsdt_mem_def demo_dsdt_def s5_bytes_def mem_eval)
  have b: "bytes_at demo_dsdt_mem 0x3000 demo_dsdt" by (simp add: demo_dsdt_mem_def demo_dsdt_def s5_bytes_def)
  have "\<not> bytes_at demo_dsdt_mem (0x3000 + of_nat i) [0x5F, 0x53, 0x35, 0x5F]" if "i < 8" for i
  proof -
    have "i \<in> {0, 1, 2, 3, 4, 5, 6, 7}" using that by auto
    then show ?thesis by (auto simp: demo_dsdt_mem_def demo_dsdt_def s5_bytes_def)
  qed
  then have c: "\<forall>i < length [0x44, 0x53, 0x44, 0x54, 18, 0, 0, 0 :: u8].
      \<not> bytes_at demo_dsdt_mem (0x3000 + of_nat i) [0x5F, 0x53, 0x35, 0x5F]" by simp
  have l: "length ([0x44, 0x53, 0x44, 0x54, 18, 0, 0, 0] @ s5_bytes [6] 2 [0x0A, 7] [0x01] @ []) =
      unat (sdt_length demo_dsdt_mem 0x3000)" by (simp add: len s5_bytes_def)
  show ?thesis
    using find_s5_reads_package [OF b [unfolded demo_dsdt_def] l c, of 7 1 acpi_initial]
    by (simp add: pkglen_ok_def pkglen_bytes_def acpi_initial_def Let_def)
qed

end
