(* ===== verification/Effect.thy ===== *)
theory Effect
  imports Usb Smbios Acpi
begin

text \<open>
  System calls, \<^verbatim>\<open>src/kernel/effect.c\<close> and \<^verbatim>\<open>effect.h\<close>: a call is an effect that a chain of registered
  handlers may handle or pass on; the core handler writes to the terminal, reads the keyboard
  queue, and answers control requests. \<^verbatim>\<open>exception_handler\<close> of \<^verbatim>\<open>src/arch/x86_64/idt.c\<close>, which turns
  vector 0x80 into an effect, is here too.

  A function pointer is the name of the function. Interrupts that arrive while a call sleeps are
  the list \<open>es\<close>, delivered by \<open>deliver\<close>.
\<close>

section \<open>State\<close>

datatype effect_handler = Trace_handler | Sandbox_handler | Core_handler

record handler_entry =
  fn :: "effect_handler option"
  user :: u64
  hname :: "string option"

abbreviation MAX_HANDLERS :: nat where "MAX_HANDLERS \<equiv> 16"

record kernel = usb +
  handlers :: "handler_entry list"
  handler_count :: nat
  ksmbios :: smbios
  kacpi :: acpi
  cpuid :: "u32 \<Rightarrow> u32 \<times> u32 \<times> u32 \<times> u32"
  g_ram_mb :: u64

record effect =
  op :: u32
  eflags :: u32
  arg0 :: u64
  arg1 :: u64
  arg2 :: u64
  arg3 :: u64
  result :: u64
  err :: int

abbreviation (input) EFF_WRITE :: u32 where "EFF_WRITE \<equiv> 1"
abbreviation (input) EFF_READ :: u32 where "EFF_READ \<equiv> 2"
abbreviation (input) EFF_EXIT :: u32 where "EFF_EXIT \<equiv> 3"
abbreviation (input) EFF_IOCTL :: u32 where "EFF_IOCTL \<equiv> 4"
abbreviation (input) IOCTL_CLEAR :: u64 where "IOCTL_CLEAR \<equiv> 1"
abbreviation (input) IOCTL_GET_TICKS :: u64 where "IOCTL_GET_TICKS \<equiv> 2"
abbreviation (input) IOCTL_SHUTDOWN :: u64 where "IOCTL_SHUTDOWN \<equiv> 3"
abbreviation (input) IOCTL_REBOOT :: u64 where "IOCTL_REBOOT \<equiv> 4"
abbreviation (input) IOCTL_GET_INFO :: u64 where "IOCTL_GET_INFO \<equiv> 10"
abbreviation (input) EFFECT_PASS :: int where "EFFECT_PASS \<equiv> 0"
abbreviation (input) EFFECT_HANDLED :: int where "EFFECT_HANDLED \<equiv> 1"
abbreviation (input) EFFECT_ERROR :: int where "EFFECT_ERROR \<equiv> -1"

definition effect_init :: "'z kernel_scheme \<Rightarrow> 'z kernel_scheme" where
  "effect_init s = s\<lparr>handler_count := 0,
     handlers := map (\<lambda>h. \<lparr>fn = None, user = 0, hname = None\<rparr>) (handlers s)\<rparr>"

definition effect_register :: "effect_handler \<Rightarrow> u64 \<Rightarrow> string \<Rightarrow> 'z kernel_scheme \<Rightarrow> int \<times> 'z kernel_scheme" where
  "effect_register f u n s =
     (if handler_count s \<ge> MAX_HANDLERS then (-1, s)
      else (0, s\<lparr>handlers := (handlers s)[handler_count s := \<lparr>fn = Some f, user = u, hname = Some n\<rparr>],
                 handler_count := handler_count s + 1\<rparr>))"

definition effect_init_default_handlers :: "'z kernel_scheme \<Rightarrow> 'z kernel_scheme" where
  "effect_init_default_handlers s =
     (let s = snd (effect_register Trace_handler 0 ''trace'' s);
          s = snd (effect_register Sandbox_handler 0 ''sandbox'' s)
      in snd (effect_register Core_handler 0 ''core'' s))"

section \<open>The core handler\<close>

text \<open>\<^verbatim>\<open>while (got < len && input_available()) buf[got++] = (char)input_pop();\<close>\<close>

function read_loop :: "u64 \<Rightarrow> u64 \<Rightarrow> u64 \<Rightarrow> input_state \<Rightarrow> mem \<Rightarrow> u64 \<times> input_state \<times> mem" where
  "read_loop buf len got q m =
     (if got < len \<and> input_available q then
        (case input_pop q of (c, q) \<Rightarrow> read_loop buf len (got + 1) q (m(buf + got := of_int c)))
      else (got, q, m))"
  by pat_completeness auto
termination
proof (relation "measure (\<lambda>(buf, len, got, q, m). unat len - unat got)", goal_cases)
  case (2 buf len got q m)
  then have "got < len" by blast
  then show ?case using unat_Suc_less [of got len] by (simp add: word_less_nat_alt)
qed simp

declare read_loop.simps [simp del]

text \<open>
  The strings of \<^verbatim>\<open>sys_info\<close>. A source is a pointer into memory or a literal;
  \<^verbatim>\<open>while (src[i] && pos < lim) dst[pos++] = src[i++];\<close> returns the position reached.
\<close>

datatype text_source = In_Memory u64 | Literal "u8 list"

definition source_at :: "mem \<Rightarrow> text_source \<Rightarrow> nat \<Rightarrow> u8" where
  "source_at m src i =
     (case src of In_Memory p \<Rightarrow> m (p + of_nat i) | Literal bs \<Rightarrow> if i < length bs then bs ! i else 0)"

function copy_text :: "text_source \<Rightarrow> nat \<Rightarrow> u64 \<Rightarrow> nat \<Rightarrow> nat \<Rightarrow> mem \<Rightarrow> nat \<times> mem" where
  "copy_text src lim dst pos i m =
     (if source_at m src i \<noteq> 0 \<and> pos < lim
      then copy_text src lim dst (pos + 1) (i + 1) (m(dst + of_nat pos := source_at m src i))
      else (pos, m))"
  by pat_completeness auto
termination
  by (relation "measure (\<lambda>(src, lim, dst, pos, i, m). lim - pos)") auto

declare copy_text.simps [simp del]

definition kernel_version :: "u8 list" where "kernel_version = bytes_of ''0.3.5''"

definition info_source :: "u64 \<Rightarrow> text_source" where
  "info_source p = (if p = 0 then Literal (bytes_of ''Unknown'') else In_Memory p)"

definition fill_host :: "u64 \<Rightarrow> u64 \<Rightarrow> u64 \<Rightarrow> mem \<Rightarrow> mem" where
  "fill_host info vendor board m =
     (let (pos, m) = copy_text (info_source vendor) 30 info 0 0 m;
          m = m(info + of_nat pos := 0x20);
          (pos, m) = copy_text (info_source board) 63 info (pos + 1) 0 m
      in m(info + of_nat pos := 0))"

definition fill_cpu :: "(u32 \<Rightarrow> u32 \<times> u32 \<times> u32 \<times> u32) \<Rightarrow> u64 \<Rightarrow> mem \<Rightarrow> mem option" where
  "fill_cpu cpu info m =
     (case cpu_get_brand cpu (info + 64) 64 m of
        None \<Rightarrow> None
      | Some m \<Rightarrow>
          Some (if m (info + 64) = 0 then
                  (let (j, m) = copy_text (Literal (bytes_of ''Unknown CPU'')) 64 (info + 64) 0 0 m
                   in m(info + 64 + of_nat j := 0))
                else m))"

definition fill_info :: "u64 \<Rightarrow> u64 \<Rightarrow> u64 \<Rightarrow> 'z kernel_scheme \<Rightarrow> mem option" where
  "fill_info info vendor board s =
     (case fill_cpu (cpuid s) info (fill_host info vendor board (kmem s)) of
        None \<Rightarrow> None
      | Some m \<Rightarrow>
          let (i, m) = copy_text (Literal (bytes_of ''UNKNOWN'')) 64 (info + 128) 0 0 m;
              m = m(info + 128 + of_nat i := 0);
              (i, m) = copy_text (Literal kernel_version) 31 (info + 192) 0 0 m;
              m = m(info + 192 + of_nat i := 0);
              m = wr32 m (info + 224) (fb_w (tfb (kterm s)));
              m = wr32 m (info + 228) (fb_h (tfb (kterm s)));
              m = wr64 m (info + 240) (pit_ticks s)
          in Some (wr64 m (info + 248) (g_ram_mb s)))"

type_synonym 'z call_outcome = "(int \<times> effect \<times> 'z kernel_scheme \<times> regs list, 'z kernel_scheme) outcome"

definition ioctl :: "regs list \<Rightarrow> effect \<Rightarrow> 'z kernel_scheme \<Rightarrow> 'z call_outcome" where
  "ioctl es e s =
     (if arg0 e = IOCTL_CLEAR then
        Done (EFFECT_HANDLED, e\<lparr>result := 0\<rparr>, s\<lparr>kterm := clear_terminal (kterm s)\<rparr>, es)
      else if arg0 e = IOCTL_GET_TICKS then Done (EFFECT_HANDLED, e\<lparr>result := pit_ticks s\<rparr>, s, es)
      else if arg0 e = IOCTL_SHUTDOWN then Halted (acpi_shutdown s)
      else if arg0 e = IOCTL_REBOOT then Halted (acpi_reboot s)
      else if arg0 e = IOCTL_GET_INFO then
        (if arg1 e = 0 then Done (EFFECT_HANDLED, e\<lparr>err := -14\<rparr>, s, es)
         else
           (case (smbios_get_board_vendor (kmem s) (ksmbios s), smbios_get_board_name (kmem s) (ksmbios s)) of
              (Some vendor, Some board) \<Rightarrow>
                (case fill_info (arg1 e) vendor board s of
                   None \<Rightarrow> Endless
                 | Some m \<Rightarrow> Done (EFFECT_HANDLED, e\<lparr>result := 0\<rparr>, set_kmem m s, es))
            | _ \<Rightarrow> Endless))
      else Done (EFFECT_HANDLED, e\<lparr>err := -22\<rparr>, s, es))"

definition effect_core_handler ::
  "(regs \<Rightarrow> 'z kernel_scheme \<Rightarrow> 'z kernel_scheme) \<Rightarrow> regs list \<Rightarrow> effect \<Rightarrow> 'z kernel_scheme \<Rightarrow> 'z call_outcome" where
  "effect_core_handler deliver es e s =
     (if op e = EFF_WRITE then
        Done (EFFECT_HANDLED, e\<lparr>result := arg1 e\<rparr>, s\<lparr>kterm := terminal_write (arg0 e) (arg1 e) (kterm s)\<rparr>, es)
      else if op e = EFF_READ then
        (case hlt_until (\<lambda>s. input_available (kinput s)) deliver es s of
           None \<Rightarrow> Asleep
         | Some (s, es) \<Rightarrow>
             (case read_loop (arg0 e) (arg1 e) 0 (kinput s) (kmem s) of (got, q, m) \<Rightarrow>
                Done (EFFECT_HANDLED, e\<lparr>result := got\<rparr>, set_kmem m (s\<lparr>kinput := q\<rparr>), es)))
      else if op e = EFF_IOCTL then ioctl es e s
      else if op e = EFF_EXIT then Halted (io_do Hlt s)
      else Done (EFFECT_PASS, e, s, es))"

fun call_handler ::
  "(regs \<Rightarrow> 'z kernel_scheme \<Rightarrow> 'z kernel_scheme) \<Rightarrow> regs list \<Rightarrow> effect_handler \<Rightarrow> effect \<Rightarrow> 'z kernel_scheme \<Rightarrow> 'z call_outcome" where
  "call_handler deliver es Trace_handler e s = Done (EFFECT_PASS, e, s, es)"
| "call_handler deliver es Sandbox_handler e s = Done (EFFECT_PASS, e, s, es)"
| "call_handler deliver es Core_handler e s = effect_core_handler deliver es e s"

text \<open>The loop over the handlers; the list is what is left of the first \<^verbatim>\<open>handler_count\<close> entries.\<close>

fun perform_from ::
  "(regs \<Rightarrow> 'z kernel_scheme \<Rightarrow> 'z kernel_scheme) \<Rightarrow> regs list \<Rightarrow> handler_entry list \<Rightarrow> effect \<Rightarrow> 'z kernel_scheme \<Rightarrow> 'z call_outcome" where
  "perform_from deliver es [] e s = Done (EFFECT_PASS, e\<lparr>err := -38\<rparr>, s, es)"
| "perform_from deliver es (h # hs) e s =
     (case fn h of
        None \<Rightarrow> Null_Call
      | Some f \<Rightarrow>
          (case call_handler deliver es f e s of
             Done (r, e, s, es) \<Rightarrow>
               if r = EFFECT_HANDLED \<or> r = EFFECT_ERROR then Done (r, e, s, es) else perform_from deliver es hs e s
           | other \<Rightarrow> other))"

definition effect_perform ::
  "(regs \<Rightarrow> 'z kernel_scheme \<Rightarrow> 'z kernel_scheme) \<Rightarrow> regs list \<Rightarrow> effect \<Rightarrow> 'z kernel_scheme \<Rightarrow> 'z call_outcome" where
  "effect_perform deliver es e s =
     perform_from deliver es (take (handler_count s) (handlers s)) (e\<lparr>result := 0, err := 0\<rparr>) s"

section \<open>The exception handler\<close>

definition effect_of_regs :: "regs \<Rightarrow> effect" where
  "effect_of_regs r = \<lparr>op = ucast (rax r), eflags = 0, arg0 = rdi r, arg1 = rsi r, arg2 = rdx r, arg3 = rcx r,
     result = 0, err = 0\<rparr>"

definition print_reg :: "string \<Rightarrow> u64 \<Rightarrow> 'z console_scheme \<Rightarrow> 'z console_scheme" where
  "print_reg name v = kprintf (name @ '': %lx'' @ [CHR 0x0A]) [ArgLong v]"

definition print_exception :: "regs \<Rightarrow> 'z console_scheme \<Rightarrow> 'z console_scheme" where
  "print_exception r s =
     (let s = kprintf ([CHR 0x0A] @ ''*** EXCEPTION ***'' @ [CHR 0x0A]) [] s;
          s = kprintf (''Vector: %d'' @ [CHR 0x0A]) [ArgInt (ucast (vector r))] s;
          s = print_reg ''Error '' (regs.error r) s;
          s = print_reg ''RIP   '' (rip r) s;
          s = print_reg ''CS    '' (cs_reg r) s;
          s = print_reg ''RFLAGS'' (rflags r) s;
          s = print_reg ''RSP   '' (rsp r) s;
          s = print_reg ''SS    '' (ss_reg r) s;
          s = print_reg ''RAX   '' (rax r) s;
          s = print_reg ''RBX   '' (rbx r) s;
          s = print_reg ''RCX   '' (rcx r) s;
          s = print_reg ''RDX   '' (rdx r) s;
          s = print_reg ''RSI   '' (rsi r) s
      in print_reg ''RDI   '' (rdi r) s)"

definition exception_handler ::
  "(regs \<Rightarrow> 'z kernel_scheme \<Rightarrow> 'z kernel_scheme) \<Rightarrow> regs list \<Rightarrow> regs \<Rightarrow> 'z kernel_scheme \<Rightarrow>
   (regs \<times> 'z kernel_scheme \<times> regs list, 'z kernel_scheme) outcome" where
  "exception_handler deliver es r s =
     (if vector r = 0x80 then
        (case effect_perform deliver es (effect_of_regs r) s of
           Done (_, e, s, es) \<Rightarrow> Done (r\<lparr>rax := result e\<rparr>, s, es)
         | Halted s \<Rightarrow> Halted s
         | Asleep \<Rightarrow> Asleep
         | Endless \<Rightarrow> Endless
         | Divide_Error \<Rightarrow> Divide_Error
         | Null_Call \<Rightarrow> Null_Call)
      else
        let s = print_exception r s;
            s = (if vector r = 14 then (let (cr2, s) = io_ask Read_Cr2 s in print_reg ''CR2   '' cr2 s) else s);
            s = kprintf (''Halted.'' @ [CHR 0x0A]) [] s
        in Halted (io_do Hlt (io_do (Set_Interrupts False) s)))"

section \<open>Reading the keyboard\<close>

lemma pending_length: "length (pending q) < 256"
  by (simp add: pending_def)

lemma unat_pred: "x \<noteq> 0 \<Longrightarrow> unat (x - 1) = unat x - 1" for x :: u64
  by (simp add: unat_minus_one)

lemma byte_of_int: "of_int (int (unat c)) = c" for c :: u8
  by simp

lemma read_loop_result:
  assumes "input_ok q" "got \<le> len" "read_loop buf len got q m = (got', q', m')"
    and "k = min (unat len - unat got) (length (pending q))"
  shows "input_ok q' \<and> unat got' = unat got + k \<and> pending q' = drop k (pending q) \<and>
    (\<forall>a. m' a = (if unat (a - (buf + got)) < k then pending q ! unat (a - (buf + got)) else m a))"
  using assms
proof (induction buf len got q m arbitrary: k rule: read_loop.induct)
  case (1 buf len got q m)
  show ?case
  proof (cases "got < len \<and> input_available q")
    case False
    then have "k = 0"
      using "1.prems" by (auto simp: available_pending word_less_nat_alt word_le_nat_alt)
    moreover have "(got', q', m') = (got, q, m)" using False "1.prems"(3) by (subst (asm) read_loop.simps) auto
    ultimately show ?thesis using "1.prems"(1) by simp
  next
    case True
    then obtain c q1 where pop: "input_pop q = (int (unat c), q1)" and pq: "pending q = c # pending q1"
        and ok1: "input_ok q1"
      using iq.avail_pop [OF "1.prems"(1)] by blast
    have g: "unat (got + 1) = Suc (unat got)" using True unat_Suc_less by blast
    obtain j where j: "k = Suc j" and j': "j = min (unat len - unat (got + 1)) (length (pending q1))"
      using "1.prems"(4) True pq g by (cases k) (auto simp: word_less_nat_alt)
    have run: "read_loop buf len (got + 1) q1 (m(buf + got := c)) = (got', q', m')"
      using "1.prems"(3) True pop by (subst (asm) read_loop.simps) simp
    have "got + 1 \<le> len" using True word_succ_le by blast
    note IH' = "1.IH" [OF True pop [symmetric] ok1 this _ j', unfolded byte_of_int]
    have IH: "input_ok q'" "unat got' = unat (got + 1) + j" "pending q' = drop j (pending q1)"
      "m' a = (if unat (a - (buf + (got + 1))) < j then pending q1 ! unat (a - (buf + (got + 1)))
         else (m(buf + got := c)) a)" for a
      using IH' [OF run] by blast+
    have "m' a = (if unat (a - (buf + got)) < k then pending q ! unat (a - (buf + got)) else m a)" for a
    proof (cases "a = buf + got")
      case True
      have "a - (buf + (got + 1)) = - 1" using True by (simp add: algebra_simps)
      moreover have "unat (- 1 :: u64) = 2 ^ 64 - 1" by (simp add: unsigned_minus_1_eq_mask mask_eq_exp_minus_1)
      ultimately have "unat (a - (buf + (got + 1))) = 2 ^ 64 - 1" by presburger
      then show ?thesis using True j pq pending_length [of q1] j' by (simp add: IH(4))
    next
      case False
      then have ne: "a - (buf + got) \<noteq> 0" by simp
      have "a - (buf + (got + 1)) = (a - (buf + got)) - 1" by (simp add: algebra_simps)
      then have u: "unat (a - (buf + (got + 1))) = unat (a - (buf + got)) - 1" using unat_pred [OF ne] by presburger
      have "0 < unat (a - (buf + got))" using ne by (simp add: unat_gt_0)
      then show ?thesis using False by (auto simp: IH(4) u j pq nth_Cons')
    qed
    then show ?thesis using IH(1-3) j pq g by simp
  qed
qed

section \<open>System information\<close>

definition changes_within :: "u64 set \<Rightarrow> mem \<Rightarrow> mem \<Rightarrow> bool" where
  "changes_within A m m' \<longleftrightarrow> (\<forall>a. a \<notin> A \<longrightarrow> m' a = m a)"

lemma changes_within_refl [simp]: "changes_within A m m"
  by (simp add: changes_within_def)

lemma changes_within_trans: "changes_within A m m1 \<Longrightarrow> changes_within B m1 m2 \<Longrightarrow> A \<subseteq> C \<Longrightarrow> B \<subseteq> C \<Longrightarrow> changes_within C m m2"
  unfolding changes_within_def by (metis subsetD)

lemma changes_within_step: "changes_within A m m1 \<Longrightarrow> changes_within A m1 m2 \<Longrightarrow> changes_within A m m2"
  using changes_within_trans by blast

lemma changes_within_upd: "a \<in> A \<Longrightarrow> changes_within A m m1 \<Longrightarrow> changes_within A m (m1(a := v))"
  by (auto simp: changes_within_def)

lemma changes_within_wr:
  "region a 4 \<subseteq> A \<Longrightarrow> changes_within A m m1 \<Longrightarrow> changes_within A m (wr32 m1 a v)"
  "region a 8 \<subseteq> A \<Longrightarrow> changes_within A m m1 \<Longrightarrow> changes_within A m (wr64 m1 a w)"
  by (auto simp: changes_within_def subset_iff intro!: trans [OF wr32_outside] trans [OF wr64_outside])

lemma copy_text_result:
  assumes "copy_text src lim dst pos i m = (pos', m')" "pos \<le> lim" "lim \<le> n" "n \<le> 2 ^ 64"
  shows "pos \<le> pos' \<and> pos' \<le> lim \<and> changes_within (region dst n) m m'"
  using assms
proof (induction src lim dst pos i m rule: copy_text.induct)
  case (1 src lim dst pos i m)
  show ?case
  proof (cases "source_at m src i \<noteq> 0 \<and> pos < lim")
    case True
    then have "copy_text src lim dst (pos + 1) (i + 1) (m(dst + of_nat pos := source_at m src i)) = (pos', m')"
      using "1.prems"(1) by (subst (asm) copy_text.simps) simp
    note IH = "1.IH" [OF True this _ "1.prems"(3,4)]
    have d: "dst + of_nat pos \<in> region dst n" using True "1.prems" by (intro in_region_add) auto
    show ?thesis using IH True d by (auto simp: changes_within_def)
  next
    case False
    then have "(pos', m') = (pos, m)" using "1.prems"(1) by (subst (asm) copy_text.simps) auto
    then show ?thesis using "1.prems" by simp
  qed
qed

lemma copy_literal:
  assumes "0 \<notin> set bs" "length bs \<le> lim" "lim < 2 ^ 64" "i \<le> length bs" "bytes_at m dst (take i bs)"
  shows "\<exists>m'. copy_text (Literal bs) lim dst i i m = (length bs, m') \<and> bytes_at m' dst bs"
  using assms(4,5)
proof (induction "length bs - i" arbitrary: i m)
  case 0
  then show ?case using assms by (subst copy_text.simps) (simp add: source_at_def)
next
  case (Suc k)
  then have i: "i < length bs" by simp
  then have nz: "bs ! i \<noteq> 0" using assms(1) by (metis nth_mem)
  let ?m = "m(dst + of_nat i := bs ! i)"
  have "(of_nat j :: u64) \<noteq> of_nat i" if "j < i" for j
    using add_of_nat_inject [of j i "0 :: u64"] that i assms(2,3) by simp
  then have "bytes_at ?m dst (take (i + 1) bs)"
    using Suc.prems i by (auto simp: bytes_at_iff nth_append take_Suc_conv_app_nth less_Suc_eq)
  moreover have "k = length bs - (i + 1)" using Suc.hyps(2) by simp
  ultimately show ?case using Suc.hyps(1) [of "i + 1" ?m] i nz assms(2)
    by (subst copy_text.simps) (simp add: source_at_def)
qed

lemma skip_spaces_result:
  assumes "m (out + 48) = 0" "i \<le> 48"
  shows "\<exists>j. skip_spaces m out i = Some j \<and> j \<le> 48"
  using assms(2)
proof (induction "48 - unat i" arbitrary: i rule: less_induct)
  case less
  show ?case
  proof (cases "m (out + i) = 0x20")
    case True
    then have "i < 48" using assms(1) less.prems by (cases "i = 48") (auto simp: order_less_le)
    then have "48 - unat (i + 1) < 48 - unat i" "i + 1 \<le> 48"
      using unat_Suc_less [OF \<open>i < 48\<close>] word_succ_le [OF \<open>i < 48\<close>] by (simp_all add: word_less_nat_alt)
    from less.hyps [OF this] show ?thesis using True by (simp add: skip_spaces.simps [of m out i])
  qed (use less.prems in \<open>simp add: skip_spaces.simps [of m out i]\<close>)
qed

lemma shift_down_result:
  assumes "m (out + 48) = 0" "j < i" "i \<le> 48"
  shows "\<exists>m'. shift_down out i j m = Some m' \<and> changes_within (region out 48) m m' \<and> (\<exists>k < 48. m' (out + of_nat k) = 0)"
  using assms
proof (induction "48 - unat i" arbitrary: i j m rule: less_induct)
  case less
  have j: "unat j < 48" using less.prems by (simp add: word_less_nat_alt word_le_nat_alt)
  then have oj: "out + j \<in> region out 48" by (simp add: in_region_iff)
  show ?case
  proof (cases "m (out + i) = 0")
    case True
    have "(m(out + j := 0)) (out + of_nat (unat j)) = 0" by simp
    then show ?thesis using True j oj
      by (subst shift_down.simps) (auto intro!: changes_within_upd exI [of _ "unat j"])
  next
    case False
    let ?m = "m(out + j := m (out + i))"
    have i: "i < 48" using False less.prems by (cases "i = 48") (auto simp: order_less_le)
    have "j < 48" using j by (simp add: word_less_nat_alt)
    then have "?m (out + 48) = 0" using less.prems(1) by auto
    moreover have "j + 1 < i + 1"
      using less.prems unat_Suc_less [OF i] unat_Suc_less [OF less.prems(2)] by (simp add: word_less_nat_alt)
    moreover have "48 - unat (i + 1) < 48 - unat i" using unat_Suc_less [OF i] i by (simp add: word_less_nat_alt)
    ultimately obtain m' where m': "shift_down out (i + 1) (j + 1) ?m = Some m'"
        "changes_within (region out 48) ?m m'" "\<exists>k < 48. m' (out + of_nat k) = 0"
      using less.hyps [of "i + 1" ?m "j + 1"] word_succ_le [OF i] by blast
    have "changes_within (region out 48) m m'"
      using changes_within_trans [OF changes_within_upd [OF oj changes_within_refl] m'(2)] by simp
    then show ?thesis using m' False by (subst shift_down.simps) simp
  qed
qed

lemma cpuid_store_within:
  assumes "i + 16 \<le> 64"
  shows "changes_within (region out 64) m (cpuid_store cpu leaf (out + of_nat i) m)"
proof -
  have "region (out + of_nat i + of_nat k) 4 \<subseteq> region out 64" if "k \<le> 12" for k
    using region_offset [of "i + k" 4 64 out] that assms by (simp add: add.assoc)
  from this [of 0] this [of 4] this [of 8] this [of 12] show ?thesis
    by (auto simp: cpuid_store_def split: prod.split intro!: changes_within_wr)
qed

lemma cpu_get_brand_result:
  "\<exists>m'. cpu_get_brand cpu out 64 m = Some m' \<and> changes_within (region out 64) m m' \<and> (\<exists>k < 64. m' (out + of_nat k) = 0)"
proof (cases "fst (cpu 0x80000000) < 0x80000004")
  case True
  have "out \<in> region out 64" by (simp add: in_region_iff)
  then show ?thesis using True
    by (auto simp: cpu_get_brand_def intro!: changes_within_upd exI [of _ 0])
next
  case False
  define m1 where "m1 = (cpuid_store cpu 0x80000004 (out + 32) (cpuid_store cpu 0x80000003 (out + 16)
    (cpuid_store cpu 0x80000002 out m)))(out + 48 := 0)"
  note st = cpuid_store_within [where out = out and cpu = cpu]
  have w: "changes_within (region out 64) m m1"
    unfolding m1_def
    using changes_within_step [OF changes_within_step [OF st [of 0 m "0x80000002"] st [of 16 _ "0x80000003"]]
        st [of 32 _ "0x80000004"]]
    by (intro changes_within_upd) (simp_all add: in_region_iff)
  have z: "m1 (out + 48) = 0" by (simp add: m1_def)
  obtain i where i: "skip_spaces m1 out 0 = Some i" "i \<le> 48" using skip_spaces_result [of m1 out 0] z by auto
  have run: "cpu_get_brand cpu out 64 m = (if i > 0 then shift_down out i 0 m1 else Some m1)"
    using False i by (simp add: cpu_get_brand_def m1_def)
  show ?thesis
  proof (cases "i > 0")
    case True
    obtain m' k where m': "shift_down out i 0 m1 = Some m'" "changes_within (region out 48) m1 m'" "k < 48" "m' (out + of_nat k) = 0"
      using shift_down_result [of m1 out 0 i] z True i(2) by blast
    then show ?thesis using run True changes_within_trans [OF w m'(2)] region_mono [of 48 64 out]
      by (intro exI [of _ m']) (auto intro!: exI [of _ k])
  next
    case False
    then show ?thesis using run w z by (auto intro!: exI [of _ 48])
  qed
qed

lemma fill_host_result:
  "changes_within (region info 64) m (fill_host info vendor board m) \<and>
   (\<exists>k < 64. fill_host info vendor board m (info + of_nat k) = 0)"
proof -
  obtain p m1 where c1: "copy_text (info_source vendor) 30 info 0 0 m = (p, m1)" by force
  define m2 where "m2 = m1(info + of_nat p := 0x20)"
  obtain q m3 where c2: "copy_text (info_source board) 63 info (p + 1) 0 m2 = (q, m3)" by force
  have p: "p \<le> 30" "changes_within (region info 64) m m1" using copy_text_result [OF c1, of 64] by auto
  have q: "q \<le> 63" "changes_within (region info 64) m2 m3" using copy_text_result [OF c2, of 64] p by auto
  have r: "info + of_nat k \<in> region info 64" if "k < 64" for k using that by (intro in_region_add) auto
  have "changes_within (region info 64) m m2" unfolding m2_def using p r by (intro changes_within_upd) auto
  then have "changes_within (region info 64) m (m3(info + of_nat q := 0))"
    using q r by (intro changes_within_upd changes_within_step [of _ m m2 m3]) auto
  moreover have "fill_host info vendor board m = m3(info + of_nat q := 0)"
    using c1 c2 by (simp add: fill_host_def m2_def)
  ultimately show ?thesis using q by (auto intro!: exI [of _ q])
qed

lemma literal_field:
  assumes "0 \<notin> set bs" "length bs \<le> lim" "length bs < n" "lim \<le> n" "n < 2 ^ 64"
    and "copy_text (Literal bs) lim dst 0 0 m = (p, m1)" "m' = m1(dst + of_nat p := 0)"
  shows "changes_within (region dst n) m m' \<and> bytes_at m' dst (bs @ [0])"
proof -
  have c: "p = length bs" "bytes_at m1 dst bs" using copy_literal [OF assms(1,2), of 0 m dst] assms by auto
  have w: "changes_within (region dst n) m m1" using copy_text_result [OF assms(6), of n] assms by auto
  have "(of_nat j :: u64) \<noteq> of_nat (length bs)" if "j < length bs" for j
    using add_of_nat_inject [of j "length bs" "0 :: u64"] that assms by simp
  then have "bytes_at m' dst (bs @ [0])" using c assms(7) by (auto simp: bytes_at_iff nth_append less_Suc_eq)
  moreover have "dst + of_nat p \<in> region dst n" using c assms by (intro in_region_add) auto
  ultimately show ?thesis using w assms(7) changes_within_upd by blast
qed

lemma fill_cpu_result:
  "\<exists>m'. fill_cpu cpu info m = Some m' \<and> changes_within (region (info + 64) 64) m m' \<and>
     (\<exists>k < 64. m' (info + 64 + of_nat k) = 0)"
proof -
  let ?out = "info + 64"
  obtain m1 k where b: "cpu_get_brand cpu ?out 64 m = Some m1" "changes_within (region ?out 64) m m1"
      "k < 64" "m1 (?out + of_nat k) = 0"
    using cpu_get_brand_result by blast
  show ?thesis
  proof (cases "m1 ?out = 0")
    case True
    let ?u = "bytes_of ''Unknown CPU''"
    obtain j m2 where c: "copy_text (Literal ?u) 64 ?out 0 0 m1 = (j, m2)" by force
    have l: "length ?u = 11" "0 \<notin> set ?u" by (simp_all add: bytes_of_def)
    have f: "changes_within (region ?out 64) m1 (m2(?out + of_nat j := 0))" "bytes_at (m2(?out + of_nat j := 0)) ?out (?u @ [0])"
      using literal_field [OF l(2) _ _ _ _ c refl, of 64] l(1) by simp_all
    have "(m2(?out + of_nat j := 0)) (?out + of_nat 11) = 0"
      using bytes_at_nth [OF f(2), of 11] l(1) by (simp add: nth_append)
    then show ?thesis using b True c changes_within_step [OF b(2) f(1)]
      by (auto simp: fill_cpu_def intro!: exI [of _ 11])
  next
    case False
    then show ?thesis using b by (auto simp: fill_cpu_def)
  qed
qed

text \<open>The fields of the structure, which do not overlap.\<close>

definition sys_info_filled :: "u64 \<Rightarrow> 'z kernel_scheme \<Rightarrow> mem \<Rightarrow> bool" where
  "sys_info_filled info s m \<longleftrightarrow>
     (\<exists>k < 64. m (info + of_nat k) = 0) \<and> (\<exists>k < 64. m (info + 64 + of_nat k) = 0) \<and>
     bytes_at m (info + 128) (bytes_of ''UNKNOWN'' @ [0]) \<and> bytes_at m (info + 192) (kernel_version @ [0]) \<and>
     rd32 m (info + 224) = fb_w (tfb (kterm s)) \<and> rd32 m (info + 228) = fb_h (tfb (kterm s)) \<and>
     rd64 m (info + 240) = pit_ticks s \<and> rd64 m (info + 248) = g_ram_mb s"

lemma field_kept:
  assumes "changes_within (region (a + of_nat j) n) m m'" "i + k \<le> j" "j + n \<le> 2 ^ 64" "x \<in> region (a + of_nat i) k"
  shows "m' x = m x"
  using region_offset_disjoint [OF assms(2,3), of a] assms(1,4) by (auto simp: changes_within_def)

lemma changes_within_span:
  assumes "changes_within (region (a + of_nat i) n) m m1" "changes_within (region (a + of_nat (i + n)) k) m1 m2"
    "n + k \<le> 2 ^ 64"
  shows "changes_within (region (a + of_nat i) (n + k)) m m2"
proof (rule changes_within_trans [OF assms(1,2)])
  show "region (a + of_nat (i + n)) k \<subseteq> region (a + of_nat i) (n + k)"
    using region_offset [of n k "n + k" "a + of_nat i"] assms(3) by (simp add: add.assoc)
qed (simp add: region_mono)

lemma numbers_result:
  assumes m'_def: "m' = wr64 (wr64 (wr32 (wr32 m (info + 224) w) (info + 228) h) (info + 240) t) (info + 248) r"
  shows "changes_within (region (info + 224) 32) m m'"
    "rd32 m' (info + 224) = w" "rd32 m' (info + 228) = h" "rd64 m' (info + 240) = t" "rd64 m' (info + 248) = r"
proof -
  have sub: "region (info + 224 + of_nat i) k \<subseteq> region (info + 224) 32" if "i + k \<le> 32" for i k
    using that by (intro region_offset) auto
  show "changes_within (region (info + 224) 32) m m'"
    unfolding m'_def using sub [of 0 4] sub [of 4 4] sub [of 16 8] sub [of 24 8]
    by (intro changes_within_wr) (simp_all add: add.commute)
  have d: "region (info + of_nat i) k \<inter> region (info + of_nat j) n = {}" if "i + k \<le> j" "j + n \<le> 256" for i j k n
    using that by (intro region_offset_disjoint) auto
  have "rd32 (wr64 M (info + 248) v) (info + 224) = rd32 M (info + 224)"
    "rd32 (wr64 M (info + 240) v) (info + 224) = rd32 M (info + 224)"
    "rd32 (wr32 M (info + 228) v') (info + 224) = rd32 M (info + 224)"
    "rd32 (wr64 M (info + 248) v) (info + 228) = rd32 M (info + 228)"
    "rd32 (wr64 M (info + 240) v) (info + 228) = rd32 M (info + 228)"
    "rd64 (wr64 M (info + 248) v) (info + 240) = rd64 M (info + 240)" for M v v'
    using d [of 224 4 248 8] d [of 224 4 240 8] d [of 224 4 228 4] d [of 228 4 248 8] d [of 228 4 240 8] d [of 240 8 248 8]
    by (auto intro!: rd32_cong rd64_cong wr64_outside wr32_outside simp: disjoint_iff)
  then show "rd32 m' (info + 224) = w" "rd32 m' (info + 228) = h" "rd64 m' (info + 240) = t" "rd64 m' (info + 248) = r"
    by (simp_all add: m'_def mem_simps)
qed

lemma fill_info_result:
  "\<exists>m. fill_info info vendor board s = Some m \<and> changes_within (region info 256) (kmem s) m \<and> sys_info_filled info s m"
proof -
  let ?g = "bytes_of ''UNKNOWN''" and ?h = "fill_host info vendor board (kmem s)"
  obtain m1 where m1: "fill_cpu (cpuid s) info ?h = Some m1" "changes_within (region (info + 64) 64) ?h m1"
      "\<exists>k < 64. m1 (info + 64 + of_nat k) = 0"
    using fill_cpu_result by blast
  obtain p2 m2 where c2: "copy_text (Literal ?g) 64 (info + 128) 0 0 m1 = (p2, m2)" by force
  define m3 where "m3 = m2(info + 128 + of_nat p2 := 0)"
  obtain p4 m4 where c4: "copy_text (Literal kernel_version) 31 (info + 192) 0 0 m3 = (p4, m4)" by force
  define m5 where "m5 = m4(info + 192 + of_nat p4 := 0)"
  let ?m = "wr64 (wr64 (wr32 (wr32 m5 (info + 224) (fb_w (tfb (kterm s)))) (info + 228) (fb_h (tfb (kterm s))))
    (info + 240) (pit_ticks s)) (info + 248) (g_ram_mb s)"
  note nums = numbers_result [OF refl, where m = m5 and info = info and w = "fb_w (tfb (kterm s))" and h = "fb_h (tfb (kterm s))"
      and t = "pit_ticks s" and r = "g_ram_mb s"]
  have run: "fill_info info vendor board s = Some ?m"
    using m1(1) c2 c4 by (simp add: fill_info_def m3_def m5_def Let_def)
  have m3: "changes_within (region (info + 128) 64) m1 m3" "bytes_at m3 (info + 128) (?g @ [0])"
    using literal_field [OF _ _ _ _ _ c2 m3_def, of 64] by (simp_all add: bytes_of_def)
  have m5: "changes_within (region (info + 192) 32) m3 m5" "bytes_at m5 (info + 192) (kernel_version @ [0])"
    using literal_field [OF _ _ _ _ _ c4 m5_def, of 32] by (simp_all add: bytes_of_def kernel_version_def)
  have c3: "changes_within (region (info + of_nat 192) (32 + 32)) m3 ?m"
    using changes_within_span [of info 192 32 m3 m5 32 ?m] m5(1) nums(1) by simp
  then have c2: "changes_within (region (info + of_nat 128) (64 + (32 + 32))) m1 ?m"
    using changes_within_span [of info 128 64 m1 m3 "32 + 32" ?m] m3(1) by simp
  then have c1: "changes_within (region (info + of_nat 64) (64 + (64 + (32 + 32)))) ?h ?m"
    using changes_within_span [of info 64 64 ?h m1 "64 + (32 + 32)" ?m] m1(2) by simp
  then have c0: "changes_within (region info 256) (kmem s) ?m"
    using changes_within_span [of info 0 64 "kmem s" ?h "64 + (64 + (32 + 32))" ?m] fill_host_result [of info "kmem s"] by simp
  have "\<exists>k < 64. ?m (info + of_nat k) = 0"
    using fill_host_result [of info "kmem s" vendor board] field_kept [OF c1, of 0 64] in_region_add [of _ 64 info] by auto
  moreover have "\<exists>k < 64. ?m (info + 64 + of_nat k) = 0"
    using m1(3) field_kept [OF c2, of 64 64] in_region_add [of _ 64 "info + 64"] by auto
  moreover have "bytes_at ?m (info + 128) (?g @ [0])"
    using m3(2) field_kept [OF c3, of 128 64] in_region_add [of _ 64 "info + 128"]
    by (simp add: bytes_at_iff bytes_of_def)
  moreover have "bytes_at ?m (info + 192) (kernel_version @ [0])"
    using m5(2) field_kept [of info 224 32 m5 ?m 192 32] nums(1) in_region_add [of _ 32 "info + 192"]
    by (simp add: bytes_at_iff bytes_of_def kernel_version_def)
  ultimately have "sys_info_filled info s ?m" using nums(2-) by (simp add: sys_info_filled_def)
  then show ?thesis using run c0 by blast
qed

section \<open>The chain of handlers\<close>

definition core_installed :: "'z kernel_scheme \<Rightarrow> bool" where
  "core_installed s \<longleftrightarrow> length (handlers s) = MAX_HANDLERS \<and>
     map fn (take (handler_count s) (handlers s)) = [Some Trace_handler, Some Sandbox_handler, Some Core_handler]"

lemma default_handlers_installed:
  assumes "length (handlers s) = MAX_HANDLERS"
  shows "core_installed (effect_init_default_handlers (effect_init s))"
proof -
  obtain a b c r where "handlers s = a # b # c # r" "length r = 13"
    using assms by (auto simp: numeral_eq_Suc length_Suc_conv)
  then show ?thesis
    by (simp add: core_installed_def effect_init_default_handlers_def effect_init_def effect_register_def Let_def)
qed

lemma perform_core:
  assumes "core_installed s"
  shows "effect_perform deliver es e s =
    (case effect_core_handler deliver es (e\<lparr>result := 0, err := 0\<rparr>) s of
       Done (r, e, s, es) \<Rightarrow>
         if r = EFFECT_HANDLED \<or> r = EFFECT_ERROR then Done (r, e, s, es) else Done (EFFECT_PASS, e\<lparr>err := -38\<rparr>, s, es)
     | other \<Rightarrow> other)"
proof -
  obtain a b c where t: "take (handler_count s) (handlers s) = [a, b, c]"
    and "fn a = Some Trace_handler" "fn b = Some Sandbox_handler" "fn c = Some Core_handler"
    using assms by (auto simp: core_installed_def map_eq_Cons_conv)
  then show ?thesis by (auto simp: effect_perform_def t split: outcome.split)
qed

lemma read_call:
  assumes "core_installed s" "vector r = 0x80" "ucast (rax r) = EFF_READ"
  shows "exception_handler deliver es r s =
    (case hlt_until (\<lambda>s. input_available (kinput s)) deliver es s of
       None \<Rightarrow> Asleep
     | Some (s, es) \<Rightarrow>
         (case read_loop (rdi r) (rsi r) 0 (kinput s) (kmem s) of (got, q, m) \<Rightarrow>
            Done (r\<lparr>rax := got\<rparr>, set_kmem m (s\<lparr>kinput := q\<rparr>), es)))"
  using assms
  by (auto simp: exception_handler_def perform_core effect_core_handler_def effect_of_regs_def
      split: option.split prod.split)

text \<open>A call that cannot succeed, and the error \<^verbatim>\<open>effect_perform\<close> stores for it.\<close>

definition failing_call :: "regs \<Rightarrow> int option" where
  "failing_call r =
     (let eff = ucast (rax r) :: u32 in
      if eff = EFF_IOCTL then
        (if rdi r = IOCTL_GET_INFO then (if rsi r = 0 then Some (-14) else None)
         else if rdi r \<in> {IOCTL_CLEAR, IOCTL_GET_TICKS, IOCTL_SHUTDOWN, IOCTL_REBOOT} then None
         else Some (-22))
      else if eff \<in> {EFF_WRITE, EFF_READ, EFF_EXIT} then None
      else Some (-38))"

lemma ioctl_unknown:
  "arg0 e \<noteq> IOCTL_CLEAR \<Longrightarrow> arg0 e \<noteq> IOCTL_GET_TICKS \<Longrightarrow> arg0 e \<noteq> IOCTL_SHUTDOWN \<Longrightarrow> arg0 e \<noteq> IOCTL_REBOOT \<Longrightarrow>
    arg0 e \<noteq> IOCTL_GET_INFO \<Longrightarrow> ioctl es e s = Done (EFFECT_HANDLED, e\<lparr>err := -22\<rparr>, s, es)"
  by (simp add: ioctl_def)

lemma ioctl_null_info:
  "arg0 e = IOCTL_GET_INFO \<Longrightarrow> arg1 e = 0 \<Longrightarrow> ioctl es e s = Done (EFFECT_HANDLED, e\<lparr>err := -14\<rparr>, s, es)"
  by (simp add: ioctl_def)

lemma failing_core:
  assumes "failing_call r = Some k"
  shows "effect_core_handler deliver es ((effect_of_regs r)\<lparr>result := 0, err := 0\<rparr>) s =
    Done (if k = -38 then EFFECT_PASS else EFFECT_HANDLED,
      (effect_of_regs r)\<lparr>result := 0, err := if k = -38 then 0 else k\<rparr>, s, es)"
proof -
  define n :: u32 where "n = ucast (rax r)"
  have e: "op (effect_of_regs r) = n" "arg0 (effect_of_regs r) = rdi r" "arg1 (effect_of_regs r) = rsi r"
    by (simp_all add: effect_of_regs_def n_def)
  show ?thesis
  proof (cases "n = EFF_IOCTL")
    case True
    then have "rdi r = IOCTL_GET_INFO \<and> rsi r = 0 \<and> k = -14 \<or>
        rdi r \<notin> {IOCTL_CLEAR, IOCTL_GET_TICKS, IOCTL_SHUTDOWN, IOCTL_REBOOT, IOCTL_GET_INFO} \<and> k = -22"
      using assms by (simp add: failing_call_def n_def [symmetric] split: if_splits)
    then show ?thesis using True by (auto simp: effect_core_handler_def ioctl_unknown ioctl_null_info e)
  next
    case False
    then show ?thesis using assms
      by (simp add: failing_call_def n_def [symmetric] effect_core_handler_def e split: if_splits)
  qed
qed

section \<open>Properties\<close>

text \<open>A kernel with an empty keyboard queue, no interrupt handlers and the default effect handlers.\<close>

definition no_regs :: regs where
  "no_regs = \<lparr>r15 = 0, r14 = 0, r13 = 0, r12 = 0, r11 = 0, r10 = 0, r9 = 0, r8 = 0, rdi = 0, rsi = 0, rbp = 0,
     rbx = 0, rdx = 0, rcx = 0, rax = 0, vector = 0, error = 0, rip = 0, cs_reg = 0, rflags = 0, rsp = 0, ss_reg = 0\<rparr>"

definition demo_kernel :: kernel where
  "demo_kernel = effect_init_default_handlers (usb.extend demo_usb
     \<lparr>handlers = replicate 16 \<lparr>fn = None, user = 0, hname = None\<rparr>, handler_count = 0,
      ksmbios = \<lparr>smbios_table = 0, smbios_count = 0\<rparr>, kacpi = acpi_initial, cpuid = (\<lambda>_. (0, 0, 0, 0)), g_ram_mb = 64\<rparr>)"

lemma demo_kernel_installed: "core_installed demo_kernel"
  by (simp add: demo_kernel_def core_installed_def effect_init_default_handlers_def effect_register_def Let_def
      numeral_eq_Suc usb.defs demo_usb_def)

text \<open>
  C34: a failing system call (unknown number, unknown control request, null \<^verbatim>\<open>sys_info\<close>) changes
  nothing and has its error code stored in the effect, but \<^verbatim>\<open>exception_handler\<close> returns only the
  result field: user code sees 0, the value of a successful call.
\<close>

theorem failing_call_returns_zero:
  assumes "core_installed s" "vector r = 0x80" "failing_call r = Some k"
  shows "(\<exists>ret e. effect_perform deliver es (effect_of_regs r) s = Done (ret, e, s, es) \<and> err e = k) \<and>
    exception_handler deliver es r s = Done (r\<lparr>rax := 0\<rparr>, s, es)"
proof -
  have "effect_perform deliver es (effect_of_regs r) s =
      Done (if k = -38 then EFFECT_PASS else EFFECT_HANDLED, (effect_of_regs r)\<lparr>result := 0, err := k\<rparr>, s, es)"
    by (cases "k = -38") (simp_all add: failing_core [OF assms(3)] perform_core [OF assms(1)])
  then show ?thesis using assms(2) by (simp add: exception_handler_def)
qed

theorem failing_call_returns_zero_witness:
  "exception_handler (\<lambda>_ s. s) [] (no_regs\<lparr>vector := 0x80, rax := 99, rdi := 7\<rparr>) demo_kernel =
     Done (no_regs\<lparr>vector := 0x80, rax := 0, rdi := 7\<rparr>, demo_kernel, [])"
proof -
  have "failing_call (no_regs\<lparr>vector := 0x80, rax := 99, rdi := 7\<rparr>) = Some (-38)"
    by (simp add: failing_call_def Let_def no_regs_def)
  from failing_call_returns_zero [OF demo_kernel_installed _ this] show ?thesis by (simp add: no_regs_def)
qed



end
