(* ===== verification/Driver.thy ===== *)
theory Driver
  imports Usb
begin

text \<open>
  What the USB driver leaves alone. The locale \<open>driver_invariant\<close> is the contract of a predicate on the kernel
  state that does not look at devices, memory contents, controller fields and counters; every
  operation of the driver keeps such a predicate. \<open>driver_setup\<close> adds the registration of an interrupt
  handler, which only the initialisation does.

  The rules follow the structure of the definitions: \<open>let\<close>, pairs and conditionals. \<open>keeps2\<close> and \<open>keeps3\<close> are
  for operations that return one or two results beside the state.
\<close>

definition keeps2 :: "('s \<Rightarrow> bool) \<Rightarrow> 'a \<times> 's \<Rightarrow> bool" where "keeps2 K p \<longleftrightarrow> K (snd p)"
definition keeps3 :: "('s \<Rightarrow> bool) \<Rightarrow> 'a \<times> 'b \<times> 's \<Rightarrow> bool" where "keeps3 K p \<longleftrightarrow> K (snd (snd p))"

definition keeps_ctl :: "('s \<Rightarrow> bool) \<Rightarrow> ('s, 'r \<times> 's) ctl \<Rightarrow> bool" where
  "keeps_ctl K c \<longleftrightarrow> (case c of Next s \<Rightarrow> K s | Return p \<Rightarrow> K (snd p))"

section \<open>Device accesses\<close>

lemma read_more:
  "hw.more (snd (io_ask e s)) = hw.more s" "hw.more (snd (mmio_read a s)) = hw.more s"
  "hw.more (snd (inl p s)) = hw.more s"
  by (simp_all add: port_defs)

lemma poll_more: "hw.more (snd (poll n e stop s)) = hw.more s"
  using poll_frame [of n e stop s] by (cases "poll n e stop s") auto

lemma pci_more:
  "hw.more (snd (pci_read32 b d f o' s)) = hw.more s" "hw.more (pci_write32 b d f o' v s) = hw.more s"
  by (simp_all add: pci_read32_def pci_write32_def read_more)

lemma find_msix_cap_more: "hw.more (snd (find_msix_cap n b d f c s)) = hw.more s"
proof (induction n b d f c s rule: find_msix_cap.induct)
  case (2 n b d f c s)
  obtain v s1 where "pci_read32 b d f (ucast c) s = (v, s1)" by force
  then show ?case using 2 pci_more(1) [of b d f "ucast c" s] by simp
qed simp

lemma bar_more: "hw.more (snd (snd (pci_read_bar64 b d f o' s))) = hw.more s"
proof -
  obtain v s1 where 1: "pci_read32 b d f o' s = (v, s1)" by force
  obtain w s2 where 2: "pci_read32 b d f (o' + 4) s1 = (w, s2)" by force
  show ?thesis using 1 2 pci_more(1) [of b d f o' s] pci_more(1) [of b d f "o' + 4" s1] by (simp add: pci_read_bar64_def)
qed

section \<open>Predicates the driver keeps\<close>

locale driver_invariant =
  fixes K :: "'z usb_scheme \<Rightarrow> bool"
  assumes K_hw: "K s \<Longrightarrow> hw.more s' = hw.more s \<Longrightarrow> K s'"
    and K_mem: "K s \<Longrightarrow> K (set_kmem m s)"
    and K_xh: "K s \<Longrightarrow> K (xh_update g s)"
    and K_print: "K s \<Longrightarrow> K (kprintf fmt args s)"
    and K_push: "K s \<Longrightarrow> K (s\<lparr>kinput := input_push c (kinput s)\<rparr>)"
    and K_counts: "K s \<Longrightarrow> K (isr_count_update h s)" "K s \<Longrightarrow> K (keys_count_update h s)"
      "K s \<Longrightarrow> K (push_count_update h s)" "K s \<Longrightarrow> K (bad_code_count_update h s)" "K s \<Longrightarrow> K (xfer_pending_update b s)"
    and K_paging: "K s \<Longrightarrow> K (kpmm_update p s)" "K s \<Longrightarrow> K (kinvlpg_update l s)"
begin

lemma keep_let:
  "\<And>t f. K t \<Longrightarrow> (\<And>x. K x \<Longrightarrow> K (f x)) \<Longrightarrow> K (Let t f)"
  "\<And>t f. K t \<Longrightarrow> (\<And>x. K x \<Longrightarrow> keeps2 K (f x)) \<Longrightarrow> keeps2 K (Let t f)"
  "\<And>t f. K t \<Longrightarrow> (\<And>x. K x \<Longrightarrow> keeps3 K (f x)) \<Longrightarrow> keeps3 K (Let t f)"
  by (simp_all add: Let_def)

lemma keep_let_word:
  fixes t :: "'w::len word"
  shows "(\<And>x. K (f x)) \<Longrightarrow> K (Let t f)" "(\<And>x. keeps2 K (g x)) \<Longrightarrow> keeps2 K (Let t g)"
    "(\<And>x. keeps3 K (h x)) \<Longrightarrow> keeps3 K (Let t h)"
  by (simp_all add: Let_def)

lemma keep_let_value:
  fixes t :: bool and u :: "u8 list"
  shows "(\<And>x. K (f x)) \<Longrightarrow> K (Let t f)" "(\<And>x. keeps2 K (g x)) \<Longrightarrow> keeps2 K (Let t g)"
    "(\<And>x. K (h x)) \<Longrightarrow> K (Let u h)"
  by (simp_all add: Let_def)

lemma keep_pair:
  "\<And>t f. keeps2 K t \<Longrightarrow> (\<And>a x. K x \<Longrightarrow> K (f a x)) \<Longrightarrow> K (case_prod f t)"
  "\<And>t f. keeps2 K t \<Longrightarrow> (\<And>a x. K x \<Longrightarrow> keeps2 K (f a x)) \<Longrightarrow> keeps2 K (case_prod f t)"
  "\<And>t f. keeps2 K t \<Longrightarrow> (\<And>a x. K x \<Longrightarrow> keeps3 K (f a x)) \<Longrightarrow> keeps3 K (case_prod f t)"
  "\<And>t f. keeps3 K t \<Longrightarrow> (\<And>a b x. K x \<Longrightarrow> K (f a b x)) \<Longrightarrow> K (case_prod (\<lambda>a. case_prod (f a)) t)"
  "\<And>t f. keeps3 K t \<Longrightarrow> (\<And>a b x. K x \<Longrightarrow> keeps2 K (f a b x)) \<Longrightarrow> keeps2 K (case_prod (\<lambda>a. case_prod (f a)) t)"
  by (simp_all add: keeps2_def keeps3_def split_beta)

lemma keep_let_pair:
  "\<And>t f. keeps2 K t \<Longrightarrow> (\<And>a x. K x \<Longrightarrow> K (f a x)) \<Longrightarrow> K (Let t (case_prod f))"
  "\<And>t f. keeps2 K t \<Longrightarrow> (\<And>a x. K x \<Longrightarrow> keeps2 K (f a x)) \<Longrightarrow> keeps2 K (Let t (case_prod f))"
  "\<And>t f. keeps2 K t \<Longrightarrow> (\<And>a x. K x \<Longrightarrow> keeps3 K (f a x)) \<Longrightarrow> keeps3 K (Let t (case_prod f))"
  "\<And>t f. keeps3 K t \<Longrightarrow> (\<And>a b x. K x \<Longrightarrow> K (f a b x)) \<Longrightarrow> K (Let t (case_prod (\<lambda>a. case_prod (f a))))"
  by (simp_all add: keeps2_def keeps3_def split_beta)

lemma keep_if:
  "K x \<Longrightarrow> K y \<Longrightarrow> K (if b then x else y)"
  "keeps2 K p \<Longrightarrow> keeps2 K q \<Longrightarrow> keeps2 K (if b then p else q)"
  "keeps3 K u \<Longrightarrow> keeps3 K v \<Longrightarrow> keeps3 K (if b then u else v)"
  by simp_all

lemma keep_option:
  "K x \<Longrightarrow> (\<And>a. K (f a)) \<Longrightarrow> K (case_option x f o')"
  "keeps2 K p \<Longrightarrow> (\<And>a. keeps2 K (g a)) \<Longrightarrow> keeps2 K (case_option p g o')"
  "keeps3 K q \<Longrightarrow> (\<And>a. keeps3 K (h a)) \<Longrightarrow> keeps3 K (case_option q h o')"
  by (simp_all split: option.split)

lemma keep_values:
  "(\<And>a b. keeps2 K (g a b)) \<Longrightarrow> keeps2 K (case_prod g (v :: u32 \<times> u32))"
  "(\<And>a b. keeps3 K (h a b)) \<Longrightarrow> keeps3 K (case_prod h (v :: u32 \<times> u32))"
  "(\<And>a b c d. keeps2 K (k a b c d)) \<Longrightarrow> keeps2 K (case w :: u8 \<times> u8 \<times> u16 \<times> u8 of (a, b, c, d) \<Rightarrow> k a b c d)"
  by (simp_all split: prod.split)

lemma keep_result: "K s \<Longrightarrow> keeps2 K (a, s)" "K s \<Longrightarrow> keeps3 K (a', b', s)"
  by (simp_all add: keeps2_def keeps3_def)

lemma keep_snd: "keeps2 K p \<Longrightarrow> K (snd p)"
  by (simp add: keeps2_def)

lemma keep_hw:
  "K s \<Longrightarrow> K (io_do e s)" "K s \<Longrightarrow> K (mmio_write a v s)" "K s \<Longrightarrow> K (pci_write32 b d f o' v s)"
  "K s \<Longrightarrow> K (write_phys a w s)"
  "K s \<Longrightarrow> keeps2 K (mmio_read a s)" "K s \<Longrightarrow> keeps2 K (poll n e stop s)" "K s \<Longrightarrow> keeps2 K (pci_read32 b d f o' s)"
  "K s \<Longrightarrow> keeps2 K (find_msix_cap n b d f c s)" "K s \<Longrightarrow> keeps3 K (pci_read_bar64 b d f o' s)"
  unfolding keeps2_def keeps3_def
  by (rule K_hw, assumption, simp add: read_more poll_more pci_more find_msix_cap_more bar_more write_phys_def)+

lemma keep_on_mem: "K s \<Longrightarrow> K (on_mem g s)"
  by (simp add: on_mem_def K_mem)

lemma keep_loop: "K s \<Longrightarrow> (\<And>i s. K s \<Longrightarrow> K (f i s)) \<Longrightarrow> K (for_loop i n f s)"
  by (induction i n f s rule: for_loop.induct) (simp add: for_loop.simps)

lemmas keep = keep_let keep_let_word keep_let_value keep_let_pair keep_pair keep_if keep_option keep_values
  keep_result keep_snd keep_hw keep_on_mem keep_loop K_mem K_xh K_print K_push K_counts K_paging

lemma keep_dma_sync: "K s \<Longrightarrow> K (dma_sync s)"
  unfolding dma_sync_def by (intro keep)

lemma keep_evt_advance: "K s \<Longrightarrow> K (evt_advance s)"
  unfolding evt_advance_def by (intro keep)

lemma keep_process_key: "K s \<Longrightarrow> K (process_key k s)"
  unfolding process_key_def by (intro keep)

lemma keep_process_keys: "K s \<Longrightarrow> K (process_keys report s)"
proof -
  have "K s \<Longrightarrow> K (fold process_key ks s)" for ks s
    by (induction ks arbitrary: s) (simp_all add: keep_process_key)
  then show "K s \<Longrightarrow> K (process_keys report s)" unfolding process_keys_def by (intro keep)
qed

lemma keep_get_xfer: "K s \<Longrightarrow> keeps2 K (get_xfer X ctrl stat s)"
  unfolding get_xfer_def by (intro keep keep_evt_advance keep_process_keys)

lemma keep_drain_events: "K s \<Longrightarrow> keeps2 K (drain_events X n got s)"
proof (induction n arbitrary: got s)
  case (Suc n)
  show ?case unfolding drain_events.simps
    by (intro keep keep_dma_sync keep_get_xfer keep_evt_advance Suc)
qed (simp add: keeps2_def)

lemma keep_queue: "K s \<Longrightarrow> K (queue_interrupt_in_async X sl s)"
  unfolding queue_interrupt_in_async_def by (intro keep)

lemma keep_handle_interrupt: "K s \<Longrightarrow> K (handle_interrupt X s)"
  unfolding handle_interrupt_def by (intro keep keep_drain_events keep_queue)

lemma keep_lapic_enable: "K s \<Longrightarrow> K (lapic_enable s)"
  by (rule K_hw, assumption) (simp add: lapic_enable_def Let_def port_defs)

lemma keep_parse_caps: "K s \<Longrightarrow> K (parse_caps a s)"
  unfolding parse_caps_def by (intro keep)

lemma keep_halt: "K s \<Longrightarrow> K (halt s)"
  unfolding halt_def by (intro keep)

lemma keep_xhci_reset: "K s \<Longrightarrow> K (xhci_reset s)"
  unfolding xhci_reset_def by (intro keep keep_halt)

lemma keep_setup_dcbaap: "K s \<Longrightarrow> K (setup_dcbaap X s)"
  unfolding setup_dcbaap_def by (intro keep)

lemma keep_setup_cmd_ring: "K s \<Longrightarrow> K (setup_cmd_ring X s)"
  unfolding setup_cmd_ring_def by (intro keep)

lemma keep_setup_evt_ring: "K s \<Longrightarrow> K (setup_evt_ring X s)"
  unfolding setup_evt_ring_def by (intro keep)

lemma keep_xhci_start: "K s \<Longrightarrow> K (xhci_start s)"
  unfolding xhci_start_def by (intro keep)

lemma keep_wait_event: "K s \<Longrightarrow> keeps2 K (wait_event X n want others phys s)"
proof (induction n arbitrary: s)
  case (Suc n)
  show ?case unfolding wait_event.simps by (intro keep keep_dma_sync keep_evt_advance Suc)
qed (simp add: keeps2_def)

lemma keep_wait_cmd: "K s \<Longrightarrow> keeps3 K (wait_cmd X phys s)"
  unfolding wait_cmd_def by (intro keep keep_wait_event)

lemma keep_wait_xfer: "K s \<Longrightarrow> keeps2 K (wait_xfer X phys s)"
  unfolding wait_xfer_def by (intro keep keep_wait_event)

lemma keep_submit_cmd: "K s \<Longrightarrow> keeps3 K (submit_cmd X type param stat slot_id s)"
  unfolding submit_cmd_def by (intro keep keep_wait_cmd)

lemma keep_control_xfer: "K s \<Longrightarrow> keeps2 K (control_xfer X sl ty req val ind len data dir_in s)"
  unfolding control_xfer_def by (intro keep keep_wait_xfer)

lemma keep_get_descriptor: "K s \<Longrightarrow> keeps2 K (get_descriptor X sl ty i buf len s)"
  unfolding get_descriptor_def by (rule keep_control_xfer)

lemma keep_set_requests:
  "K s \<Longrightarrow> keeps2 K (set_configuration X sl cfg s)" "K s \<Longrightarrow> keeps2 K (set_protocol_boot X sl iface s)"
  "K s \<Longrightarrow> keeps2 K (set_idle X sl iface s)"
  unfolding set_configuration_def set_protocol_boot_def set_idle_def by (rule keep_control_xfer, assumption)+

lemma keep_enable_slot: "K s \<Longrightarrow> keeps2 K (enable_slot X s)"
  unfolding enable_slot_def by (intro keep keep_submit_cmd)

lemma keep_ep0_init: "K s \<Longrightarrow> K (ep0_init X s)"
  unfolding ep0_init_def by (intro keep)

lemma keep_address_device: "K s \<Longrightarrow> keeps2 K (address_device X sl port speed s)"
  unfolding address_device_def by (intro keep keep_submit_cmd keep_ep0_init)

lemma keep_configure_endpoint: "K s \<Longrightarrow> keeps2 K (configure_endpoint X sl n ty mps interval s)"
  unfolding configure_endpoint_def by (intro keep keep_submit_cmd)

lemma keep_setup_keyboard: "K s \<Longrightarrow> keeps2 K (setup_keyboard X port speed s)"
  unfolding setup_keyboard_def
  by (intro keep keep_enable_slot keep_address_device keep_get_descriptor keep_set_requests keep_configure_endpoint)

lemma keep_setup_msix: "K s \<Longrightarrow> keeps2 K (setup_msix s)"
  unfolding setup_msix_def by (intro keep)

lemma keep_enable_interrupter: "K s \<Longrightarrow> K (enable_interrupter s)"
  unfolding enable_interrupter_def by (intro keep)

lemma keep_power_port: "K s \<Longrightarrow> K (power_port p s)"
  unfolding power_port_def by (intro keep)

lemma keep_port_reset: "K s \<Longrightarrow> keeps2 K (port_reset p s)"
  unfolding port_reset_def by (intro keep)

lemma keep_map_kernel_page: "K s \<Longrightarrow> K (map_kernel_page pml4 addr s)"
  by (simp add: map_kernel_page_def Let_def K_mem K_paging)

lemma keep_readConfig: "K s \<Longrightarrow> keeps2 K (readConfig b d f o' s)"
  using keep_hw(7) [of s b d f o'] by (simp add: readConfig_def pci_read32_def)

lemma keep_search:
  assumes "K s" "\<And>i s. K s \<Longrightarrow> keeps2 K (body i s)"
  shows "keeps2 K (search k i body s)"
  using assms(1)
proof (induction k arbitrary: i s)
  case (Suc k)
  show ?case unfolding search.simps by (intro keep Suc assms(2))
qed (simp add: keeps2_def)

lemma keep_read_bar: "K s \<Longrightarrow> keeps2 K (read_bar b d f s)"
  unfolding read_bar_def by (intro keep keep_readConfig)

lemma keep_probe: "K s \<Longrightarrow> keeps2 K (probe type sig b d f s)"
  unfolding probe_def by (intro keep keep_readConfig keep_read_bar)

lemma keep_probe_slot: "K s \<Longrightarrow> keeps2 K (probe_slot type sig b d s)"
  unfolding probe_slot_def by (intro keep keep_readConfig keep_search keep_probe)

lemma keep_findPciDevice: "K s \<Longrightarrow> keeps2 K (findPciDevice type s)"
  unfolding findPciDevice_def by (intro keep keep_search keep_probe_slot)

lemma keep_for_ctl:
  assumes "K s" "\<And>i s. K s \<Longrightarrow> keeps_ctl K (f i s)"
  shows "keeps_ctl K (for_ctl i n f s)"
  using assms
proof (induction i n f s rule: for_ctl.induct)
  case (1 i n f s)
  show ?case
  proof (cases "i < n")
    case True
    then show ?thesis using "1.IH" "1.prems"(2) "1.prems"(2) [OF "1.prems"(1), of i]
      by (cases "f i s") (simp_all add: for_ctl.simps [of i n] keeps_ctl_def)
  qed (use 1 in \<open>simp add: keeps_ctl_def\<close>)
qed

lemma keep_scan_port: "K s \<Longrightarrow> keeps_ctl K (scan_port p s)"
proof -
  assume "K s"
  obtain v t1 where r: "mmio_read (portsc_at p s) s = (v, t1)" by force
  then have "K t1" using keep_hw(5) [OF \<open>K s\<close>, of "portsc_at p s"] by (simp add: keeps2_def)
  then have k: "K (mmio_write (portsc_at p t1) (PORTSC_CHANGES OR push_bit 9 1) t1)" by (intro keep)
  then show ?thesis using keep_port_reset [OF k, of p] r
    by (auto simp: scan_port_def Let_def keeps2_def keeps_ctl_def split: prod.split)
qed

lemma keep_ctl:
  "keeps_ctl K c \<Longrightarrow> (\<And>x. K x \<Longrightarrow> K (f x)) \<Longrightarrow> (\<And>r x. K x \<Longrightarrow> K (g r x)) \<Longrightarrow> K (case_ctl f (case_prod g) c)"
  by (auto simp: keeps_ctl_def split: ctl.splits prod.splits)

lemma keep_ports:
  "(\<And>a b. K (g a b)) \<Longrightarrow> K (case_prod g (v :: u32 \<times> u32))"
  by (simp split: prod.split)

end

text \<open>Initialisation registers one interrupt handler.\<close>

locale driver_setup = driver_invariant +
  assumes K_register: "K s \<Longrightarrow> K (snd (irq_register v h n s))"
begin

lemma keep_register: "K s \<Longrightarrow> keeps2 K (irq_register v h n s)"
  by (simp add: keeps2_def K_register)

lemmas keep_setup = keep keep_register keep_ctl keep_ports keep_for_ctl keep_parse_caps keep_xhci_reset keep_setup_dcbaap
  keep_setup_cmd_ring keep_setup_evt_ring keep_xhci_start keep_power_port keep_scan_port keep_setup_keyboard
  keep_lapic_enable keep_setup_msix keep_enable_interrupter keep_queue

lemma keep_xhci_run: "K s \<Longrightarrow> K (xhci_run X a b d f s)"
  unfolding xhci_run_def by (intro keep_setup)

lemma keep_usb_init: "K s \<Longrightarrow> K (usb_init X pml4 s)"
  unfolding usb_init_def by (intro keep_setup keep_findPciDevice keep_map_kernel_page keep_xhci_run)

end

end
