(* ===== verification/Elf.thy ===== *)
theory Elf
  imports Console Bytes
begin

text \<open>
  The program loader, \<^verbatim>\<open>src/kernel/elf.c\<close>: it copies the loadable segments of an ELF image to their
  addresses. The loops read the image again in every round, as the C code does through its
  pointers, so an image that overwrites itself behaves as on the machine.
\<close>

section \<open>Image fields\<close>

definition e_machine :: "mem \<Rightarrow> u64 \<Rightarrow> u16" where "e_machine m hdr = rd16 m (hdr + 18)"
definition e_entry :: "mem \<Rightarrow> u64 \<Rightarrow> u64" where "e_entry m hdr = rd64 m (hdr + 24)"
definition e_phoff :: "mem \<Rightarrow> u64 \<Rightarrow> u64" where "e_phoff m hdr = rd64 m (hdr + 32)"
definition e_phentsize :: "mem \<Rightarrow> u64 \<Rightarrow> u16" where "e_phentsize m hdr = rd16 m (hdr + 54)"
definition e_phnum :: "mem \<Rightarrow> u64 \<Rightarrow> u16" where "e_phnum m hdr = rd16 m (hdr + 56)"

definition p_type :: "mem \<Rightarrow> u64 \<Rightarrow> u32" where "p_type m ph = rd32 m ph"
definition p_flags :: "mem \<Rightarrow> u64 \<Rightarrow> u32" where "p_flags m ph = rd32 m (ph + 4)"
definition p_offset :: "mem \<Rightarrow> u64 \<Rightarrow> u64" where "p_offset m ph = rd64 m (ph + 8)"
definition p_vaddr :: "mem \<Rightarrow> u64 \<Rightarrow> u64" where "p_vaddr m ph = rd64 m (ph + 16)"
definition p_filesz :: "mem \<Rightarrow> u64 \<Rightarrow> u64" where "p_filesz m ph = rd64 m (ph + 32)"
definition p_memsz :: "mem \<Rightarrow> u64 \<Rightarrow> u64" where "p_memsz m ph = rd64 m (ph + 40)"

abbreviation PT_LOAD :: u32 where "PT_LOAD \<equiv> 1"
abbreviation EM_X86_64 :: u16 where "EM_X86_64 \<equiv> 0x3E"

text \<open>\<^verbatim>\<open>base + hdr->e_phoff + i * hdr->e_phentsize\<close>; the product is a 32-bit \<^verbatim>\<open>int\<close>.\<close>

definition phdr :: "mem \<Rightarrow> u64 \<Rightarrow> u32 \<Rightarrow> u64" where
  "phdr m hdr i = hdr + e_phoff m hdr + scast (i * ucast (e_phentsize m hdr))"

section \<open>Loading\<close>

function copy_file :: "u64 \<Rightarrow> u64 \<Rightarrow> u64 \<Rightarrow> u64 \<Rightarrow> mem \<Rightarrow> mem" where
  "copy_file ph dst src j m =
     (if j < p_filesz m ph then copy_file ph dst src (j + 1) (m(dst + j := m (src + j))) else m)"
  by pat_completeness auto
termination
proof (relation "measure (\<lambda>(ph, dst, src, j, m). 2 ^ 64 - unat j)", goal_cases)
  case (2 ph dst src j m)
  then show ?case using unat_Suc_less [OF 2] unat_bound [of j] by simp
qed simp

function zero_fill :: "u64 \<Rightarrow> u64 \<Rightarrow> u64 \<Rightarrow> mem \<Rightarrow> mem" where
  "zero_fill ph dst j m =
     (if j < p_memsz m ph then zero_fill ph dst (j + 1) (m(dst + j := 0)) else m)"
  by pat_completeness auto
termination
proof (relation "measure (\<lambda>(ph, dst, j, m). 2 ^ 64 - unat j)", goal_cases)
  case (2 ph dst j m)
  then show ?case using unat_Suc_less [OF 2] unat_bound [of j] by simp
qed simp

declare copy_file.simps [simp del] zero_fill.simps [simp del]

definition load_segment :: "u64 \<Rightarrow> u64 \<Rightarrow> 'z console_scheme \<Rightarrow> 'z console_scheme" where
  "load_segment hdr ph s =
     (let dst = p_vaddr (kmem s) ph; src = hdr + p_offset (kmem s) ph;
          m = copy_file ph dst src 0 (kmem s);
          m = zero_fill ph dst (p_filesz m ph) m;
          s = set_kmem m s
      in kprintf (''ELF: segment vaddr=%lx  memsz=%lx  flags=%x'' @ [CHR 0x0A])
           [ArgLong (p_vaddr (kmem s) ph), ArgLong (p_memsz (kmem s) ph), ArgInt (p_flags (kmem s) ph)] s)"

function load_segments :: "u64 \<Rightarrow> u32 \<Rightarrow> 'z console_scheme \<Rightarrow> 'z console_scheme" where
  "load_segments hdr i s =
     (if i < ucast (e_phnum (kmem s) hdr) then
        let ph = phdr (kmem s) hdr i
        in load_segments hdr (i + 1) (if p_type (kmem s) ph \<noteq> PT_LOAD then s else load_segment hdr ph s)
      else s)"
  by pat_completeness auto
termination
proof (relation "measure (\<lambda>(hdr, i, s). 2 ^ 32 - unat i)", goal_cases)
  case (2 hdr i s x)
  then show ?case using unat_Suc_less [OF 2(1)] unat_bound [of i] by simp
qed simp

declare load_segments.simps [simp del]

definition elf_load :: "u64 \<Rightarrow> 'z console_scheme \<Rightarrow> int \<times> u64 option \<times> 'z console_scheme" where
  "elf_load elf_data s =
     (if kmem s elf_data \<noteq> 0x7F \<or> kmem s (elf_data + 1) \<noteq> 0x45 \<or> kmem s (elf_data + 2) \<noteq> 0x4C \<or>
         kmem s (elf_data + 3) \<noteq> 0x46
      then (-1, None, kprintf (''ELF: bad magic'' @ [CHR 0x0A]) [] s)
      else if e_machine (kmem s) elf_data \<noteq> EM_X86_64
      then (-1, None, kprintf (''ELF: not x86-64 (machine=%x)'' @ [CHR 0x0A]) [ArgInt (ucast (e_machine (kmem s) elf_data))] s)
      else let s = load_segments elf_data 0 s in (0, Some (e_entry (kmem s) elf_data), s))"

section \<open>Segments\<close>

lemma set_kmem_simps [simp]:
  "kmem (set_kmem m s) = m" "tfb (kterm (set_kmem m s)) = tfb (kterm s)"
  "terminal_ok (kterm (set_kmem m s)) = terminal_ok (kterm s)"
  "screen_bytes (kterm (set_kmem m s)) = screen_bytes (kterm s)"
  by (simp_all add: set_kmem_def terminal_ok_def screen_bytes_def)

lemma region_sub: "k < n \<Longrightarrow> a + k \<in> region a (unat n)"
  by (simp add: region_def word_less_nat_alt)

lemma rd64_upd: "a \<notin> region p 8 \<Longrightarrow> rd64 (m(a := v)) p = rd64 m p"
  by (rule rd64_cong) auto

lemma offset_unique: "unat (a - dst) = unat j \<Longrightarrow> a = dst + (j :: u64)"
  by (metis add_diff_cancel_left' diff_add_cancel add.commute word_unat_eq_iff)

lemma copy_file_result:
  assumes "region dst (unat n) \<inter> region (ph + 32) 8 = {}" "region dst (unat n) \<inter> region src (unat n) = {}"
    and "p_filesz m ph = n" "j \<le> n"
  shows "copy_file ph dst src j m =
    (\<lambda>a. if unat j \<le> unat (a - dst) \<and> unat (a - dst) < unat n then m (src + (a - dst)) else m a)"
  using assms
proof (induction ph dst src j m rule: copy_file.induct)
  case (1 ph dst src j m)
  show ?case
  proof (cases "j < n")
    case False
    then have "j = n" using "1.prems" by simp
    then show ?thesis using "1.prems" by (subst copy_file.simps) (auto simp: fun_eq_iff)
  next
    case True
    let ?m = "m(dst + j := m (src + j))"
    have dj: "dst + j \<in> region dst (unat n)" using True by (rule region_sub)
    have sz: "p_filesz ?m ph = n"
    proof -
      have "dst + j \<notin> region (ph + 32) 8" using dj "1.prems"(1) by blast
      then show ?thesis using "1.prems"(3) by (simp add: p_filesz_def rd64_upd)
    qed
    have j: "j < p_filesz m ph" and j1: "j + 1 \<le> n" using True "1.prems" word_succ_le by auto
    have eq: "copy_file ph dst src j m =
      (\<lambda>a. if unat (j + 1) \<le> unat (a - dst) \<and> unat (a - dst) < unat n then ?m (src + (a - dst)) else ?m a)"
      by (subst copy_file.simps) (simp only: j if_True "1.IH" [OF j "1.prems"(1,2) sz j1])
    show ?thesis
    proof
      fix a
      consider "a = dst + j" | "unat (a - dst) \<noteq> unat j" "a \<noteq> dst + j" using offset_unique by blast
      then show "copy_file ph dst src j m a =
        (if unat j \<le> unat (a - dst) \<and> unat (a - dst) < unat n then m (src + (a - dst)) else m a)"
      proof cases
        case 1
        then show ?thesis using True unat_Suc_less [OF True] by (simp add: eq word_less_nat_alt)
      next
        case 2
        have "src + (a - dst) \<noteq> dst + j" if "unat (a - dst) < unat n"
        proof -
          have "src + (a - dst) \<in> region src (unat n)" using that by (intro region_sub) (simp add: word_less_nat_alt)
          then show ?thesis using dj "1.prems"(2) by (metis disjoint_iff)
        qed
        then show ?thesis using 2 unat_Suc_less [OF True] by (auto simp: eq)
      qed
    qed
  qed
qed

lemma zero_fill_result:
  assumes "region dst (unat n) \<inter> region (ph + 40) 8 = {}" "p_memsz m ph = n"
  shows "zero_fill ph dst j m = (\<lambda>a. if unat j \<le> unat (a - dst) \<and> unat (a - dst) < unat n then 0 else m a)"
  using assms
proof (induction ph dst j m rule: zero_fill.induct)
  case (1 ph dst j m)
  show ?case
  proof (cases "j < n")
    case False
    then show ?thesis using "1.prems" by (subst zero_fill.simps) (auto simp: fun_eq_iff word_less_nat_alt)
  next
    case True
    have "dst + j \<in> region dst (unat n)" using True by (rule region_sub)
    then have "dst + j \<notin> region (ph + 40) 8" using "1.prems"(1) by blast
    then have sz: "p_memsz (m(dst + j := 0)) ph = n" using "1.prems"(2) by (simp add: p_memsz_def rd64_upd)
    have j: "j < p_memsz m ph" using True "1.prems" by simp
    have eq: "zero_fill ph dst j m =
      (\<lambda>a. if unat (j + 1) \<le> unat (a - dst) \<and> unat (a - dst) < unat n then 0 else (m(dst + j := 0)) a)"
      by (subst zero_fill.simps) (simp only: j if_True "1.IH" [OF j "1.prems"(1) sz])
    show ?thesis
    proof
      fix a
      consider "a = dst + j" | "unat (a - dst) \<noteq> unat j" "a \<noteq> dst + j" using offset_unique by blast
      then show "zero_fill ph dst j m a = (if unat j \<le> unat (a - dst) \<and> unat (a - dst) < unat n then 0 else m a)"
        by cases (use True unat_Suc_less [OF True] in \<open>auto simp: eq word_less_nat_alt\<close>)
    qed
  qed
qed

section \<open>Images\<close>

definition loadable :: "mem \<Rightarrow> u64 \<Rightarrow> nat \<Rightarrow> bool" where
  "loadable m hdr i \<longleftrightarrow> i < unat (e_phnum m hdr) \<and> p_type m (phdr m hdr (of_nat i)) = PT_LOAD"

text \<open>The bytes of the image the loader reads, and the bytes a segment occupies once loaded.\<close>

definition image_reads :: "mem \<Rightarrow> u64 \<Rightarrow> u64 set" where
  "image_reads m hdr = region hdr 64 \<union>
     (\<Union>i < unat (e_phnum m hdr). region (phdr m hdr (of_nat i)) 56) \<union>
     (\<Union>i \<in> {i. loadable m hdr i}.
        let ph = phdr m hdr (of_nat i) in region (hdr + p_offset m ph) (unat (p_filesz m ph)))"

definition segment_bytes :: "mem \<Rightarrow> u64 \<Rightarrow> nat \<Rightarrow> u64 set" where
  "segment_bytes m hdr i =
     (let ph = phdr m hdr (of_nat i) in region (p_vaddr m ph) (max (unat (p_filesz m ph)) (unat (p_memsz m ph))))"

text \<open>Segments overlap neither each other nor the image nor the screen \<open>S\<close>.\<close>

definition image_ok :: "mem \<Rightarrow> u64 \<Rightarrow> u64 set \<Rightarrow> bool" where
  "image_ok m hdr S \<longleftrightarrow> S \<inter> image_reads m hdr = {} \<and>
     (\<forall>i. loadable m hdr i \<longrightarrow> segment_bytes m hdr i \<inter> (image_reads m hdr \<union> S) = {} \<and>
        (\<forall>j. loadable m hdr j \<longrightarrow> j \<noteq> i \<longrightarrow> segment_bytes m hdr i \<inter> segment_bytes m hdr j = {}))"

text \<open>A segment holds its file contents, then zeros.\<close>

definition segment_loaded :: "mem \<Rightarrow> u64 \<Rightarrow> nat \<Rightarrow> mem \<Rightarrow> bool" where
  "segment_loaded m hdr i m' \<longleftrightarrow>
     (let ph = phdr m hdr (of_nat i) in
      (\<forall>k < p_filesz m ph. m' (p_vaddr m ph + k) = m (hdr + p_offset m ph + k)) \<and>
      (\<forall>k < p_memsz m ph. p_filesz m ph \<le> k \<longrightarrow> m' (p_vaddr m ph + k) = 0))"

definition agree :: "u64 set \<Rightarrow> mem \<Rightarrow> mem \<Rightarrow> bool" where
  "agree A m m' \<longleftrightarrow> (\<forall>a \<in> A. m' a = m a)"

lemma agree_rd:
  "agree A m m' \<Longrightarrow> region a 8 \<subseteq> A \<Longrightarrow> rd64 m' a = rd64 m a"
  "agree A m m' \<Longrightarrow> region a 4 \<subseteq> A \<Longrightarrow> rd32 m' a = rd32 m a"
  "agree A m m' \<Longrightarrow> region a 2 \<subseteq> A \<Longrightarrow> rd16 m' a = rd16 m a"
  by (auto simp: agree_def rd16_def rd32_def rd64_def intro!: rdn_cong)

text \<open>The fields the loader reads do not change while the image does not.\<close>

lemma image_header:
  assumes "agree (image_reads m hdr) m m'"
  shows "e_phnum m' hdr = e_phnum m hdr" "phdr m' hdr i = phdr m hdr i" "e_entry m' hdr = e_entry m hdr"
proof -
  have "region (hdr + d) k \<subseteq> image_reads m hdr" if "unat d + k \<le> 64" for d k
    using region_inside [of d k 64 hdr] that by (auto simp: image_reads_def)
  then show "e_phnum m' hdr = e_phnum m hdr" "phdr m' hdr i = phdr m hdr i" "e_entry m' hdr = e_entry m hdr"
    using assms by (simp_all add: e_phnum_def phdr_def e_phoff_def e_phentsize_def e_entry_def agree_rd)
qed

lemma image_phdr:
  assumes "agree (image_reads m hdr) m m'" "i < unat (e_phnum m hdr)" and ph: "ph = phdr m hdr (of_nat i)"
  shows "p_type m' ph = p_type m ph" "p_offset m' ph = p_offset m ph" "p_vaddr m' ph = p_vaddr m ph"
    "p_filesz m' ph = p_filesz m ph" "p_memsz m' ph = p_memsz m ph"
proof -
  have sub: "region (ph + d) k \<subseteq> image_reads m hdr" if "unat d + k \<le> 56" for d k
    using region_inside [of d k 56 ph] that assms(2) ph by (auto simp: image_reads_def)
  have "region ph 4 \<subseteq> image_reads m hdr" using sub [of 0 4] by simp
  then show "p_type m' ph = p_type m ph" "p_offset m' ph = p_offset m ph" "p_vaddr m' ph = p_vaddr m ph"
    "p_filesz m' ph = p_filesz m ph" "p_memsz m' ph = p_memsz m ph"
    using assms(1) sub
    by (simp_all add: p_type_def p_offset_def p_vaddr_def p_filesz_def p_memsz_def agree_rd)
qed

text \<open>What one segment does to memory, as long as it stays clear of the image and the screen.\<close>

lemma load_segment_result:
  assumes ok: "image_ok m hdr (screen_bytes (kterm s))" and ag: "agree (image_reads m hdr) m (kmem s)"
    and i: "loadable m hdr i" and t: "terminal_ok (kterm s)" and ph: "ph = phdr m hdr (of_nat i)"
    and s': "s' = load_segment hdr ph s"
  shows "terminal_ok (kterm s')" "tfb (kterm s') = tfb (kterm s)" "segment_loaded m hdr i (kmem s')"
    "a \<notin> screen_bytes (kterm s) \<Longrightarrow> a \<notin> segment_bytes m hdr i \<Longrightarrow> kmem s' a = kmem s a"
proof -
  let ?S = "screen_bytes (kterm s)" and ?dst = "p_vaddr m ph" and ?src = "hdr + p_offset m ph"
    and ?f = "p_filesz m ph" and ?n = "p_memsz m ph"
  have lt: "i < unat (e_phnum m hdr)" using i by (simp add: loadable_def)
  note fields = image_phdr [OF ag lt ph]
  have seg: "segment_bytes m hdr i = region ?dst (max (unat ?f) (unat ?n))"
    by (simp add: segment_bytes_def ph Let_def)
  have hd: "region ph 56 \<subseteq> image_reads m hdr" using lt ph by (auto simp: image_reads_def)
  have r32: "region (ph + 32) 8 \<subseteq> image_reads m hdr" using region_inside [of 32 8 56 ph] hd by simp
  have r40: "region (ph + 40) 8 \<subseteq> image_reads m hdr" using region_inside [of 40 8 56 ph] hd by simp
  have src: "region ?src (unat ?f) \<subseteq> image_reads m hdr" using i ph by (auto simp: image_reads_def Let_def)
  have df: "region ?dst (unat ?f) \<subseteq> segment_bytes m hdr i" and dn: "region ?dst (unat ?n) \<subseteq> segment_bytes m hdr i"
    using region_mono seg by simp_all
  have dis: "segment_bytes m hdr i \<inter> (image_reads m hdr \<union> ?S) = {}" using ok i by (simp add: image_ok_def)
  have d: "region ?dst (unat ?f) \<inter> region (ph + 32) 8 = {}" "region ?dst (unat ?f) \<inter> region ?src (unat ?f) = {}"
    "region ?dst (unat ?n) \<inter> region (ph + 40) 8 = {}"
    using dis df dn r32 r40 src by (simp_all add: disjoint_iff subset_iff) metis+
  define m1 where "m1 = copy_file ph ?dst ?src 0 (kmem s)"
  have m1: "m1 = (\<lambda>a. if unat (a - ?dst) < unat ?f then kmem s (?src + (a - ?dst)) else kmem s a)"
    using copy_file_result [OF d(1,2) fields(4)] by (simp add: m1_def)
  have "agree (image_reads m hdr) m m1"
  proof -
    have "unat (a - ?dst) \<ge> unat ?f" if "a \<in> image_reads m hdr" for a
      using dis that seg by (auto simp: region_def not_less [symmetric])
    then show ?thesis using ag by (auto simp: agree_def m1 not_less [symmetric])
  qed
  note fields1 = image_phdr [OF this lt ph]
  define m2 where "m2 = zero_fill ph ?dst ?f m1"
  have m2: "m2 = (\<lambda>a. if unat ?f \<le> unat (a - ?dst) \<and> unat (a - ?dst) < unat ?n then 0 else m1 a)"
    using zero_fill_result [OF d(3) fields1(5)] by (simp add: m2_def)
  have "\<exists>fmt args. s' = kprintf fmt args (set_kmem m2 s)"
    unfolding s' load_segment_def Let_def fields(2,3) m1_def [symmetric] fields1(4) m2_def [symmetric]
    by (intro exI, rule refl)
  then obtain fmt args where s'_eq: "s' = kprintf fmt args (set_kmem m2 s)" by blast
  have kt: "terminal_ok (kterm (set_kmem m2 s))" using t by simp
  show "terminal_ok (kterm s')" "tfb (kterm s') = tfb (kterm s)" using kprintf_ok(1,2) [OF kt] by (simp_all add: s'_eq)
  have fr: "kmem s' a = m2 a" if "a \<notin> ?S" for a using kprintf_ok(3) [OF kt, of a] that by (simp add: s'_eq)
  show "kmem s' a = kmem s a" if "a \<notin> ?S" "a \<notin> segment_bytes m hdr i" for a
  proof -
    have "\<not> unat (a - ?dst) < unat ?f" "\<not> unat (a - ?dst) < unat ?n"
      using that(2) unfolding seg by (simp_all add: region_def)
    then have "m2 a = kmem s a" unfolding m2 m1 by simp
    then show ?thesis using fr [OF that(1)] by simp
  qed
  have inS: "?dst + k \<notin> ?S" if "k < ?f \<or> k < ?n" for k
    using dis that seg by (auto simp: region_def word_less_nat_alt)
  have "kmem s (?src + k) = m (?src + k)" if "k < ?f" for k
    using ag src region_sub [OF that, of ?src] by (auto simp: agree_def)
  then show "segment_loaded m hdr i (kmem s')"
    using inS fr by (auto simp: segment_loaded_def Let_def m2 m1 word_less_nat_alt word_le_nat_alt simp flip: ph)
qed

section \<open>The whole image\<close>

definition loading :: "mem \<Rightarrow> u64 \<Rightarrow> fb \<Rightarrow> u64 set \<Rightarrow> nat \<Rightarrow> 'z console_scheme \<Rightarrow> bool" where
  "loading m hdr f S i s \<longleftrightarrow> terminal_ok (kterm s) \<and> tfb (kterm s) = f \<and> screen_bytes (kterm s) = S \<and>
     (\<forall>k < i. loadable m hdr k \<longrightarrow> segment_loaded m hdr k (kmem s)) \<and>
     (\<forall>a. a \<notin> S \<longrightarrow> (\<forall>k. loadable m hdr k \<longrightarrow> a \<notin> segment_bytes m hdr k) \<longrightarrow> kmem s a = m a)"

lemma loading_agree: "image_ok m hdr S \<Longrightarrow> loading m hdr f S i s \<Longrightarrow> agree (image_reads m hdr) m (kmem s)"
  unfolding image_ok_def loading_def agree_def by (meson Int_iff UnI1 disjoint_iff)

lemma segment_loaded_frame:
  assumes "segment_loaded m hdr k m1" "\<And>a. a \<in> segment_bytes m hdr k \<Longrightarrow> m2 a = m1 a"
  shows "segment_loaded m hdr k m2"
proof -
  let ?ph = "phdr m hdr (of_nat k)"
  have "p_vaddr m ?ph + j \<in> segment_bytes m hdr k" if "j < p_filesz m ?ph \<or> j < p_memsz m ?ph" for j
    using that by (auto simp: segment_bytes_def Let_def region_def word_less_nat_alt)
  then show ?thesis using assms by (simp add: segment_loaded_def Let_def)
qed

lemma loading_step:
  assumes ok: "image_ok m hdr S" and inv: "loading m hdr f S i s" and i: "i < unat (e_phnum m hdr)"
    and ph: "ph = phdr m hdr (of_nat i)"
  shows "loading m hdr f S (Suc i) (if p_type (kmem s) ph \<noteq> PT_LOAD then s else load_segment hdr ph s)"
proof (cases "loadable m hdr i")
  case False
  then have "p_type (kmem s) ph \<noteq> PT_LOAD"
    using i ph image_phdr(1) [OF loading_agree [OF ok inv] i ph] by (simp add: loadable_def)
  then show ?thesis using inv False by (auto simp: loading_def less_Suc_eq)
next
  case True
  then have "p_type (kmem s) ph = PT_LOAD"
    using ph image_phdr(1) [OF loading_agree [OF ok inv] i ph] by (simp add: loadable_def)
  moreover have S: "screen_bytes (kterm s) = S" and t: "terminal_ok (kterm s)" and f: "tfb (kterm s) = f"
    using inv by (simp_all add: loading_def)
  note res = load_segment_result [OF ok [folded S] loading_agree [OF ok inv] True t ph refl]
  have clear: "segment_bytes m hdr k \<inter> S = {}" "k \<noteq> i \<Longrightarrow> segment_bytes m hdr k \<inter> segment_bytes m hdr i = {}"
    if "loadable m hdr k" for k using ok that True unfolding image_ok_def by blast+
  have "segment_loaded m hdr k (kmem (load_segment hdr ph s))" if k: "k < i" "loadable m hdr k" for k
  proof (rule segment_loaded_frame)
    show "segment_loaded m hdr k (kmem s)" using inv k by (simp add: loading_def)
    fix a assume a: "a \<in> segment_bytes m hdr k"
    have "a \<notin> screen_bytes (kterm s)" using clear(1) [OF k(2)] a S by blast
    moreover have "a \<notin> segment_bytes m hdr i" using clear(2) [OF k(2)] k(1) a by blast
    ultimately show "kmem (load_segment hdr ph s) a = kmem s a" by (rule res(4))
  qed
  then have "loading m hdr f S (Suc i) (load_segment hdr ph s)"
    using res inv S f True by (auto simp: loading_def less_Suc_eq screen_bytes_def)
  ultimately show ?thesis by simp
qed

lemma load_segments_result:
  assumes "image_ok m hdr S" "loading m hdr f S (unat i) s" "unat i \<le> unat (e_phnum m hdr)"
  shows "loading m hdr f S (unat (e_phnum m hdr)) (load_segments hdr i s)"
  using assms
proof (induction hdr i s rule: load_segments.induct)
  case (1 hdr i s)
  note ag = loading_agree [OF "1.prems"(1,2)]
  have n: "unat (ucast (e_phnum m hdr) :: u32) = unat (e_phnum m hdr)"
    using unat_bound [of "e_phnum m hdr"] by (simp add: unat_ucast_mod)
  show ?case
  proof (cases "unat i < unat (e_phnum m hdr)")
    case False
    then have "unat i = unat (e_phnum m hdr)" "\<not> i < ucast (e_phnum (kmem s) hdr)"
      using "1.prems"(3) image_header(1) [OF ag] n by (simp_all add: word_less_nat_alt)
    then show ?thesis using "1.prems"(2) by (subst load_segments.simps) simp
  next
    case True
    then have lt: "i < ucast (e_phnum (kmem s) hdr)" using image_header(1) [OF ag] n by (simp add: word_less_nat_alt)
    have i1: "unat (i + 1) = Suc (unat i)" by (rule unat_Suc_less [OF lt])
    let ?s = "if p_type (kmem s) (phdr (kmem s) hdr i) \<noteq> PT_LOAD then s else load_segment hdr (phdr (kmem s) hdr i) s"
    have ph: "phdr (kmem s) hdr i = phdr m hdr (of_nat (unat i))" using image_header(2) [OF ag] by simp
    have "loading m hdr f S (unat (i + 1)) ?s"
      unfolding i1 by (rule loading_step [OF "1.prems"(1,2) True ph])
    from "1.IH" [OF lt refl "1.prems"(1) this] i1 True
    show ?thesis by (subst load_segments.simps) (simp add: lt Let_def)
  qed
qed

lemma elf_load_cases:
  "elf_load elf_data s =
     (if bytes_at (kmem s) elf_data [0x7F, 0x45, 0x4C, 0x46] \<and> e_machine (kmem s) elf_data = EM_X86_64
      then (0, Some (e_entry (kmem (load_segments elf_data 0 s)) elf_data), load_segments elf_data 0 s)
      else (-1, None, snd (snd (elf_load elf_data s))))"
  by (auto simp: elf_load_def Let_def add.assoc)

section \<open>Properties\<close>

text \<open>
  C29: \<^verbatim>\<open>elf_load\<close> accepts an x86-64 image whose segments overlap neither each other, the image nor the
  screen: it returns 0 and the entry point, every loadable segment holds its bytes from the file
  followed by zeros, and no other memory off the screen changes.
\<close>

theorem elf_load_correct:
  assumes "bytes_at (kmem s) elf [0x7F, 0x45, 0x4C, 0x46]" "e_machine (kmem s) elf = EM_X86_64"
    and "terminal_ok (kterm s)" "image_ok (kmem s) elf (screen_bytes (kterm s))"
  shows "\<exists>s'. elf_load elf s = (0, Some (e_entry (kmem s) elf), s') \<and> terminal_ok (kterm s') \<and>
    (\<forall>i. loadable (kmem s) elf i \<longrightarrow> segment_loaded (kmem s) elf i (kmem s')) \<and>
    (\<forall>a. a \<notin> screen_bytes (kterm s) \<longrightarrow> (\<forall>i. loadable (kmem s) elf i \<longrightarrow> a \<notin> segment_bytes (kmem s) elf i) \<longrightarrow>
       kmem s' a = kmem s a)"
proof -
  let ?s = "load_segments elf 0 s" and ?S = "screen_bytes (kterm s)"
  have "loading (kmem s) elf (tfb (kterm s)) ?S (unat 0) s" using assms(3) by (simp add: loading_def)
  then have l: "loading (kmem s) elf (tfb (kterm s)) ?S (unat (e_phnum (kmem s) elf)) ?s"
    by (rule load_segments_result [OF assms(4)]) simp
  have "e_entry (kmem ?s) elf = e_entry (kmem s) elf" by (rule image_header(3) [OF loading_agree [OF assms(4) l]])
  then have "elf_load elf s = (0, Some (e_entry (kmem s) elf), ?s)"
    by (subst elf_load_cases) (simp only: assms(1,2) simp_thms if_True)
  then show ?thesis using l by (intro exI [of _ ?s]) (simp add: loading_def loadable_def)
qed

text \<open>A small image: one segment of four bytes, two of them from the file.\<close>

definition demo_image :: mem where
  "demo_image = (\<lambda>_. 0)(0x10000 := 0x7F, 0x10001 := 0x45, 0x10002 := 0x4C, 0x10003 := 0x46, 0x10012 := 0x3E,
     0x1001B := 0x40, 0x10020 := 64, 0x10036 := 56, 0x10038 := 1, 0x10040 := 1, 0x10048 := 120,
     0x10053 := 0x40, 0x10060 := 2, 0x10068 := 4, 0x10078 := 0xAA, 0x10079 := 0xBB)"

definition demo_loader :: console where
  "demo_loader = \<lparr>device = (\<lambda>_ _. 0), io_log = [],
     irq_table = (\<lambda>_. \<lparr>handler = None, irq_name = None, irq_count = 0\<rparr>),
     kterm = terminal_initial fb_initial demo_image, fault = False\<rparr>"

lemma demo_image_fields:
  "e_phnum demo_image 0x10000 = 1" "phdr demo_image 0x10000 0 = 0x10040" "p_type demo_image 0x10040 = PT_LOAD"
  "p_offset demo_image 0x10040 = 120" "p_vaddr demo_image 0x10040 = 0x40000000"
  "p_filesz demo_image 0x10040 = 2" "p_memsz demo_image 0x10040 = 4" "e_machine demo_image 0x10000 = EM_X86_64"
  "e_entry demo_image 0x10000 = 0x40000000"
  by (simp_all add: e_phnum_def phdr_def e_phoff_def e_phentsize_def p_type_def p_offset_def p_vaddr_def p_filesz_def
      p_memsz_def e_machine_def e_entry_def demo_image_def mem_eval)

lemma demo_image_ok: "image_ok demo_image 0x10000 vga_bytes"
proof -
  have l: "loadable demo_image 0x10000 i \<longleftrightarrow> i = 0" for i by (auto simp: loadable_def demo_image_fields)
  have r: "image_reads demo_image 0x10000 = region 0x10000 64 \<union> region 0x10040 56 \<union> region 0x10078 2"
    by (auto simp: image_reads_def l demo_image_fields Let_def lessThan_Suc)
  have s: "segment_bytes demo_image 0x10000 0 = region 0x40000000 4"
    by (simp add: segment_bytes_def demo_image_fields Let_def)
  have "region 0xB8000 4000 \<inter> region 0x40000000 4 = {}" "region 0x10000 64 \<inter> region 0x40000000 4 = {}"
    "region 0x10040 56 \<inter> region 0x40000000 4 = {}" "region 0x10078 2 \<inter> region 0x40000000 4 = {}"
    "region 0x10000 64 \<inter> region 0xB8000 4000 = {}" "region 0x10040 56 \<inter> region 0xB8000 4000 = {}"
    "region 0x10078 2 \<inter> region 0xB8000 4000 = {}"
    by (rule region_disjoint; simp)+
  then show ?thesis unfolding image_ok_def l r vga_bytes_def by (simp add: s) blast
qed

theorem elf_load_correct_witness:
  "\<exists>s'. elf_load 0x10000 demo_loader = (0, Some 0x40000000, s') \<and> kmem s' 0x40000001 = 0xBB \<and> kmem s' 0x40000002 = 0"
proof -
  have k: "kmem demo_loader = demo_image" by (simp add: demo_loader_def terminal_initial_def)
  have t: "terminal_ok (kterm demo_loader)" "screen_bytes (kterm demo_loader) = vga_bytes"
    by (simp_all add: demo_loader_def terminal_initial_def fb_initial_def terminal_ok_def screen_bytes_def)
  have b: "bytes_at (kmem demo_loader) 0x10000 [0x7F, 0x45, 0x4C, 0x46]" unfolding k by (simp add: demo_image_def)
  obtain s' where s': "elf_load 0x10000 demo_loader = (0, Some 0x40000000, s')"
    "segment_loaded demo_image 0x10000 0 (kmem s')"
    using elf_load_correct [OF b _ t(1)] demo_image_ok unfolding k t(2)
    by (auto simp: demo_image_fields loadable_def)
  then have l: "\<forall>k < 2. kmem s' (0x40000000 + k) = demo_image (0x10078 + k)"
    "\<forall>k < 4. 2 \<le> k \<longrightarrow> kmem s' (0x40000000 + k) = 0"
    by (simp_all add: segment_loaded_def demo_image_fields Let_def)
  show ?thesis using s'(1) l(1) [rule_format, of 1] l(2) [rule_format, of 2] by (simp add: demo_image_def)
qed

end
