(* ===== verification/Malloc.thy ===== *)
theory Malloc
  imports Multiboot
begin

text \<open>
  The kernel heap: \<^verbatim>\<open>src/lib/malloc.cpp\<close> over \<^verbatim>\<open>init_heap\<close> and \<^verbatim>\<open>sbrk\<close> of
  \<^verbatim>\<open>src/kernel/kernel.c\<close>. The allocator keeps a singly linked list of blocks in the heap
  memory itself; a header has 24 bytes (\<^verbatim>\<open>size\<close> at 0, \<^verbatim>\<open>is_free\<close> at 8, \<^verbatim>\<open>next\<close> at 16) and the
  data follows it. The list walks are partial functions, since a damaged list may be cyclic.

  The abstraction is the list of the sizes and states of the blocks, which tile the heap
  without gaps from its base on (\<open>reps\<close>, \<open>heap_ok\<close>). \<open>fit_first\<close>, \<open>release\<close> and \<open>merge\<close> are the
  operations on that list; the interface of an allocator is the locale \<open>allocator\<close>.
\<close>

section \<open>The break\<close>

record heap =
  first_block :: u64
  heap_end :: u64
  heap_limit :: u64
  hmem :: mem

partial_function (option) heap_limit_scan :: "mem \<Rightarrow> u64 \<Rightarrow> u32 \<Rightarrow> u64 \<Rightarrow> u64 \<Rightarrow> u64 option" where
  "heap_limit_scan m kernel_addr mmap_end_addr mmap limit =
     (if ucast mmap < mmap_end_addr then
        if mmap_type m mmap = 1 \<and> kernel_addr \<ge> mmap_entry_addr m mmap \<and>
           kernel_addr < mmap_entry_addr m mmap + mmap_len m mmap
        then Some (mmap_entry_addr m mmap + mmap_len m mmap)
        else heap_limit_scan m kernel_addr mmap_end_addr (mmap_next m mmap) limit
      else Some limit)"

definition init_heap :: "u64 \<Rightarrow> multiboot_info \<Rightarrow> heap \<Rightarrow> heap option" where
  "init_heap kernel_end mbd h =
     (if flags mbd AND MULTIBOOT_INFO_MEM_MAP = 0
      then Some (h\<lparr>heap_limit := kernel_end + 16 * 1024 * 1024\<rparr>)
      else map_option (\<lambda>l. h\<lparr>heap_limit := l\<rparr>)
        (heap_limit_scan (hmem h) kernel_end (mmap_addr mbd + mmap_length mbd)
           (ucast (mmap_addr mbd)) (heap_limit h)))"

definition sbrk :: "u64 \<Rightarrow> u64 \<Rightarrow> heap \<Rightarrow> u64 \<times> heap" where
  "sbrk kernel_end increment h =
     (let current_next = heap_end h + increment
      in if current_next > heap_limit h \<or> current_next < kernel_end then (- 1, h)
         else (heap_end h, h\<lparr>heap_end := heap_end h + increment\<rparr>))"

section \<open>Blocks\<close>

abbreviation header_size :: u64 where "header_size \<equiv> 24"

definition blk_size :: "mem \<Rightarrow> u64 \<Rightarrow> u64" where "blk_size m b = rd64 m b"
definition blk_free :: "mem \<Rightarrow> u64 \<Rightarrow> bool" where "blk_free m b \<longleftrightarrow> m (b + 8) \<noteq> 0"
definition blk_next :: "mem \<Rightarrow> u64 \<Rightarrow> u64" where "blk_next m b = rd64 m (b + 16)"

definition set_size :: "u64 \<Rightarrow> u64 \<Rightarrow> mem \<Rightarrow> mem" where "set_size b v m = wr64 m b v"
definition set_free :: "u64 \<Rightarrow> bool \<Rightarrow> mem \<Rightarrow> mem" where "set_free b f m = m(b + 8 := (if f then 1 else 0))"
definition set_next :: "u64 \<Rightarrow> u64 \<Rightarrow> mem \<Rightarrow> mem" where "set_next b v m = wr64 m (b + 16) v"

definition blk_data :: "u64 \<Rightarrow> u64" where "blk_data b = b + header_size"
definition from_data :: "u64 \<Rightarrow> u64" where "from_data p = p - header_size"

definition split_block :: "u64 \<Rightarrow> u64 \<Rightarrow> mem \<Rightarrow> mem" where
  "split_block this requested_size m =
     (if blk_size m this \<ge> requested_size + header_size + 16 then
        let next_block = this + header_size + requested_size;
            m = set_size next_block (blk_size m this - requested_size - header_size) m;
            m = set_free next_block True m;
            m = set_next next_block (blk_next m this) m;
            m = set_size this requested_size m
        in set_next this next_block m
      else m)"

partial_function (option) coalesce :: "u64 \<Rightarrow> mem \<Rightarrow> mem option" where
  "coalesce this m =
     (if blk_next m this \<noteq> 0 \<and> blk_free m this \<and> blk_free m (blk_next m this)
      then let m = set_size this (blk_size m this + (header_size + blk_size m (blk_next m this))) m
           in coalesce this (set_next this (blk_next m (blk_next m this)) m)
      else Some m)"

section \<open>malloc and free\<close>

text \<open>The search: \<open>Inr\<close> is the block found, \<open>Inl\<close> the last block of a list without one.\<close>

partial_function (option) malloc_find :: "mem \<Rightarrow> u64 \<Rightarrow> u64 \<Rightarrow> u64 \<Rightarrow> (u64 + u64) option" where
  "malloc_find m sz current lst =
     (if current \<noteq> 0 then
        if blk_free m current \<and> blk_size m current \<ge> sz then Some (Inr current)
        else malloc_find m sz (blk_next m current) current
      else Some (Inl lst))"

definition round8 :: "u64 \<Rightarrow> u64" where "round8 n = (n + 7) AND NOT 7"

text \<open>The second half of \<^verbatim>\<open>malloc\<close>: a new block from the break.\<close>

definition malloc_grow :: "u64 \<Rightarrow> u64 \<Rightarrow> u64 \<Rightarrow> heap \<Rightarrow> u64 \<times> heap" where
  "malloc_grow kernel_end sz lst h =
     (let (raw_mem, h) = sbrk kernel_end (header_size + sz) h
      in if raw_mem = - 1 then (0, h)
         else
           let m = set_size raw_mem sz (hmem h);
               m = set_free raw_mem False m;
               m = set_next raw_mem 0 m
           in if first_block h = 0
              then (blk_data raw_mem, h\<lparr>hmem := m, first_block := raw_mem\<rparr>)
              else (blk_data raw_mem, h\<lparr>hmem := set_next lst raw_mem m\<rparr>))"

definition malloc :: "u64 \<Rightarrow> u64 \<Rightarrow> heap \<Rightarrow> (u64 \<times> heap) option" where
  "malloc kernel_end n h =
     (if n = 0 then Some (0, h)
      else
        let sz = round8 n
        in case malloc_find (hmem h) sz (first_block h) 0 of
             None \<Rightarrow> None
           | Some (Inr current) \<Rightarrow>
               Some (blk_data current,
                 h\<lparr>hmem := set_free current False (split_block current sz (hmem h))\<rparr>)
           | Some (Inl lst) \<Rightarrow> Some (malloc_grow kernel_end sz lst h))"

partial_function (option) free_walk :: "u64 \<Rightarrow> mem \<Rightarrow> mem option" where
  "free_walk current m =
     (if current \<noteq> 0 then
        (case coalesce current m of
           None \<Rightarrow> None
         | Some m' \<Rightarrow> free_walk (blk_next m' current) m')
      else Some m)"

definition free :: "u64 \<Rightarrow> heap \<Rightarrow> heap option" where
  "free ptr h =
     (if ptr = 0 then Some h
      else map_option (\<lambda>m. h\<lparr>hmem := m\<rparr>)
        (free_walk (first_block h) (set_free (from_data ptr) True (hmem h))))"

section \<open>The list of blocks\<close>

type_synonym block = "nat \<times> bool"

fun extent :: "block list \<Rightarrow> nat" where
  "extent [] = 0"
| "extent ((sz, f) # bs) = 24 + sz + extent bs"

fun reps :: "mem \<Rightarrow> nat \<Rightarrow> block list \<Rightarrow> u64 \<Rightarrow> bool" where
  "reps m a [] nx \<longleftrightarrow> True"
| "reps m a ((sz, f) # bs) nx \<longleftrightarrow>
     blk_size m (of_nat a) = of_nat sz \<and> blk_free m (of_nat a) = f \<and>
     blk_next m (of_nat a) = (if bs = [] then nx else of_nat (a + 24 + sz)) \<and>
     reps m (a + 24 + sz) bs nx"

text \<open>The operations of the allocator on the list.\<close>

fun fit_first :: "nat \<Rightarrow> block list \<Rightarrow> (nat \<times> block list) option" where
  "fit_first n [] = None"
| "fit_first n ((sz, f) # bs) =
     (if f \<and> n \<le> sz
      then Some (0, if n + 40 \<le> sz then (n, False) # (sz - n - 24, True) # bs else (sz, False) # bs)
      else map_option (\<lambda>(d, bs'). (24 + sz + d, (sz, f) # bs')) (fit_first n bs))"

fun release :: "nat \<Rightarrow> block list \<Rightarrow> block list" where
  "release d [] = []"
| "release d ((sz, f) # bs) =
     (if d = 0 then (sz, True) # bs else (sz, f) # release (d - (24 + sz)) bs)"

function absorb :: "block list \<Rightarrow> block list" where
  "absorb ((s, True) # (t, True) # bs) = absorb ((s + (24 + t), True) # bs)"
| "absorb ((s, False) # bs) = (s, False) # bs"
| "absorb ((s, True) # (t, False) # bs) = (s, True) # (t, False) # bs"
| "absorb [(s, True)] = [(s, True)]"
| "absorb [] = []"
  by pat_completeness auto
termination by (relation "measure length") auto

lemma absorb_length: "length (absorb bs) \<le> length bs"
  by (induction bs rule: absorb.induct) auto

function merge :: "block list \<Rightarrow> block list" where
  "merge bs = (case absorb bs of [] \<Rightarrow> [] | b # bs' \<Rightarrow> b # merge bs')"
  by pat_completeness auto
termination
proof (relation "measure length")
  fix bs b bs' assume "absorb bs = b # bs'"
  then show "(bs', bs) \<in> measure length" using absorb_length [of bs] by auto
qed simp

declare merge.simps [simp del]

text \<open>The allocated areas: address and size of the data of every block in use.\<close>

fun areas :: "nat \<Rightarrow> block list \<Rightarrow> (nat \<times> nat) set" where
  "areas a [] = {}"
| "areas a ((sz, f) # bs) = (if f then {} else {(a + 24, sz)}) \<union> areas (a + 24 + sz) bs"

text \<open>The bytes of the headers.\<close>

fun headers :: "nat \<Rightarrow> block list \<Rightarrow> u64 set" where
  "headers a [] = {}"
| "headers a ((sz, f) # bs) = region (of_nat a) 24 \<union> headers (a + 24 + sz) bs"

definition heap_ok :: "u64 \<Rightarrow> nat \<Rightarrow> heap \<Rightarrow> block list \<Rightarrow> bool" where
  "heap_ok kernel_end base h bs \<longleftrightarrow>
     64 \<le> base \<and> unat kernel_end \<le> base \<and> unat (heap_end h) = base + extent bs \<and>
     heap_end h \<le> heap_limit h \<and> unat (heap_limit h) \<le> 2 ^ 63 \<and>
     first_block h = (if bs = [] then 0 else of_nat base) \<and> reps (hmem h) base bs 0"

section \<open>Headers in memory\<close>

lemma unat_nat: "a < 2 ^ 64 \<Longrightarrow> unat (of_nat a :: u64) = a"
  by (rule unat_of_nat_small) simp

text \<open>Bytes at ordinary addresses, below the top of the address space.\<close>

lemma in_nat_region:
  assumes "a + n \<le> 2 ^ 64"
  shows "x \<in> region (of_nat a) n \<longleftrightarrow> a \<le> unat x \<and> unat x < a + n"
proof (cases "n = 0")
  case False
  then have a: "unat (of_nat a :: u64) = a" using assms by (intro unat_nat) simp
  show ?thesis
  proof
    assume "x \<in> region (of_nat a) n"
    then show "a \<le> unat x \<and> unat x < a + n" using region_unat [of x "of_nat a" n] a assms by simp
  next
    assume x: "a \<le> unat x \<and> unat x < a + n"
    have "of_nat a + of_nat (unat x - a) = (of_nat (a + (unat x - a)) :: u64)" by simp
    then have "of_nat a + of_nat (unat x - a) = x" using x by simp
    moreover have "of_nat a + of_nat (unat x - a) \<in> region (of_nat a) n"
      using x unat_bound [of x] by (intro in_region_add) auto
    ultimately show "x \<in> region (of_nat a) n" by simp
  qed
qed simp

lemma hdr_field: "of_nat a + 8 = (of_nat (a + 8) :: u64)" "of_nat a + 16 = (of_nat (a + 16) :: u64)"
  by simp_all

lemma hdr_cong:
  assumes "\<And>x. x \<in> region (of_nat a) 24 \<Longrightarrow> m x = m' x" "a + 24 \<le> 2 ^ 64"
  shows "blk_size m (of_nat a) = blk_size m' (of_nat a)" "blk_free m (of_nat a) = blk_free m' (of_nat a)"
    "blk_next m (of_nat a) = blk_next m' (of_nat a)"
proof -
  have r: "region (of_nat a) 8 \<subseteq> region (of_nat a) 24" "region (of_nat (a + 16)) 8 \<subseteq> region (of_nat a) 24"
    using assms(2) by (auto simp: in_nat_region simp del: of_nat_add)
  show "blk_size m (of_nat a) = blk_size m' (of_nat a)"
    unfolding blk_size_def using r(1) assms(1) by (intro rd64_cong) blast
  show "blk_next m (of_nat a) = blk_next m' (of_nat a)"
    unfolding blk_next_def hdr_field using r(2) assms(1) by (intro rd64_cong) blast
  have "of_nat (a + 8) \<in> region (of_nat a) 24"
    using assms(2) by (simp add: in_nat_region unat_nat del: of_nat_add)
  then have "m (of_nat (a + 8)) = m' (of_nat (a + 8))" by (rule assms(1))
  then show "blk_free m (of_nat a) = blk_free m' (of_nat a)"
    unfolding blk_free_def hdr_field by simp
qed

text \<open>What the three setters do to the header they write, and that they write only there.\<close>

lemma set_outside:
  assumes "x \<notin> region (of_nat a) 24" "a + 24 \<le> 2 ^ 64"
  shows "set_size (of_nat a) v m x = m x" "set_free (of_nat a) f m x = m x"
    "set_next (of_nat a) v m x = m x"
proof -
  have "x \<notin> region (of_nat a) 8" "x \<notin> region (of_nat (a + 16)) 8" "x \<noteq> of_nat (a + 8)"
    using assms by (auto simp: in_nat_region unat_nat simp del: of_nat_add)
  then show "set_size (of_nat a) v m x = m x" "set_free (of_nat a) f m x = m x"
    "set_next (of_nat a) v m x = m x"
    by (simp_all add: set_size_def set_free_def set_next_def hdr_field wr64_outside del: of_nat_add)
qed

lemma set_fields:
  assumes "a + 24 \<le> 2 ^ 64"
  shows "blk_size (set_size (of_nat a) v m) (of_nat a) = v"
    "blk_free (set_size (of_nat a) v m) (of_nat a) = blk_free m (of_nat a)"
    "blk_next (set_size (of_nat a) v m) (of_nat a) = blk_next m (of_nat a)"
    "blk_size (set_free (of_nat a) f m) (of_nat a) = blk_size m (of_nat a)"
    "blk_free (set_free (of_nat a) f m) (of_nat a) = f"
    "blk_next (set_free (of_nat a) f m) (of_nat a) = blk_next m (of_nat a)"
    "blk_size (set_next (of_nat a) v m) (of_nat a) = blk_size m (of_nat a)"
    "blk_free (set_next (of_nat a) v m) (of_nat a) = blk_free m (of_nat a)"
    "blk_next (set_next (of_nat a) v m) (of_nat a) = v"
proof -
  have d: "region (of_nat a) 8 \<inter> region (of_nat (a + 16)) 8 = {}"
    "of_nat (a + 8) \<notin> region (of_nat a) 8" "of_nat (a + 8) \<notin> region (of_nat (a + 16)) 8"
    using assms by (auto simp: in_nat_region unat_nat simp del: of_nat_add)
  note defs = blk_size_def blk_free_def blk_next_def set_size_def set_free_def set_next_def hdr_field
  show "blk_size (set_size (of_nat a) v m) (of_nat a) = v"
    "blk_next (set_next (of_nat a) v m) (of_nat a) = v"
    "blk_free (set_free (of_nat a) f m) (of_nat a) = f"
    by (simp_all add: defs rd64_wr64 del: of_nat_add)
  show "blk_free (set_size (of_nat a) v m) (of_nat a) = blk_free m (of_nat a)"
    "blk_free (set_next (of_nat a) v m) (of_nat a) = blk_free m (of_nat a)"
    using d by (simp_all add: defs wr64_outside del: of_nat_add)
  show "blk_next (set_size (of_nat a) v m) (of_nat a) = blk_next m (of_nat a)"
    "blk_size (set_next (of_nat a) v m) (of_nat a) = blk_size m (of_nat a)"
    using d by (simp_all add: defs rd64_wr64_disjoint Int_commute del: of_nat_add)
  show "blk_size (set_free (of_nat a) f m) (of_nat a) = blk_size m (of_nat a)"
    "blk_next (set_free (of_nat a) f m) (of_nat a) = blk_next m (of_nat a)"
    unfolding defs using d by (auto intro!: rd64_cong simp del: of_nat_add)
qed

lemma reps_cong:
  assumes "a + extent bs \<le> 2 ^ 64" "\<And>x. x \<in> headers a bs \<Longrightarrow> m x = m' x"
  shows "reps m a bs nx = reps m' a bs nx"
  using assms
proof (induction bs arbitrary: a)
  case (Cons b bs)
  obtain sz f where b: "b = (sz, f)" by (cases b)
  have "reps m (a + 24 + sz) bs nx = reps m' (a + 24 + sz) bs nx"
    using Cons.prems by (intro Cons.IH) (auto simp: b add.assoc)
  moreover have "blk_size m (of_nat a) = blk_size m' (of_nat a)" "blk_free m (of_nat a) = blk_free m' (of_nat a)"
    "blk_next m (of_nat a) = blk_next m' (of_nat a)"
    using Cons.prems by (intro hdr_cong; simp add: b)+
  ultimately show ?case by (simp add: b)
qed simp

lemma headers_bound:
  "a + extent bs \<le> 2 ^ 64 \<Longrightarrow> x \<in> headers a bs \<Longrightarrow> a \<le> unat x \<and> unat x < a + extent bs"
proof (induction bs arbitrary: a)
  case (Cons b bs)
  obtain sz f where b: "b = (sz, f)" by (cases b)
  show ?case using Cons.prems Cons.IH [of "a + (24 + sz)"]
    by (auto simp: b in_nat_region add.assoc)
qed simp

lemma extent_append [simp]: "extent (xs @ ys) = extent xs + extent ys"
  by (induction xs rule: extent.induct) auto

lemma headers_append: "headers a (xs @ ys) = headers a xs \<union> headers (a + extent xs) ys"
  by (induction xs arbitrary: a rule: extent.induct) (auto simp: ac_simps)

lemma areas_append: "areas a (xs @ ys) = areas a xs \<union> areas (a + extent xs) ys"
  by (induction xs arbitrary: a rule: extent.induct) (auto simp: ac_simps)

lemma reps_append:
  "ys \<noteq> [] \<Longrightarrow> reps m a (xs @ ys) nx \<longleftrightarrow>
     reps m a xs (of_nat (a + extent xs)) \<and> reps m (a + extent xs) ys nx"
  by (induction xs arbitrary: a rule: extent.induct) (auto simp: ac_simps)

section \<open>The search\<close>

abbreviation ptr :: "nat \<Rightarrow> block list \<Rightarrow> u64" where
  "ptr a bs \<equiv> (if bs = [] then 0 else of_nat a)"

definition fits :: "nat \<Rightarrow> block \<Rightarrow> bool" where
  "fits n b \<longleftrightarrow> snd b \<and> n \<le> fst b"

lemma of_nat_nonzero: "0 < a \<Longrightarrow> a < 2 ^ 64 \<Longrightarrow> (of_nat a :: u64) \<noteq> 0"
  using unat_nat [of a] by fastforce

lemma of_nat_ge: "sz < 2 ^ 64 \<Longrightarrow> n \<le> (of_nat sz :: u64) \<longleftrightarrow> unat n \<le> sz"
  by (simp add: word_le_nat_alt unat_nat)

text \<open>The last block before address \<open>a + extent bs\<close>, with \<open>l\<close> if there is none.\<close>

definition last_block :: "nat \<Rightarrow> block list \<Rightarrow> u64 \<Rightarrow> u64" where
  "last_block a bs l = (if bs = [] then l else of_nat (a + extent (butlast bs)))"

lemma find_none:
  assumes "reps m a bs 0" "0 < a" "a + extent bs < 2 ^ 64" "\<forall>b \<in> set bs. \<not> fits (unat sz) b"
  shows "malloc_find m sz (ptr a bs) l = Some (Inl (last_block a bs l))"
  using assms
proof (induction bs arbitrary: a l)
  case Nil
  then show ?case by (simp add: malloc_find.simps last_block_def)
next
  case (Cons b bs)
  obtain s f where b: "b = (s, f)" by (cases b)
  have IH: "malloc_find m sz (ptr (a + 24 + s) bs) (of_nat a) = Some (Inl (last_block (a + 24 + s) bs (of_nat a)))"
    using Cons.prems by (intro Cons.IH) (auto simp: b)
  have "last_block (a + 24 + s) bs (of_nat a) = last_block a (b # bs) l"
    by (cases bs) (auto simp: last_block_def b)
  then show ?case
    using IH Cons.prems of_nat_nonzero [of a]
    by (subst malloc_find.simps) (auto simp: b fits_def of_nat_ge)
qed

lemma find_some:
  assumes "reps m a (pre @ (s, True) # post) 0" "0 < a" "a + extent (pre @ (s, True) # post) < 2 ^ 64"
    "\<forall>b \<in> set pre. \<not> fits (unat sz) b" "unat sz \<le> s"
  shows "malloc_find m sz (of_nat a) l = Some (Inr (of_nat (a + extent pre)))"
  using assms
proof (induction pre arbitrary: a l)
  case Nil
  then show ?case using of_nat_nonzero [of a] by (subst malloc_find.simps) (auto simp: of_nat_ge)
next
  case (Cons b pre)
  obtain t f where b: "b = (t, f)" by (cases b)
  have "malloc_find m sz (of_nat (a + 24 + t)) (of_nat a) = Some (Inr (of_nat (a + 24 + t + extent pre)))"
    using Cons.prems by (intro Cons.IH) (auto simp: b)
  then show ?case
    using Cons.prems of_nat_nonzero [of a]
    by (subst malloc_find.simps) (auto simp: b fits_def of_nat_ge add.assoc)
qed

lemma first_fit_cases:
  obtains "\<forall>b \<in> set bs. \<not> fits n b"
  | pre s post where "bs = pre @ (s, True) # post" "\<forall>b \<in> set pre. \<not> fits n b" "n \<le> s"
proof (cases "\<exists>b \<in> set bs. fits n b")
  case True
  then obtain pre b post where "bs = pre @ b # post" "fits n b" "\<forall>b \<in> set pre. \<not> fits n b"
    using split_list_first_prop by metis
  then show ?thesis using that(2) [of pre "fst b" post] by (cases b) (auto simp: fits_def)
qed (use that in blast)

section \<open>Splitting\<close>

definition split_list :: "nat \<Rightarrow> nat \<Rightarrow> block list" where
  "split_list n s = (if n + 40 \<le> s then [(n, False), (s - n - 24, True)] else [(s, False)])"

lemma split_extent [simp]: "extent (split_list n s) = 24 + s"
  by (simp add: split_list_def)

lemma split_not_Nil [simp]: "split_list n s \<noteq> []"
  by (simp add: split_list_def)

text \<open>Outside the two headers nothing is written; the second lies in the block's data.\<close>

lemma split_reps:
  assumes blk: "blk_size m (of_nat a) = of_nat s" "blk_next m (of_nat a) = nx"
    and a: "64 \<le> a" "a + 24 + s < 2 ^ 64" and n: "unat sz \<le> s"
    and m': "m' = set_free (of_nat a) False (split_block (of_nat a) sz m)"
  shows "reps m' a (split_list (unat sz) s) nx"
    and "\<And>x. x \<notin> headers a (split_list (unat sz) s) \<Longrightarrow> m' x = m x"
proof -
  have g: "blk_size m (of_nat a) \<ge> sz + 24 + 16 \<longleftrightarrow> unat sz + 40 \<le> s"
  proof -
    have "unat (sz + of_nat 40) = unat sz + 40" using n a by (intro unat_add_of_nat) simp
    then have "unat (sz + 24 + 16) = unat sz + 40" by (simp add: add.assoc)
    then show ?thesis using a unfolding blk by (simp add: word_le_nat_alt unat_nat)
  qed
  have A: "a + 24 \<le> 2 ^ 64" using a by simp
  show "reps m' a (split_list (unat sz) s) nx"
    "\<And>x. x \<notin> headers a (split_list (unat sz) s) \<Longrightarrow> m' x = m x"
  proof -
    let ?c = "a + 24 + unat sz"
    define m1 where "m1 = set_size (of_nat ?c) (of_nat (s - unat sz - 24)) m"
    define m2 where "m2 = set_free (of_nat ?c) True m1"
    define m3 where "m3 = set_next (of_nat ?c) nx m2"
    define m4 where "m4 = set_next (of_nat a) (of_nat ?c) (set_size (of_nat a) sz m3)"
    have "reps m' a (split_list (unat sz) s) nx \<and>
      (\<forall>x. x \<notin> headers a (split_list (unat sz) s) \<longrightarrow> m' x = m x)"
    proof (cases "unat sz + 40 \<le> s")
      case False
      then have "m' = set_free (of_nat a) False m" using g m' by (simp add: split_block_def)
      then show ?thesis using False blk set_fields [OF A] set_outside [OF _ A] by (simp add: split_list_def)
    next
      case True
      have C: "?c + 24 \<le> 2 ^ 64" using True a by simp
      have dis: "x \<notin> region (of_nat ?c) 24" if "x \<in> region (of_nat a) 24" for x
        using that A C by (auto simp: in_nat_region simp del: of_nat_add)
      have "m2 x = m x" "m1 x = m x" if "x \<in> region (of_nat a) 24" for x
        using dis [OF that] C by (simp_all add: m2_def m1_def set_outside del: of_nat_add)
      then have same: "blk_next m2 (of_nat a) = nx" using hdr_cong(3) [of a m2 m] A blk(2) by simp
      have m'4: "m' = set_free (of_nat a) False m4"
        unfolding m' split_block_def m4_def m3_def same [symmetric]
        using g True blk(1) by (simp add: m2_def m1_def Let_def add.assoc diff_diff_eq of_nat_diff)
      have out: "m' x = m x" if "x \<notin> region (of_nat a) 24" "x \<notin> region (of_nat ?c) 24" for x
        using that A C by (simp add: m'4 m4_def m3_def m2_def m1_def set_outside del: of_nat_add)
      have same3: "m' x = m3 x" if "x \<in> region (of_nat ?c) 24" for x
        using that dis A by (metis m'4 m4_def set_outside)
      have c3: "blk_size m' (of_nat ?c) = blk_size m3 (of_nat ?c)" "blk_free m' (of_nat ?c) = blk_free m3 (of_nat ?c)"
        "blk_next m' (of_nat ?c) = blk_next m3 (of_nat ?c)"
        by (rule hdr_cong(1) [OF same3 C] hdr_cong(2) [OF same3 C] hdr_cong(3) [OF same3 C]; assumption)+
      have "blk_size m' (of_nat ?c) = of_nat (s - unat sz - 24)" "blk_free m' (of_nat ?c)" "blk_next m' (of_nat ?c) = nx"
        unfolding c3 m3_def m2_def m1_def set_fields [OF C] by simp_all
      moreover have "blk_size m' (of_nat a) = sz" "\<not> blk_free m' (of_nat a)" "blk_next m' (of_nat a) = of_nat ?c"
        by (simp_all add: m'4 m4_def set_fields [OF A] del: of_nat_add)
      ultimately show ?thesis using True out by (simp add: split_list_def)
    qed
    then show "reps m' a (split_list (unat sz) s) nx"
      "\<And>x. x \<notin> headers a (split_list (unat sz) s) \<Longrightarrow> m' x = m x" by blast+
  qed
qed

section \<open>Coalescing\<close>

lemma absorb_extent [simp]: "extent (absorb bs) = extent bs"
  by (induction bs rule: absorb.induct) auto

lemma absorb_Nil [simp]: "absorb bs = [] \<longleftrightarrow> bs = []"
  by (induction bs rule: absorb.induct) auto

lemma absorb_headers: "headers a (absorb bs) \<subseteq> headers a bs"
  by (induction bs rule: absorb.induct) (auto simp: add.assoc)

lemma absorb_areas: "areas a (absorb bs) = areas a bs"
  by (induction bs rule: absorb.induct) (auto simp: ac_simps)

lemma coalesce_reps:
  assumes "reps m a bs 0" "bs \<noteq> []" "0 < a" "a + extent bs < 2 ^ 64"
  shows "\<exists>m'. coalesce (of_nat a) m = Some m' \<and> reps m' a (absorb bs) 0 \<and>
    (\<forall>x. x \<notin> region (of_nat a) 24 \<longrightarrow> m' x = m x)"
  using assms
proof (induction bs arbitrary: m rule: absorb.induct)
  case (1 s t bs)
  let ?c = "a + 24 + s"
  have A: "a + 24 \<le> 2 ^ 64" and C: "?c + 24 \<le> 2 ^ 64" using "1.prems" by simp_all
  define m1 where "m1 = set_size (of_nat a) (of_nat (s + (24 + t))) m"
  define m2 where "m2 = set_next (of_nat a) (if bs = [] then 0 else of_nat (?c + 24 + t)) m1"
  have R: "blk_size m (of_nat a) = of_nat s" "blk_free m (of_nat a)" "blk_next m (of_nat a) = of_nat ?c"
    "blk_size m (of_nat ?c) = of_nat t" "blk_free m (of_nat ?c)"
    "blk_next m (of_nat ?c) = (if bs = [] then 0 else of_nat (?c + 24 + t))" "reps m (?c + 24 + t) bs 0"
    using "1.prems"(1) by auto
  have out: "m2 x = m x" "m1 x = m x" if "x \<notin> region (of_nat a) 24" for x
    using that A by (simp_all add: m2_def m1_def set_outside)
  have "m1 x = m x" if "x \<in> region (of_nat ?c) 24" for x
    using that A C by (intro out) (auto simp: in_nat_region simp del: of_nat_add)
  then have n1: "blk_next m1 (of_nat ?c) = blk_next m (of_nat ?c)" by (rule hdr_cong(3) [OF _ C])
  have nz: "(of_nat ?c :: u64) \<noteq> 0" using "1.prems" by (intro of_nat_nonzero) simp_all
  have n2: "blk_next m1 (of_nat a) = of_nat ?c"
    unfolding m1_def set_fields(3) [OF A] by (rule R(3))
  have "coalesce (of_nat a) m = coalesce (of_nat a)
      (set_next (of_nat a) (blk_next m1 (blk_next m1 (of_nat a))) m1)"
    using R(1-5) nz unfolding m1_def by (subst coalesce.simps) (simp add: Let_def)
  also have "\<dots> = coalesce (of_nat a) m2"
    unfolding n2 n1 R(6) m2_def ..
  finally have step: "coalesce (of_nat a) m = coalesce (of_nat a) m2" .
  have "headers (?c + 24 + t) bs \<inter> region (of_nat a) 24 = {}"
    using headers_bound [of "?c + 24 + t" bs] "1.prems" A by (fastforce simp: in_nat_region)
  then have "reps m2 (?c + 24 + t) bs 0"
    using R(7) reps_cong [of "?c + 24 + t" bs m2 m 0] out "1.prems" by (auto simp: disjoint_iff)
  then have "reps m2 a ((s + (24 + t), True) # bs) 0"
    using set_fields [OF A] R(2) by (simp add: m2_def m1_def ac_simps)
  then obtain m' where "coalesce (of_nat a) m2 = Some m'" "reps m' a (absorb ((s + (24 + t), True) # bs)) 0"
    "\<forall>x. x \<notin> region (of_nat a) 24 \<longrightarrow> m' x = m2 x"
    using "1.IH" [of m2] "1.prems" by auto
  then show ?case using step out by auto
next
  case (2 s bs)
  then show ?case by (subst coalesce.simps) auto
next
  case (3 s t bs)
  then show ?case by (subst coalesce.simps) auto
next
  case (4 s)
  then show ?case by (subst coalesce.simps) auto
qed simp

lemma merge_Nil [simp]: "merge bs = [] \<longleftrightarrow> bs = []"
  by (subst merge.simps) (auto split: list.splits)

lemma merge_extent [simp]: "extent (merge bs) = extent bs"
proof (induction bs rule: merge.induct)
  case (1 bs)
  show ?case
  proof (cases "absorb bs")
    case (Cons b bs')
    then have "extent (merge bs) = extent (b # bs')"
      using "1.IH" [OF Cons] by (cases b) (simp add: merge.simps [of bs])
    then show ?thesis using Cons absorb_extent [of bs] by simp
  qed (simp add: merge.simps)
qed

lemma merge_areas [simp]: "areas a (merge bs) = areas a bs"
proof (induction bs arbitrary: a rule: merge.induct)
  case (1 bs)
  show ?case
  proof (cases "absorb bs")
    case (Cons b bs')
    then have "areas a (merge bs) = areas a (b # bs')"
      using "1.IH" [OF Cons] by (cases b) (simp add: merge.simps [of bs])
    then show ?thesis using Cons absorb_areas [of a bs] by simp
  qed (simp add: merge.simps)
qed

lemma free_walk_reps:
  assumes "reps m a bs 0" "0 < a" "a + extent bs < 2 ^ 64"
  shows "\<exists>m'. free_walk (ptr a bs) m = Some m' \<and> reps m' a (merge bs) 0 \<and>
    (\<forall>x. x \<notin> headers a bs \<longrightarrow> m' x = m x)"
  using assms
proof (induction bs arbitrary: a m rule: merge.induct)
  case (1 bs)
  show ?case
  proof (cases bs)
    case Nil
    then show ?thesis by (simp add: free_walk.simps merge.simps)
  next
    case (Cons b0 bs0)
    then have ne: "bs \<noteq> []" by simp
    obtain m1 where m1: "coalesce (of_nat a) m = Some m1" "reps m1 a (absorb bs) 0"
      "\<And>x. x \<notin> region (of_nat a) 24 \<Longrightarrow> m1 x = m x"
      using coalesce_reps [OF "1.prems"(1) ne "1.prems"(2,3)] by blast
    obtain s f bs' where ab: "absorb bs = (s, f) # bs'" using ne by (metis absorb_Nil neq_Nil_conv surj_pair)
    let ?c = "a + 24 + s"
    have ext: "extent bs = 24 + s + extent bs'" using absorb_extent [of bs] ab by simp
    have A: "a + 24 \<le> 2 ^ 64" using "1.prems" ext by simp
    have "reps m1 ?c bs' 0" using m1(2) ab by simp
    then obtain m2 where m2: "free_walk (ptr ?c bs') m1 = Some m2" "reps m2 ?c (merge bs') 0"
      "\<And>x. x \<notin> headers ?c bs' \<Longrightarrow> m2 x = m1 x"
      using "1.IH" [OF ab, of m1 ?c] "1.prems" ext by fastforce
    have nz: "(of_nat a :: u64) \<noteq> 0" using "1.prems" by (intro of_nat_nonzero) simp_all
    have "blk_next m1 (of_nat a) = ptr ?c bs'" using m1(2) ab by simp
    then have "free_walk (of_nat a) m = Some m2"
      using nz m1(1) m2(1) by (subst free_walk.simps) simp
    moreover have "m2 x = m1 x" if "x \<in> region (of_nat a) 24" for x
      using that A headers_bound [of ?c bs' x] "1.prems" ext by (intro m2(3)) (auto simp: in_nat_region)
    then have "reps m2 a ((s, f) # merge bs') 0"
      using m1(2) m2(2) hdr_cong [of a m2 m1, OF _ A] by (simp add: ab)
    moreover have "merge bs = (s, f) # merge bs'" by (subst merge.simps) (simp add: ab)
    moreover have "m2 x = m x" if "x \<notin> headers a bs" for x
    proof -
      have "x \<notin> region (of_nat a) 24" "x \<notin> headers ?c bs'"
        using that absorb_headers [of a bs] Cons ab by (cases b0, auto)+
      then show ?thesis using m1(3) m2(3) by simp
    qed
    ultimately show ?thesis using ne by simp
  qed
qed

section \<open>The heap\<close>

lemma heap_okD:
  assumes "heap_ok K B h bs"
  shows "64 \<le> B" "unat K \<le> B" "unat (heap_end h) = B + extent bs" "heap_end h \<le> heap_limit h"
    "unat (heap_limit h) \<le> 2 ^ 63" "first_block h = ptr B bs" "reps (hmem h) B bs 0" "B + extent bs \<le> 2 ^ 63"
  using assms by (auto simp: heap_ok_def word_le_nat_alt)

lemma fit_first_None: "\<forall>b \<in> set bs. \<not> fits n b \<Longrightarrow> fit_first n bs = None"
  by (induction bs) (auto simp: fits_def)

lemma fit_first_Some:
  "\<forall>b \<in> set pre. \<not> fits n b \<Longrightarrow> n \<le> s \<Longrightarrow>
     fit_first n (pre @ (s, True) # post) = Some (extent pre, pre @ split_list n s @ post)"
  by (induction pre) (auto simp: fits_def split_list_def)

lemma malloc_fit:
  assumes ok: "heap_ok K B h bs" and bs: "bs = pre @ (s, True) # post"
    and pre: "\<forall>b \<in> set pre. \<not> fits (unat (round8 n)) b" "unat (round8 n) \<le> s" and n: "n \<noteq> 0"
  shows "\<exists>h'. malloc K n h = Some (of_nat (B + extent pre + 24), h') \<and>
    heap_ok K B h' (pre @ split_list (unat (round8 n)) s @ post) \<and>
    (\<forall>x. x \<notin> headers B (pre @ split_list (unat (round8 n)) s @ post) \<longrightarrow> hmem h' x = hmem h x)"
proof -
  note okD = heap_okD [OF ok]
  let ?c = "B + extent pre" and ?sp = "split_list (unat (round8 n)) s"
  define m' where "m' = set_free (of_nat ?c) False (split_block (of_nat ?c) (round8 n) (hmem h))"
  have lim: "B + extent (pre @ (s, True) # post) < 2 ^ 64" using okD(8) bs by simp
  have find: "malloc_find (hmem h) (round8 n) (first_block h) 0 = Some (Inr (of_nat ?c))"
    using find_some [of "hmem h" B pre s post "round8 n" 0] okD bs pre lim by simp
  have R: "reps (hmem h) B pre (of_nat ?c)" "reps (hmem h) ?c ((s, True) # post) 0"
    using okD(7) reps_append [of "(s, True) # post" "hmem h" B pre 0] bs by auto
  note sp = split_reps [of "hmem h" ?c s "ptr (?c + 24 + s) post" "round8 n" m', OF _ _ _ _ pre(2) m'_def]
  have sp': "reps m' ?c ?sp (ptr (?c + 24 + s) post)"
    "\<And>x. x \<notin> headers ?c ?sp \<Longrightarrow> m' x = hmem h x"
    using sp R(2) okD(1) lim by (auto simp: add.assoc)
  have out: "x \<notin> headers ?c ?sp" if "x \<in> headers B pre \<or> x \<in> headers (?c + 24 + s) post" for x
    using that lim headers_bound [of B pre x] headers_bound [of "?c + 24 + s" post x]
      headers_bound [of ?c ?sp x] by auto
  have "reps m' B pre (of_nat ?c)" using R(1) reps_cong [of B pre m' "hmem h"] out sp'(2) lim by simp
  moreover have "reps m' (?c + 24 + s) post 0"
    using R(2) reps_cong [of "?c + 24 + s" post m' "hmem h" 0] out sp'(2) lim by simp
  ultimately have "reps m' B (pre @ ?sp @ post) 0"
    using sp'(1) by (cases "post = []") (auto simp: reps_append add.assoc)
  moreover have "malloc K n h = Some (of_nat (?c + 24), h\<lparr>hmem := m'\<rparr>)"
    using find n by (simp add: malloc_def Let_def m'_def blk_data_def)
  ultimately show ?thesis
    using okD sp'(2) bs by (auto simp: heap_ok_def headers_append add.assoc)
qed

lemma sbrk_result:
  assumes ok: "heap_ok K B h bs" and sz: "unat sz \<le> 2 ^ 62 + 8"
  shows "sbrk K (24 + sz) h =
    (if B + extent bs + 24 + unat sz \<le> unat (heap_limit h)
     then (of_nat (B + extent bs), h\<lparr>heap_end := of_nat (B + extent bs + 24 + unat sz)\<rparr>)
     else (- 1, h))"
proof -
  note okD = heap_okD [OF ok]
  have e: "heap_end h = of_nat (B + extent bs)" using okD(3) by (metis of_nat_unat ucast_id)
  have s: "heap_end h + (24 + sz) = of_nat (B + extent bs + 24 + unat sz)" unfolding e by simp
  have u: "unat (of_nat (B + extent bs + 24 + unat sz) :: u64) = B + extent bs + 24 + unat sz"
    using okD(8) sz by (intro unat_nat) simp
  have "\<not> heap_end h + (24 + sz) < K" using okD(2) unfolding s word_less_nat_alt u by simp
  moreover have "heap_end h + (24 + sz) > heap_limit h \<longleftrightarrow> \<not> B + extent bs + 24 + unat sz \<le> unat (heap_limit h)"
    unfolding s word_less_nat_alt u by auto
  ultimately show ?thesis using s e by (simp add: sbrk_def Let_def del: of_nat_add)
qed

lemma append_reps:
  assumes R: "reps m B bs 0" and lim: "B + extent bs + 24 + s < 2 ^ 64"
    and m1: "blk_size m1 (of_nat (B + extent bs)) = of_nat s" "\<not> blk_free m1 (of_nat (B + extent bs))"
      "blk_next m1 (of_nat (B + extent bs)) = 0"
    and out1: "\<And>x. x \<notin> region (of_nat (B + extent bs)) 24 \<Longrightarrow> m1 x = m x"
    and m2: "m2 = (if bs = [] then m1 else set_next (last_block B bs 0) (of_nat (B + extent bs)) m1)"
  shows "reps m2 B (bs @ [(s, False)]) 0" "\<And>x. x \<notin> headers B (bs @ [(s, False)]) \<Longrightarrow> m2 x = m x"
proof -
  let ?e = "B + extent bs"
  have "reps m2 B (bs @ [(s, False)]) 0 \<and> (\<forall>x. x \<notin> headers B (bs @ [(s, False)]) \<longrightarrow> m2 x = m x)"
  proof (cases bs rule: rev_cases)
    case Nil
    then show ?thesis using m1 out1 m2 by simp
  next
    case (snoc pre b)
    obtain t f where b: "b = (t, f)" by (cases b)
    let ?c = "B + extent pre"
    have C: "?c + 24 \<le> 2 ^ 64" and E: "?e + 24 \<le> 2 ^ 64" and e: "?e = ?c + 24 + t"
      using lim snoc b by simp_all
    have m2: "m2 = set_next (of_nat ?c) (of_nat ?e) m1" using m2 snoc by (simp add: last_block_def)
    have out: "m2 x = m x" if "x \<notin> region (of_nat ?c) 24" "x \<notin> region (of_nat ?e) 24" for x
      using that out1 C by (simp add: m2 set_outside del: of_nat_add)
    have "reps m B pre (of_nat ?c)" and Rb: "reps m ?c [(t, f)] 0"
      using R snoc b by (simp_all add: reps_append del: of_nat_add)
    moreover have "m2 x = m x" if "x \<in> headers B pre" for x
      using that headers_bound [of B pre x] lim snoc b C E e by (intro out) (auto simp: in_nat_region simp del: of_nat_add)
    ultimately have 1: "reps m2 B pre (of_nat ?c)" using reps_cong [of B pre m2 m] lim snoc by simp
    have "m1 x = m x" if "x \<in> region (of_nat ?c) 24" for x
      using that C E e by (intro out1) (auto simp: in_nat_region simp del: of_nat_add)
    note c = hdr_cong [of ?c m1 m, OF this C]
    have 2: "blk_size m2 (of_nat ?c) = of_nat t" "blk_free m2 (of_nat ?c) = f" "blk_next m2 (of_nat ?c) = of_nat ?e"
      unfolding m2 set_fields [OF C] using c Rb by (simp_all del: of_nat_add)
    have "m2 x = m1 x" if "x \<in> region (of_nat ?e) 24" for x
      unfolding m2 using that C E e by (intro set_outside) (auto simp: in_nat_region simp del: of_nat_add)
    note ee = hdr_cong [of ?e m2 m1, OF this E]
    have "reps m2 ?c [(t, f), (s, False)] 0" using 2 ee m1 unfolding e by simp
    then have "reps m2 B (pre @ [(t, f), (s, False)]) 0" using 1 by (simp add: reps_append)
    moreover have "m2 x = m x" if "x \<notin> headers B (bs @ [(s, False)])" for x
      using that by (intro out) (simp_all add: snoc b headers_append add.assoc)
    ultimately show ?thesis using snoc b by simp
  qed
  then show "reps m2 B (bs @ [(s, False)]) 0" "\<And>x. x \<notin> headers B (bs @ [(s, False)]) \<Longrightarrow> m2 x = m x"
    by blast+
qed

lemma malloc_none:
  assumes ok: "heap_ok K B h bs" and none: "\<forall>b \<in> set bs. \<not> fits (unat (round8 n)) b"
    and n: "n \<noteq> 0" "unat (round8 n) \<le> 2 ^ 62 + 8"
  shows "if B + extent bs + 24 + unat (round8 n) \<le> unat (heap_limit h)
    then \<exists>h'. malloc K n h = Some (of_nat (B + extent bs + 24), h') \<and>
      heap_ok K B h' (bs @ [(unat (round8 n), False)]) \<and>
      (\<forall>x. x \<notin> headers B (bs @ [(unat (round8 n), False)]) \<longrightarrow> hmem h' x = hmem h x)
    else malloc K n h = Some (0, h)"
proof -
  note okD = heap_okD [OF ok]
  let ?e = "B + extent bs" and ?s = "unat (round8 n)"
  have find: "malloc_find (hmem h) (round8 n) (first_block h) 0 = Some (Inl (last_block B bs 0))"
    using find_none [OF okD(7) _ _ none] okD by simp
  have mal: "malloc K n h = Some (malloc_grow K (round8 n) (last_block B bs 0) h)"
    using n(1) find by (simp add: malloc_def Let_def)
  note br = sbrk_result [OF ok n(2)]
  show ?thesis
  proof (cases "?e + 24 + ?s \<le> unat (heap_limit h)")
    case False
    then have "malloc K n h = Some (0, h)" using br by (simp add: mal malloc_grow_def)
    then show ?thesis using False by simp
  next
    case True
    have lim: "?e + 24 + ?s < 2 ^ 64" and E: "?e + 24 \<le> 2 ^ 64" using True okD(5) by simp_all
    define m1 where "m1 = set_next (of_nat ?e) 0 (set_free (of_nat ?e) False (set_size (of_nat ?e) (round8 n) (hmem h)))"
    define m2 where "m2 = (if bs = [] then m1 else set_next (last_block B bs 0) (of_nat ?e) m1)"
    define h' where "h' = h\<lparr>heap_end := of_nat (?e + 24 + ?s), hmem := m2, first_block := of_nat B\<rparr>"
    have m1: "blk_size m1 (of_nat ?e) = of_nat ?s" "\<not> blk_free m1 (of_nat ?e)" "blk_next m1 (of_nat ?e) = 0"
      unfolding m1_def set_fields [OF E] by simp_all
    have out1: "m1 x = hmem h x" if "x \<notin> region (of_nat ?e) 24" for x
      using that E by (simp add: m1_def set_outside del: of_nat_add)
    have ne: "(of_nat ?e :: u64) \<noteq> - 1"
    proof
      assume "(of_nat ?e :: u64) = - 1"
      then have "unat (of_nat ?e :: u64) = 2 ^ 64 - 1" by (simp add: unsigned_minus_1_eq_mask mask_eq_exp_minus_1)
      then show False using unat_nat [of ?e] lim by simp
    qed
    have "(of_nat B :: u64) \<noteq> 0" using okD lim by (intro of_nat_nonzero) simp_all
    then have "malloc_grow K (round8 n) (last_block B bs 0) h = (of_nat (?e + 24), h')"
      using True ne okD(6) by (auto simp: malloc_grow_def br h'_def m2_def m1_def blk_data_def)
    moreover note ar = append_reps [OF okD(7) lim m1 out1 m2_def]
    moreover have "heap_ok K B h' (bs @ [(?s, False)])"
      using okD ar(1) True unat_nat [OF lim] by (auto simp: heap_ok_def h'_def word_le_nat_alt simp del: of_nat_add)
    ultimately show ?thesis using True by (simp add: mal) (simp add: h'_def)
  qed
qed

lemma unat_round8: "unat n + 7 < 2 ^ 64 \<Longrightarrow> unat (round8 n) = 8 * ((unat n + 7) div 8)"
proof -
  assume n: "unat n + 7 < 2 ^ 64"
  have "unat (n + of_nat 7) = unat n + 7" using n by (intro unat_add_of_nat) simp
  moreover have "round8 n = (n + of_nat 7) AND NOT (mask 3)" by (simp add: round8_def mask_eq_exp_minus_1)
  ultimately show ?thesis using unat_and_not_mask [of 3 "n + of_nat 7"] by simp
qed

text \<open>\<^verbatim>\<open>malloc\<close> is the operation on the block list, on every branch.\<close>

lemma malloc_refines:
  assumes ok: "heap_ok K B h bs" and n: "n \<noteq> 0" "unat n \<le> 2 ^ 62"
  defines "sz \<equiv> 8 * ((unat n + 7) div 8)"
  shows "case fit_first sz bs of
      Some (d, bs') \<Rightarrow> \<exists>h'. malloc K n h = Some (of_nat (B + d + 24), h') \<and> heap_ok K B h' bs' \<and>
        (\<forall>x. x \<notin> headers B bs' \<longrightarrow> hmem h' x = hmem h x)
    | None \<Rightarrow> if B + extent bs + 24 + sz \<le> unat (heap_limit h)
        then \<exists>h'. malloc K n h = Some (of_nat (B + extent bs + 24), h') \<and>
          heap_ok K B h' (bs @ [(sz, False)]) \<and>
          (\<forall>x. x \<notin> headers B (bs @ [(sz, False)]) \<longrightarrow> hmem h' x = hmem h x)
        else malloc K n h = Some (0, h)"
proof -
  have r: "unat (round8 n) = sz" using n(2) unfolding sz_def by (intro unat_round8) simp
  have le: "unat (round8 n) \<le> 2 ^ 62 + 8" unfolding r sz_def using n(2) by simp
  show ?thesis
  proof (cases rule: first_fit_cases [of bs sz])
    case 1
    then have none: "\<forall>b \<in> set bs. \<not> fits (unat (round8 n)) b" by (simp add: r)
    show ?thesis using malloc_none [OF ok none n(1) le] unfolding r fit_first_None [OF 1] by (simp only: option.case)
  next
    case (2 pre s post)
    have "\<forall>b \<in> set pre. \<not> fits (unat (round8 n)) b" "unat (round8 n) \<le> s" using 2 by (simp_all add: r)
    from malloc_fit [OF ok 2(1) this n(1)] show ?thesis
      unfolding r 2(1) fit_first_Some [OF 2(2,3)] by (simp only: option.case prod.case)
  qed
qed

lemma release_append: "release (extent pre) (pre @ (s, f) # post) = pre @ (s, True) # post"
  by (induction pre) auto

lemma areas_member:
  "(p, s) \<in> areas a bs \<Longrightarrow> \<exists>pre post. bs = pre @ (s, False) # post \<and> p = a + extent pre + 24"
proof (induction bs arbitrary: a)
  case (Cons b bs)
  obtain t f where b: "b = (t, f)" by (cases b)
  show ?case
  proof (cases "(p, s) \<in> areas (a + 24 + t) bs")
    case True
    then obtain pre post where "bs = pre @ (s, False) # post" "p = a + 24 + t + extent pre + 24"
      using Cons.IH by blast
    then show ?thesis by (intro exI [of _ "b # pre"] exI [of _ post]) (simp add: b)
  next
    case False
    then show ?thesis using Cons.prems by (intro exI [of _ "[]"] exI [of _ bs]) (auto simp: b split: if_splits)
  qed
qed simp

lemma free_refines:
  assumes ok: "heap_ok K B h bs" and p: "(p, s) \<in> areas B bs"
  shows "\<exists>h'. free (of_nat p) h = Some h' \<and> heap_ok K B h' (merge (release (p - (B + 24)) bs)) \<and>
    (\<forall>x. x \<notin> headers B bs \<longrightarrow> hmem h' x = hmem h x)"
proof -
  note okD = heap_okD [OF ok]
  obtain pre post where bs: "bs = pre @ (s, False) # post" and pp: "p = B + extent pre + 24"
    using areas_member [OF p] by blast
  let ?c = "B + extent pre" and ?bs = "pre @ (s, True) # post"
  define m1 where "m1 = set_free (of_nat ?c) True (hmem h)"
  have lim: "B + extent bs < 2 ^ 64" and C: "?c + 24 \<le> 2 ^ 64" using okD(8) bs by simp_all
  have out1: "m1 x = hmem h x" if "x \<notin> region (of_nat ?c) 24" for x
    using that C by (simp add: m1_def set_outside del: of_nat_add)
  have R: "reps (hmem h) B pre (of_nat ?c)" "reps (hmem h) ?c ((s, False) # post) 0"
    using okD(7) unfolding bs by (simp_all add: reps_append del: of_nat_add)
  have "m1 x = hmem h x" if "x \<in> headers B pre \<or> x \<in> headers (?c + 24 + s) post" for x
    using that headers_bound [of B pre x] headers_bound [of "?c + 24 + s" post x] lim C bs
    by (intro out1) (auto simp: in_nat_region simp del: of_nat_add)
  then have "reps m1 B pre (of_nat ?c)" "reps m1 (?c + 24 + s) post 0"
    using R reps_cong [of B pre m1 "hmem h"] reps_cong [of "?c + 24 + s" post m1 "hmem h"] lim bs by auto
  then have R1: "reps m1 B ?bs 0"
    using R(2) set_fields(4-6) [OF C] by (simp add: reps_append m1_def del: of_nat_add)
  obtain m2 where m2: "free_walk (ptr B ?bs) m1 = Some m2" "reps m2 B (merge ?bs) 0"
    "\<And>x. x \<notin> headers B ?bs \<Longrightarrow> m2 x = m1 x"
    using free_walk_reps [OF R1] okD(1) lim bs by auto
  have hd: "headers B ?bs = headers B bs" by (simp add: bs headers_append)
  have nz: "(of_nat p :: u64) \<noteq> 0" using pp C lim bs by (intro of_nat_nonzero) simp_all
  have fd: "from_data (of_nat p) = of_nat ?c" by (simp add: from_data_def pp)
  have fb: "first_block h = ptr B ?bs" using okD(6) bs by simp
  have "free (of_nat p) h = Some (h\<lparr>hmem := m2\<rparr>)"
    using nz m2(1) unfolding free_def fd fb m1_def by simp
  moreover have "release (p - (B + 24)) bs = ?bs" using release_append [of pre s False post] by (simp add: pp bs)
  moreover have "heap_ok K B (h\<lparr>hmem := m2\<rparr>) (merge ?bs)"
    using okD m2(2) bs by (simp add: heap_ok_def)
  moreover have "m2 x = hmem h x" if "x \<notin> headers B bs" for x
    using that m2(3) out1 hd by (simp add: bs headers_append)
  ultimately show ?thesis by auto
qed

section \<open>Allocated areas\<close>

lemma areas_bound: "(p, s) \<in> areas a bs \<Longrightarrow> a + 24 \<le> p \<and> p + s \<le> a + extent bs"
  by (induction bs arbitrary: a rule: extent.induct) (fastforce split: if_splits)+

lemma areas_disjoint:
  "(p, s) \<in> areas a bs \<Longrightarrow> (q, t) \<in> areas a bs \<Longrightarrow> (p, s) \<noteq> (q, t) \<Longrightarrow>
     p + s + 24 \<le> q \<or> q + t + 24 \<le> p"
proof (induction bs arbitrary: a)
  case (Cons b bs)
  obtain u f where b: "b = (u, f)" by (cases b)
  show ?case
    using Cons.prems Cons.IH [of "a + 24 + u"] areas_bound [of _ _ "a + 24 + u" bs]
    by (fastforce simp: b split: if_splits)
qed simp

lemma headers_areas:
  "x \<in> headers a bs \<Longrightarrow> (p, s) \<in> areas a bs \<Longrightarrow> a + extent bs \<le> 2 ^ 64 \<Longrightarrow> \<not> (p \<le> unat x \<and> unat x < p + s)"
proof (induction bs arbitrary: a)
  case (Cons b bs)
  obtain u f where b: "b = (u, f)" by (cases b)
  have A: "a + 24 \<le> 2 ^ 64" using Cons.prems b by simp
  show ?case
  proof (cases "x \<in> region (of_nat a) 24")
    case True
    then have "unat x < a + 24" using A by (simp add: in_nat_region)
    then show ?thesis using areas_bound [OF Cons.prems(2)] by simp
  next
    case False
    then have x: "x \<in> headers (a + 24 + u) bs" using Cons.prems b by simp
    then have "a + 24 + u \<le> unat x" using headers_bound [OF _ x] Cons.prems b by simp
    then show ?thesis using Cons.IH [OF x] Cons.prems by (auto simp: b split: if_splits)
  qed
qed simp

lemma fit_first_areas:
  "fit_first n bs = Some (d, bs') \<Longrightarrow>
     extent bs' = extent bs \<and> d + 24 \<le> extent bs \<and>
     (\<exists>s \<ge> n. areas a bs' = insert (a + d + 24, s) (areas a bs)) \<and> (\<forall>s. (a + d + 24, s) \<notin> areas a bs)"
proof (induction bs arbitrary: a d bs')
  case (Cons b bs)
  obtain u f where b: "b = (u, f)" by (cases b)
  show ?case
  proof (cases "f \<and> n \<le> u")
    case True
    have e: "a + (24 + u) = 24 + (a + u)" by simp
    show ?thesis using True Cons.prems areas_bound [of "a + 24" _ "a + (24 + u)" bs]
      by (auto simp: b add.assoc e split: if_splits)
  next
    case False
    then obtain e bs1 where e: "fit_first n bs = Some (e, bs1)" "d = 24 + u + e" "bs' = (u, f) # bs1"
      using Cons.prems by (auto simp: b)
    show ?thesis using Cons.IH [OF e(1), of "a + 24 + u"] e by (auto simp: b add.assoc)
  qed
qed simp

lemma release_areas:
  assumes "(p, s) \<in> areas a bs"
  shows "areas a (release (p - (a + 24)) bs) = areas a bs - {(p, s)}" "extent (release (p - (a + 24)) bs) = extent bs"
proof -
  obtain pre post where bs: "bs = pre @ (s, False) # post" and p: "p = a + extent pre + 24"
    using areas_member [OF assms] by blast
  have r: "release (p - (a + 24)) bs = pre @ (s, True) # post" by (simp add: p bs release_append)
  show "extent (release (p - (a + 24)) bs) = extent bs" unfolding r by (simp add: bs)
  have "(p, s) \<notin> areas a pre" "(p, s) \<notin> areas (a + extent pre + 24 + s) post"
    using areas_bound [of p s a pre] areas_bound [of p s "a + extent pre + 24 + s" post] p by auto
  then show "areas a (release (p - (a + 24)) bs) = areas a bs - {(p, s)}"
    unfolding r by (auto simp: bs p areas_append)
qed

section \<open>The interface of an allocator\<close>

definition area_bytes :: "(nat \<times> nat) set \<Rightarrow> u64 set" where
  "area_bytes A = {x. \<exists>(p, s) \<in> A. p \<le> unat x \<and> unat x < p + s}"

text \<open>
  \<open>rel h A\<close>: the heap \<open>h\<close> has exactly the areas \<open>A\<close> (address and size) handed out. Clients own
  the bytes of their areas: the allocator neither changes nor reads them.
\<close>

locale allocator =
  fixes rel :: "'h \<Rightarrow> (nat \<times> nat) set \<Rightarrow> bool"
    and contents :: "'h \<Rightarrow> mem"
    and store :: "mem \<Rightarrow> 'h \<Rightarrow> 'h"
    and alloc :: "u64 \<Rightarrow> 'h \<Rightarrow> (u64 \<times> 'h) option"
    and dealloc :: "u64 \<Rightarrow> 'h \<Rightarrow> 'h option"
    and max_request :: nat
  assumes separate: "rel h A \<Longrightarrow> (p, s) \<in> A \<Longrightarrow> (q, t) \<in> A \<Longrightarrow> (p, s) \<noteq> (q, t) \<Longrightarrow> p + s \<le> q \<or> q + t \<le> p"
    and in_memory: "rel h A \<Longrightarrow> (p, s) \<in> A \<Longrightarrow> 0 < p \<and> p + s < 2 ^ 64"
    and alloc_result: "rel h A \<Longrightarrow> n \<noteq> 0 \<Longrightarrow> unat n \<le> max_request \<Longrightarrow>
      alloc n h = Some (0, h) \<or>
      (\<exists>p s h'. alloc n h = Some (of_nat p, h') \<and> unat n \<le> s \<and> (\<forall>t. (p, t) \<notin> A) \<and> rel h' (insert (p, s) A) \<and>
         (\<forall>x \<in> area_bytes A. contents h' x = contents h x))"
    and dealloc_result: "rel h A \<Longrightarrow> (p, s) \<in> A \<Longrightarrow>
      \<exists>h'. dealloc (of_nat p) h = Some h' \<and> rel h' (A - {(p, s)}) \<and>
        (\<forall>x \<in> area_bytes (A - {(p, s)}). contents h' x = contents h x)"
    and client_write: "rel h A \<Longrightarrow> (\<And>x. x \<notin> area_bytes A \<Longrightarrow> m x = contents h x) \<Longrightarrow>
      rel (store m h) A \<and> contents (store m h) = m"
begin

lemma nonnull: "rel h A \<Longrightarrow> (p, s) \<in> A \<Longrightarrow> (of_nat p :: u64) \<noteq> 0"
  using in_memory [of h A p s] of_nat_nonzero [of p] by simp

lemma alloc_dealloc:
  assumes "rel h A" "n \<noteq> 0" "unat n \<le> max_request" "alloc n h = Some (p, h1)" "p \<noteq> 0"
  shows "\<exists>h2. dealloc p h1 = Some h2 \<and> rel h2 A \<and> (\<forall>x \<in> area_bytes A. contents h2 x = contents h x)"
proof -
  obtain q s where q: "p = of_nat q" "\<forall>t. (q, t) \<notin> A" "rel h1 (insert (q, s) A)"
    "\<forall>x \<in> area_bytes A. contents h1 x = contents h x"
    using alloc_result [OF assms(1-3)] assms(4,5) by auto
  have "insert (q, s) A - {(q, s)} = A" using q(2) by auto
  then show ?thesis using dealloc_result [OF q(3), of q s] q(1,4) by auto
qed

text \<open>Two areas obtained in a row do not overlap, and the first keeps what is written to it.\<close>

lemma alloc_twice:
  assumes "rel h A" "n \<noteq> 0" "unat n \<le> max_request" "n' \<noteq> 0" "unat n' \<le> max_request"
    and p: "alloc n h = Some (p, h1)" "p \<noteq> 0"
    and m: "\<And>x. x \<notin> region p (unat n) \<Longrightarrow> m x = contents h1 x"
    and q: "alloc n' (store m h1) = Some (q, h2)" "q \<noteq> 0"
  shows "region p (unat n) \<inter> region q (unat n') = {} \<and> (\<forall>x \<in> region p (unat n). contents h2 x = m x)"
proof -
  obtain a s where a: "p = of_nat a" "unat n \<le> s" "rel h1 (insert (a, s) A)"
    using alloc_result [OF assms(1-3)] p by auto
  have as: "a + unat n \<le> 2 ^ 64" using in_memory [OF a(3), of a s] a(2) by simp
  then have pa: "x \<in> area_bytes (insert (a, s) A)" if "x \<in> region p (unat n)" for x
    using that a(2) by (auto simp: area_bytes_def a(1) in_nat_region)
  have st: "rel (store m h1) (insert (a, s) A)" "contents (store m h1) = m"
    using client_write [OF a(3), of m] m pa by blast+
  obtain b t where b: "q = of_nat b" "unat n' \<le> t" "\<forall>u. (b, u) \<notin> insert (a, s) A"
    "rel h2 (insert (b, t) (insert (a, s) A))" "\<forall>x \<in> area_bytes (insert (a, s) A). contents h2 x = m x"
    using alloc_result [OF st(1) assms(4,5)] q st(2) by auto
  have "a + s \<le> b \<or> b + t \<le> a" using separate [OF b(4), of a s b t] b(3) by auto
  moreover have "b + unat n' \<le> 2 ^ 64" using in_memory [OF b(4), of b t] b(2) by simp
  ultimately have "region p (unat n) \<inter> region q (unat n') = {}"
    using a(1,2) b(1,2) as by (auto simp: in_nat_region)
  then show ?thesis using b(5) pa by simp
qed

end

definition heap_rel :: "u64 \<Rightarrow> nat \<Rightarrow> heap \<Rightarrow> (nat \<times> nat) set \<Rightarrow> bool" where
  "heap_rel K B h A \<longleftrightarrow> (\<exists>bs. heap_ok K B h bs \<and> A = areas B bs)"

definition store_heap :: "mem \<Rightarrow> heap \<Rightarrow> heap" where
  "store_heap m h = h\<lparr>hmem := m\<rparr>"

lemma headers_not_area:
  "a + extent bs \<le> 2 ^ 64 \<Longrightarrow> x \<in> area_bytes (areas a bs) \<Longrightarrow> x \<notin> headers a bs"
  using headers_areas by (fastforce simp: area_bytes_def)

lemma area_bytes_mono: "A \<subseteq> C \<Longrightarrow> area_bytes A \<subseteq> area_bytes C"
  by (auto simp: area_bytes_def)

lemma malloc_area:
  assumes ok: "heap_ok K B h bs" and n: "n \<noteq> 0" "unat n \<le> 2 ^ 62"
  shows "malloc K n h = Some (0, h) \<or>
    (\<exists>p s h'. malloc K n h = Some (of_nat p, h') \<and> unat n \<le> s \<and> (\<forall>t. (p, t) \<notin> areas B bs) \<and>
      heap_rel K B h' (insert (p, s) (areas B bs)) \<and>
      (\<forall>x \<in> area_bytes (areas B bs). hmem h' x = hmem h x))"
proof -
  let ?sz = "8 * ((unat n + 7) div 8)"
  have sz: "unat n \<le> ?sz" by presburger
  have keep: "\<forall>x \<in> area_bytes (areas B bs). hmem h' x = hmem h x"
    if "heap_ok K B h' bs'" "areas B bs \<subseteq> areas B bs'" "\<forall>x. x \<notin> headers B bs' \<longrightarrow> hmem h' x = hmem h x" for bs' h'
    using that headers_not_area [of B bs'] area_bytes_mono [OF that(2)] heap_okD(8) [OF that(1)] by fastforce
  show ?thesis
  proof (cases "fit_first ?sz bs")
    case (Some r)
    obtain d bs' where r: "r = (d, bs')" by (cases r)
    obtain h' where h': "malloc K n h = Some (of_nat (B + d + 24), h')" "heap_ok K B h' bs'"
      "\<forall>x. x \<notin> headers B bs' \<longrightarrow> hmem h' x = hmem h x"
      using malloc_refines [OF ok n] Some r by auto
    obtain s where s: "?sz \<le> s" "areas B bs' = insert (B + d + 24, s) (areas B bs)" "\<forall>t. (B + d + 24, t) \<notin> areas B bs"
      using fit_first_areas [of ?sz bs d bs' B] Some r by auto
    have "heap_rel K B h' (insert (B + d + 24, s) (areas B bs))" using h'(2) s(2) by (auto simp: heap_rel_def)
    moreover have "\<forall>x \<in> area_bytes (areas B bs). hmem h' x = hmem h x" using h' s(2) by (intro keep) auto
    moreover have "unat n \<le> s" using sz s(1) by (rule le_trans)
    ultimately show ?thesis using h'(1) s(3) by blast
  next
    case None
    let ?p = "B + extent bs + 24" and ?bs = "bs @ [(?sz, False)]"
    have ar: "areas B ?bs = insert (?p, ?sz) (areas B bs)" by (simp add: areas_append)
    have new: "\<forall>t. (?p, t) \<notin> areas B bs" using areas_bound [of ?p _ B bs] by auto
    consider "malloc K n h = Some (0, h)" | h' where "malloc K n h = Some (of_nat ?p, h')"
      "heap_ok K B h' ?bs" "\<forall>x. x \<notin> headers B ?bs \<longrightarrow> hmem h' x = hmem h x"
      using malloc_refines [OF ok n] None by (auto split: if_splits)
    then show ?thesis
    proof cases
      case (2 h')
      have "heap_rel K B h' (insert (?p, ?sz) (areas B bs))" unfolding heap_rel_def using 2(2) ar by metis
      moreover have "\<forall>x \<in> area_bytes (areas B bs). hmem h' x = hmem h x"
        using 2 ar by (intro keep [of h' ?bs]) auto
      ultimately show ?thesis using 2(1) new sz by blast
    qed simp
  qed
qed

interpretation kheap: allocator "heap_rel K B" hmem store_heap "malloc K" free "2 ^ 62"
proof unfold_locales
  fix h A p s q t
  assume "heap_rel K B h A" "(p, s) \<in> A" "(q, t) \<in> A" "(p, s) \<noteq> (q, t)"
  then show "p + s \<le> q \<or> q + t \<le> p" using areas_disjoint by (fastforce simp: heap_rel_def)
next
  fix h A p s assume "heap_rel K B h A" "(p, s) \<in> A"
  then show "0 < p \<and> p + s < 2 ^ 64" using areas_bound heap_okD(8) by (fastforce simp: heap_rel_def)
next
  fix h A and n :: u64 assume "heap_rel K B h A" "n \<noteq> 0" "unat n \<le> 2 ^ 62"
  then show "malloc K n h = Some (0, h) \<or>
      (\<exists>p s h'. malloc K n h = Some (of_nat p, h') \<and> unat n \<le> s \<and> (\<forall>t. (p, t) \<notin> A) \<and>
         heap_rel K B h' (insert (p, s) A) \<and> (\<forall>x \<in> area_bytes A. hmem h' x = hmem h x))"
    using malloc_area unfolding heap_rel_def by metis
next
  fix h A p s assume h: "heap_rel K B h A" and p: "(p, s) \<in> A"
  obtain bs where bs: "heap_ok K B h bs" "A = areas B bs" using h by (auto simp: heap_rel_def)
  obtain h' where h': "free (of_nat p) h = Some h'" "heap_ok K B h' (merge (release (p - (B + 24)) bs))"
    "\<forall>x. x \<notin> headers B bs \<longrightarrow> hmem h' x = hmem h x"
    using free_refines [OF bs(1), of p s] p bs(2) by auto
  have "heap_rel K B h' (A - {(p, s)})"
    using h'(2) release_areas(1) [of p s B bs] p bs(2) by (auto simp: heap_rel_def)
  moreover have "\<forall>x \<in> area_bytes (A - {(p, s)}). hmem h' x = hmem h x"
    using h'(3) headers_not_area [of B bs] area_bytes_mono [of "A - {(p, s)}" A] heap_okD(8) [OF bs(1)] bs(2)
    by fastforce
  ultimately show "\<exists>h'. free (of_nat p) h = Some h' \<and> heap_rel K B h' (A - {(p, s)}) \<and>
      (\<forall>x \<in> area_bytes (A - {(p, s)}). hmem h' x = hmem h x)" using h'(1) by blast
next
  fix h A m assume h: "heap_rel K B h A" and m: "\<And>x. x \<notin> area_bytes A \<Longrightarrow> m x = hmem h x"
  obtain bs where bs: "heap_ok K B h bs" "A = areas B bs" using h by (auto simp: heap_rel_def)
  note okD = heap_okD [OF bs(1)]
  have "m x = hmem h x" if "x \<in> headers B bs" for x
    using that headers_not_area [of B bs] okD(8) bs(2) by (intro m) auto
  then have "reps m B bs 0" using okD(7) reps_cong [of B bs m "hmem h" 0] okD(8) by simp
  then have "heap_ok K B (store_heap m h) bs" using bs(1) by (simp add: heap_ok_def store_heap_def)
  then show "heap_rel K B (store_heap m h) A \<and> hmem (store_heap m h) = m"
    using bs(2) by (auto simp: heap_rel_def store_heap_def)
qed

text \<open>After \<^verbatim>\<open>free\<close> no two neighbouring blocks are free.\<close>

fun tidy :: "block list \<Rightarrow> bool" where
  "tidy ((s, f) # (t, g) # bs) \<longleftrightarrow> \<not> (f \<and> g) \<and> tidy ((t, g) # bs)"
| "tidy bs \<longleftrightarrow> True"

lemma absorb_state: "bs \<noteq> [] \<Longrightarrow> snd (hd (absorb bs)) = snd (hd bs)"
  by (induction bs rule: absorb.induct) auto

lemma absorb_stops: "absorb bs = (s, True) # (t, g) # bs' \<Longrightarrow> \<not> g"
  by (induction bs rule: absorb.induct) auto

lemma merge_Cons: "absorb bs = b # bs' \<Longrightarrow> merge bs = b # merge bs'"
  by (simp add: merge.simps [of bs])

lemma merge_state: "bs \<noteq> [] \<Longrightarrow> snd (hd (merge bs)) = snd (hd bs)"
  using absorb_state [of bs] by (cases "absorb bs") (auto simp: merge_Cons)

lemma merge_tidy: "tidy (merge bs)"
proof (induction bs rule: merge.induct)
  case (1 bs)
  show ?case
  proof (cases "absorb bs")
    case (Cons b bs')
    obtain s f where b: "b = (s, f)" by (cases b)
    show ?thesis
    proof (cases bs')
      case Nil
      then show ?thesis using Cons by (simp add: merge_Cons merge.simps [of "[]"] b)
    next
      case (Cons b2 bs2)
      obtain t g where b2: "b2 = (t, g)" by (cases b2)
      obtain u k ms where ms: "merge bs' = (u, k) # ms" using Cons by (metis list.distinct(1) merge_Nil neq_Nil_conv surj_pair)
      have "k = g" using merge_state [of bs'] Cons b2 ms by simp
      moreover have "\<not> (f \<and> g)" using absorb_stops [of bs s t g bs2] \<open>absorb bs = b # bs'\<close> Cons b b2 by auto
      ultimately show ?thesis using "1.IH" [OF \<open>absorb bs = b # bs'\<close>] ms
        by (simp add: merge_Cons [OF \<open>absorb bs = b # bs'\<close>] b)
    qed
  qed (simp add: merge.simps)
qed

section \<open>Properties\<close>

definition demo_heap :: heap where
  "demo_heap = \<lparr>first_block = 0, heap_end = 0x100000, heap_limit = 0x200000, hmem = \<lambda>_. 0\<rparr>"

lemma demo_heap_ok: "heap_ok 0x100000 0x100000 demo_heap []"
  by (simp add: heap_ok_def demo_heap_def)

lemma demo_heap_rel: "heap_rel 0x100000 0x100000 demo_heap {}"
  using demo_heap_ok by (auto simp: heap_rel_def)

text \<open>
  C12: on a well-formed heap \<^verbatim>\<open>malloc\<close> terminates and acts on the list of blocks as first fit:
  the first free block that is large enough is taken, split when at least 16 bytes of data
  would remain, and otherwise a block is appended at the break; only when the break cannot
  grow is the result null and the heap unchanged. Apart from block headers no byte changes.
\<close>

theorem malloc_first_fit:
  assumes "heap_ok K B h bs" and "n \<noteq> 0" and "unat n \<le> 2 ^ 62"
    and "sz = 8 * ((unat n + 7) div 8)"
  shows "case fit_first sz bs of
      Some (d, bs') \<Rightarrow> \<exists>h'. malloc K n h = Some (of_nat (B + d + 24), h') \<and> heap_ok K B h' bs' \<and>
        (\<forall>x. x \<notin> headers B bs' \<longrightarrow> hmem h' x = hmem h x)
    | None \<Rightarrow> if B + extent bs + 24 + sz \<le> unat (heap_limit h)
        then \<exists>h'. malloc K n h = Some (of_nat (B + extent bs + 24), h') \<and>
          heap_ok K B h' (bs @ [(sz, False)]) \<and>
          (\<forall>x. x \<notin> headers B (bs @ [(sz, False)]) \<longrightarrow> hmem h' x = hmem h x)
        else malloc K n h = Some (0, h)"
  unfolding assms(4) by (rule malloc_refines [OF assms(1-3)])

theorem malloc_first_fit_witness:
  "\<exists>h'. malloc 0x100000 10 demo_heap = Some (0x100018, h') \<and> heap_ok 0x100000 0x100000 h' [(16, False)]"
proof -
  have "(16 :: nat) = 8 * ((unat (10 :: u64) + 7) div 8)" by simp
  from malloc_first_fit [OF demo_heap_ok _ _ this] show ?thesis by (auto simp: demo_heap_def)
qed

text \<open>
  C13: \<^verbatim>\<open>free\<close> of an allocated area terminates, marks its block free and merges every run of
  neighbouring free blocks, so that no two neighbours are free afterwards; it writes only
  block headers.
\<close>

theorem free_merges:
  assumes "heap_ok K B h bs" and "(p, s) \<in> areas B bs"
  shows "\<exists>h' bs'. free (of_nat p) h = Some h' \<and> bs' = merge (release (p - (B + 24)) bs) \<and>
    heap_ok K B h' bs' \<and> tidy bs' \<and> areas B bs' = areas B bs - {(p, s)} \<and>
    (\<forall>x. x \<notin> headers B bs \<longrightarrow> hmem h' x = hmem h x)"
  using free_refines [OF assms] merge_tidy release_areas(1) [OF assms(2)] by fastforce

theorem free_merges_witness:
  "\<exists>h1 h2. malloc 0x100000 10 demo_heap = Some (0x100018, h1) \<and> free 0x100018 h1 = Some h2 \<and>
     heap_ok 0x100000 0x100000 h2 [(16, True)]"
proof -
  obtain h1 where h1: "malloc 0x100000 10 demo_heap = Some (0x100018, h1)" "heap_ok 0x100000 0x100000 h1 [(16, False)]"
    using malloc_refines [OF demo_heap_ok, of 10] by (auto simp: demo_heap_def)
  have "merge [(16, True)] = [(16, True)]" by (simp add: merge.simps)
  then show ?thesis using free_merges [OF h1(2), of "0x100018" 16] h1(1) by auto
qed

text \<open>
  C14: areas handed out by \<^verbatim>\<open>malloc\<close> never overlap: a second area obtained while the first is in
  use, after its owner has written any data to it, is disjoint from it, and the data is kept.
\<close>

theorem malloc_areas_disjoint:
  assumes "heap_rel K B h A" "n \<noteq> 0" "unat n \<le> 2 ^ 62" "n' \<noteq> 0" "unat n' \<le> 2 ^ 62"
    and "malloc K n h = Some (p, h1)" "p \<noteq> 0"
    and "\<forall>x. x \<notin> region p (unat n) \<longrightarrow> m x = hmem h1 x"
    and "malloc K n' (h1\<lparr>hmem := m\<rparr>) = Some (q, h2)" "q \<noteq> 0"
  shows "region p (unat n) \<inter> region q (unat n') = {} \<and> (\<forall>x \<in> region p (unat n). hmem h2 x = m x)"
proof -
  have "m x = hmem h1 x" if "x \<notin> region p (unat n)" for x using assms(8) that by blast
  moreover have "malloc K n' (store_heap m h1) = Some (q, h2)" using assms(9) by (simp add: store_heap_def)
  ultimately show ?thesis using kheap.alloc_twice [OF assms(1-7)] assms(10) by blast
qed

theorem malloc_areas_disjoint_witness:
  "\<exists>h1 h2. malloc 0x100000 10 demo_heap = Some (0x100018, h1) \<and>
     malloc 0x100000 20 h1 = Some (0x100040, h2) \<and> region 0x100018 10 \<inter> region 0x100040 20 = {}"
proof -
  obtain h1 where h1: "malloc 0x100000 10 demo_heap = Some (0x100018, h1)" "heap_ok 0x100000 0x100000 h1 [(16, False)]"
    "heap_limit h1 = 0x200000"
    using malloc_refines [OF demo_heap_ok, of 10]
    by (auto simp: demo_heap_def malloc_def malloc_find.simps malloc_grow_def sbrk_def round8_def Let_def blk_data_def)
  obtain h2 where h2: "malloc 0x100000 20 h1 = Some (0x100040, h2)"
    using malloc_refines [OF h1(2), of 20] h1(3) by auto
  have "malloc 0x100000 20 (h1\<lparr>hmem := hmem h1\<rparr>) = Some (0x100040, h2)" using h2 by simp
  from malloc_areas_disjoint [OF demo_heap_rel _ _ _ _ h1(1) _ _ this]
  have "region 0x100018 10 \<inter> region 0x100040 20 = {}" by simp
  then show ?thesis using h1(1) h2 by blast
qed

text \<open>
  C15: freeing the area just obtained gives back the set of areas in use and leaves the
  contents of all of them as they were.
\<close>

theorem malloc_free_roundtrip:
  assumes "heap_rel K B h A" "n \<noteq> 0" "unat n \<le> 2 ^ 62" "malloc K n h = Some (p, h1)" "p \<noteq> 0"
  shows "\<exists>h2. free p h1 = Some h2 \<and> heap_rel K B h2 A \<and> (\<forall>x \<in> area_bytes A. hmem h2 x = hmem h x)"
  by (rule kheap.alloc_dealloc [OF assms])

theorem malloc_free_roundtrip_witness:
  "\<exists>h1 h2. malloc 0x100000 10 demo_heap = Some (0x100018, h1) \<and> free 0x100018 h1 = Some h2 \<and>
     heap_rel 0x100000 0x100000 h2 {}"
proof -
  obtain h1 where h1: "malloc 0x100000 10 demo_heap = Some (0x100018, h1)"
    using malloc_refines [OF demo_heap_ok, of 10] by (auto simp: demo_heap_def)
  then show ?thesis using malloc_free_roundtrip [OF demo_heap_rel _ _ h1] by auto
qed

text \<open>
  C16: the rounding of \<^verbatim>\<open>malloc\<close> wraps: a request of more than \<open>2 ^ 64 - 8\<close> bytes is rounded to 0,
  and when no block is free and 24 bytes are left the call succeeds with an area of 0 bytes.
\<close>

theorem malloc_huge_request_wraps:
  assumes "heap_ok K B h bs" and "\<forall>b \<in> set bs. \<not> snd b"
    and "B + extent bs + 24 \<le> unat (heap_limit h)" and "2 ^ 64 - 8 < unat n"
  shows "\<exists>p h'. malloc K n h = Some (p, h') \<and> p \<noteq> 0 \<and> heap_rel K B h' (insert (unat p, 0) (areas B bs))"
proof -
  let ?p = "B + extent bs + 24"
  have "n \<noteq> 0" using assms(4) by auto
  have "n + 7 = of_nat (unat n + 7)" by simp
  then have "unat (n + 7) = (unat n + 7) mod 2 ^ 64" by (simp add: unat_word_ariths)
  also have "\<dots> = unat n - (2 ^ 64 - 7)"
    using assms(4) unat_bound [of n] by (simp add: mod_if)
  finally have "unat (n + 7) < 8" using unat_bound [of n] by simp
  then have "unat (round8 n) = 0"
    using unat_and_not_mask [of 3 "n + 7"] by (simp add: round8_def mask_eq_exp_minus_1)
  then have "\<exists>h'. malloc K n h = Some (of_nat ?p, h') \<and> heap_ok K B h' (bs @ [(0, False)])"
    using malloc_none [OF assms(1) _ \<open>n \<noteq> 0\<close>] assms(2,3) by (auto simp: fits_def)
  moreover have "areas B (bs @ [(0, False)]) = insert (?p, 0) (areas B bs)" by (simp add: areas_append)
  moreover have "unat (of_nat ?p :: u64) = ?p" using heap_okD(5) [OF assms(1)] assms(3) by (intro unat_nat) simp
  moreover have "(of_nat ?p :: u64) \<noteq> 0" using heap_okD(5) [OF assms(1)] assms(3) by (intro of_nat_nonzero) simp_all
  ultimately show ?thesis unfolding heap_rel_def by metis
qed

theorem malloc_huge_request_wraps_witness:
  "\<exists>p h'. malloc 0x100000 (- 1) demo_heap = Some (p, h') \<and> p \<noteq> 0 \<and>
     heap_rel 0x100000 0x100000 h' {(unat p, 0)}"
  using malloc_huge_request_wraps [OF demo_heap_ok, of "- 1"]
  by (simp add: demo_heap_def unsigned_minus_1_eq_mask mask_eq_exp_minus_1)

end
