(* ===== verification/Kernel.thy ===== *)
theory Kernel
  imports Effect Driver Elf Malloc
begin

text \<open>
  The kernel at work: the timer and the interrupt handlers of \<^verbatim>\<open>src/kernel/kernel.c\<close> and the kernel's own
  calls of \<^verbatim>\<open>src/lib/syscall.c\<close>.

  Addresses the linker chooses are the record \<open>layout\<close>. Interrupts are delivered where the kernel
  sleeps; \<open>deliver\<close> is \<^verbatim>\<open>irq_dispatch\<close> with the kernel's handlers. \<open>kernel_ok\<close> is the invariant that every
  interrupt and every system call keeps.
\<close>

section \<open>Interrupt handlers\<close>

record layout =
  a_kernel_end :: u64
  a_mmap_buffer :: u64
  a_mb_info :: u64
  a_xhci :: u64
  a_pml4 :: u64
  a_idt :: u64
  a_shell :: u64
  a_user_stack :: u64
  isr_stub :: "u32 \<Rightarrow> u64"
  irq_stub :: "u32 \<Rightarrow> u64"
  isr128_stub :: u64

definition init_pit :: "'z hw_scheme \<Rightarrow> 'z hw_scheme" where
  "init_pit s =
     (let divisor = 1193182 div 100 :: u32;
          s = outb 0x43 0x36 s;
          s = outb 0x40 (ucast (divisor AND 0xFF)) s
      in outb 0x40 (ucast (drop_bit 8 divisor AND 0xFF)) s)"

definition pit_handler :: "'z lapic_scheme \<Rightarrow> 'z lapic_scheme" where
  "pit_handler s = s\<lparr>pit_ticks := pit_ticks s + 1\<rparr>"

fun run_handler :: "u64 \<Rightarrow> irq_handler \<Rightarrow> regs \<Rightarrow> 'z usb_scheme \<Rightarrow> 'z usb_scheme" where
  "run_handler X Pit_handler r s = pit_handler s"
| "run_handler X Ps2_keyboard_handler r s =
     (case ps2_keyboard_handler (kinput s) s of (q, s) \<Rightarrow> s\<lparr>kinput := q\<rparr>)"
| "run_handler X Lapic_timer_handler r s = lapic_timer_handler s"
| "run_handler X Usb_handler_c r s = handle_interrupt X s"

definition deliver :: "layout \<Rightarrow> regs \<Rightarrow> 'z usb_scheme \<Rightarrow> 'z usb_scheme" where
  "deliver L = irq_dispatch (run_handler (a_xhci L))"

section \<open>The kernel's own calls\<close>

text \<open>\<^verbatim>\<open>src/lib/syscall.c\<close>: what the kernel's copy of the C library calls. A string is its bytes.\<close>

definition sys_write :: "u8 list \<Rightarrow> 'z console_scheme \<Rightarrow> 'z console_scheme" where
  "sys_write str s = s\<lparr>kterm := terminal_print str (kterm s)\<rparr>"
definition sys_putchar :: "u8 \<Rightarrow> 'z console_scheme \<Rightarrow> 'z console_scheme" where
  "sys_putchar c s = s\<lparr>kterm := terminal_putchar c (kterm s)\<rparr>"
definition sys_clear :: "'z console_scheme \<Rightarrow> 'z console_scheme" where
  "sys_clear s = s\<lparr>kterm := clear_terminal (kterm s)\<rparr>"
definition sys_shutdown :: "'z hw_scheme \<Rightarrow> 'z hw_scheme" where "sys_shutdown = acpi_shutdown"
definition sys_reboot :: "'z hw_scheme \<Rightarrow> 'z hw_scheme" where "sys_reboot = acpi_reboot"
definition sys_halt :: "'z hw_scheme \<Rightarrow> 'z hw_scheme" where "sys_halt = io_do Hlt"
definition sys_ticks :: "'z lapic_scheme \<Rightarrow> u64" where "sys_ticks s = pit_ticks s"
definition sys_lapic_ticks :: "'z lapic_scheme \<Rightarrow> u64" where "sys_lapic_ticks s = lapic_get_ticks s"
definition sys_input_available :: "'z usb_scheme \<Rightarrow> bool" where "sys_input_available s = input_available (kinput s)"
definition sys_read_char :: "'z usb_scheme \<Rightarrow> int \<times> 'z usb_scheme" where
  "sys_read_char s = (case input_pop (kinput s) of (c, q) \<Rightarrow> (c, s\<lparr>kinput := q\<rparr>))"
definition sys_malloc :: "u64 \<Rightarrow> u64 \<Rightarrow> heap \<Rightarrow> (u64 \<times> heap) option" where "sys_malloc = malloc"
definition sys_free :: "u64 \<Rightarrow> heap \<Rightarrow> heap option" where "sys_free = free"

section \<open>The invariant\<close>

definition kernel_ok :: "'z kernel_scheme \<Rightarrow> bool" where
  "kernel_ok s \<longleftrightarrow> terminal_ok (kterm s) \<and> input_ok (kinput s) \<and> core_installed s \<and>
     handler (irq_table s 32) = Some Pit_handler \<and> handler (irq_table s 33) = Some Ps2_keyboard_handler"

lemma kernel_ok_hw: "kernel_ok s \<Longrightarrow> hw.more s' = hw.more s \<Longrightarrow> kernel_ok s'"
  by (cases s, cases s') (simp add: kernel_ok_def core_installed_def)

lemma kernel_ok_print: "kernel_ok s \<Longrightarrow> kernel_ok (kprintf fmt args s)"
  using kprintf_ok(1) [of s fmt args]
  by (auto simp: kernel_ok_def core_installed_def kprintf_def split: option.splits)

lemma kernel_ok_mem [simp]: "kernel_ok (set_kmem m s) = kernel_ok s"
  by (simp add: kernel_ok_def core_installed_def set_kmem_def terminal_ok_def)

lemma kernel_ok_register: "kernel_ok s \<Longrightarrow> kernel_ok (snd (irq_register v h n s))"
  by (auto simp: kernel_ok_def core_installed_def irq_register_def)

interpretation kdrv: driver_setup kernel_ok
proof
  show "kernel_ok s \<Longrightarrow> hw.more s' = hw.more s \<Longrightarrow> kernel_ok s'" for s s' :: "'z kernel_scheme" by (rule kernel_ok_hw)
  show "kernel_ok s \<Longrightarrow> kernel_ok (kprintf fmt args s)" for s :: "'z kernel_scheme" and fmt args by (rule kernel_ok_print)
  show "kernel_ok s \<Longrightarrow> kernel_ok (snd (irq_register v h n s))" for s :: "'z kernel_scheme" and v h n by (rule kernel_ok_register)
  show "kernel_ok s \<Longrightarrow> kernel_ok (set_kmem m s)" for s :: "'z kernel_scheme" and m by simp
qed (simp_all add: kernel_ok_def core_installed_def input_ok_push)

interpretation ktab: driver_invariant "\<lambda>s. irq_table s = T" for T
proof
  show "irq_table s = T \<Longrightarrow> hw.more s' = hw.more s \<Longrightarrow> irq_table s' = T" for s s' :: "'z usb_scheme"
    by (cases s, cases s') simp
qed (simp_all add: set_kmem_def)

lemma run_handler_table: "irq_table (run_handler X h r s) = irq_table s"
proof (cases h)
  case Ps2_keyboard_handler
  obtain q s1 where "ps2_keyboard_handler (kinput s) s = (q, s1)" by force
  moreover have "irq_table (snd (ps2_keyboard_handler (kinput s) s)) = irq_table s"
    by (simp add: ps2_keyboard_handler_def port_defs Let_def)
  ultimately show ?thesis using Ps2_keyboard_handler by simp
qed (simp_all add: pit_handler_def lapic_timer_handler_def lapic_eoi_def ktab.keep_handle_interrupt)

interpretation kirq: irq_handlers "run_handler X" for X
  by unfold_locales (rule run_handler_table)

section \<open>Interrupts and calls keep the invariant\<close>

lemma run_handler_ok: "kernel_ok s \<Longrightarrow> kernel_ok (run_handler X h r s)"
proof (cases h)
  case Pit_handler
  then show "kernel_ok s \<Longrightarrow> ?thesis" by (simp add: pit_handler_def kernel_ok_def core_installed_def)
next
  case Ps2_keyboard_handler
  assume ok: "kernel_ok s"
  obtain q s1 where k: "ps2_keyboard_handler (kinput s) s = (q, s1)" by force
  then have "hw.more s1 = hw.more s" and q: "q = kinput s \<or> (\<exists>c. q = input_push c (kinput s))"
    by (auto simp: ps2_keyboard_handler_def port_defs Let_def split: if_splits)
  then have s1: "kernel_ok s1" using kernel_ok_hw [OF ok] by blast
  have "input_ok q" using q ok by (auto simp: kernel_ok_def input_ok_push)
  then have "kernel_ok (s1\<lparr>kinput := q\<rparr>)" using s1 by (simp add: kernel_ok_def core_installed_def)
  then show ?thesis using Ps2_keyboard_handler k by simp
next
  case Lapic_timer_handler
  assume "kernel_ok s"
  then have "kernel_ok (s\<lparr>lapic_ticks := lapic_ticks s + 1\<rparr>)" by (simp add: kernel_ok_def core_installed_def)
  then show ?thesis using Lapic_timer_handler
    by (auto simp: lapic_timer_handler_def lapic_eoi_def intro: kernel_ok_hw)
qed (simp add: kdrv.keep_handle_interrupt)

lemma deliver_ok: "kernel_ok s \<Longrightarrow> kernel_ok (deliver L r s)"
proof -
  assume ok: "kernel_ok s"
  define v :: u8 where "v = ucast (vector r)"
  have "hw.more (irq_ack v s) = hw.more s" by (simp add: irq_ack_def)
  then have a: "kernel_ok (irq_ack v s)" by (rule kernel_ok_hw [OF ok])
  have "kernel_ok (irq_ack v s\<lparr>irq_table := (irq_table s)(v := (irq_table s v)\<lparr>irq_count := c\<rparr>)\<rparr>)" for c
    using a by (auto simp: kernel_ok_def core_installed_def)
  then have "kernel_ok (run_handler X h r (irq_ack v s\<lparr>irq_table := (irq_table s)(v := (irq_table s v)\<lparr>irq_count := c\<rparr>)\<rparr>))"
    for X h c by (rule run_handler_ok)
  then show ?thesis using a by (auto simp: deliver_def irq_dispatch_def Let_def v_def [symmetric] split: option.split)
qed

lemma kernel_ok_terminal:
  "kernel_ok s \<Longrightarrow> terminal_ok t \<Longrightarrow> kernel_ok (s\<lparr>kterm := t\<rparr>)"
  by (simp add: kernel_ok_def core_installed_def)

lemma clear_ok: "terminal_ok t \<Longrightarrow> terminal_ok (clear_terminal t)"
  by (rule terminal_cleared) (auto simp: terminal_ok_def fb_cursor_def)

lemma core_handler_ok:
  assumes ok: "kernel_ok s" and run: "effect_core_handler (deliver L) es e s = Done (ret, e', s', es')"
  shows "kernel_ok s'"
proof -
  consider (W) "op e = EFF_WRITE" | (R) "op e = EFF_READ" | (I) "op e = EFF_IOCTL" | (O) "s' = s"
    using run by (auto simp: effect_core_handler_def split: if_splits)
  then show ?thesis
  proof cases
    case W
    then show ?thesis using run ok kernel_ok_terminal [OF ok] write_ok
      by (auto simp: effect_core_handler_def kernel_ok_def)
  next
    case R
    then obtain s1 es1 got q m where h: "hlt_until (\<lambda>s. input_available (kinput s)) (deliver L) es s = Some (s1, es1)"
      and l: "read_loop (arg0 e) (arg1 e) 0 (kinput s1) (kmem s1) = (got, q, m)"
      and s': "s' = set_kmem m (s1\<lparr>kinput := q\<rparr>)"
      using run by (auto simp: effect_core_handler_def split: option.splits prod.splits)
    have "kernel_ok s1" using hlt_until_inv [OF h, of kernel_ok] ok deliver_ok by blast
    moreover from this have "input_ok q" using read_loop_result [OF _ _ l refl] by (simp add: kernel_ok_def)
    ultimately show ?thesis by (simp add: s') (simp add: kernel_ok_def core_installed_def)
  next
    case I
    then have "ioctl es e s = Done (ret, e', s', es')" using run by (simp add: effect_core_handler_def)
    then consider "s' = s" | "s' = s\<lparr>kterm := clear_terminal (kterm s)\<rparr>" | m where "s' = set_kmem m s"
      by (auto simp: ioctl_def split: if_splits option.splits)
    then show ?thesis
    proof cases
      case 2
      have "terminal_ok (kterm s)" using ok by (simp add: kernel_ok_def)
      then show ?thesis using 2 kernel_ok_terminal [OF ok clear_ok] by simp
    qed (use ok in simp_all)
  qed (use ok in simp)
qed

lemma call_ok:
  assumes ok: "kernel_ok s" and run: "exception_handler (deliver L) es r s = Done (r', s', es')"
  shows "kernel_ok s'"
proof -
  have "core_installed s" using ok by (simp add: kernel_ok_def)
  note p = perform_core [OF this, of "deliver L" es "effect_of_regs r"]
  show ?thesis using run core_handler_ok [OF ok]
    by (auto simp: exception_handler_def p Let_def split: if_splits outcome.splits)
qed

lemma core_handler_faults:
  "effect_core_handler dlv es e s \<noteq> Null_Call" "effect_core_handler dlv es e s \<noteq> Divide_Error"
  by (simp_all add: effect_core_handler_def ioctl_def split: option.split prod.split)

lemma call_never_faults:
  assumes "kernel_ok s"
  shows "exception_handler (deliver L) es r s \<noteq> Null_Call \<and> exception_handler (deliver L) es r s \<noteq> Divide_Error"
proof -
  have "core_installed s" using assms by (simp add: kernel_ok_def)
  note p = perform_core [OF this, of "deliver L" es "effect_of_regs r"]
  show ?thesis
    using core_handler_faults [of "deliver L" es "(effect_of_regs r)\<lparr>result := 0, err := 0\<rparr>" s]
    by (auto simp: exception_handler_def p Let_def split: outcome.splits)
qed

definition ready_for_irqs :: "'z kernel_scheme \<Rightarrow> bool" where
  "ready_for_irqs s \<longleftrightarrow> terminal_ok (kterm s) \<and> input_ok (kinput s) \<and> core_installed s \<and>
     handler (irq_table s 32) = None \<and> handler (irq_table s 33) = None"

lemma ready_hw: "ready_for_irqs s \<Longrightarrow> hw.more s' = hw.more s \<Longrightarrow> ready_for_irqs s'"
  by (cases s, cases s') (simp add: ready_for_irqs_def core_installed_def)

lemma ready_registered:
  "ready_for_irqs s \<Longrightarrow> kernel_ok (snd (irq_register 33 Ps2_keyboard_handler n (snd (irq_register 32 Pit_handler n' s))))"
  by (auto simp: ready_for_irqs_def kernel_ok_def core_installed_def irq_register_def)

section \<open>Reading\<close>

text \<open>A keyboard interrupt whose scan code has a character leaves a character to read.\<close>

definition key_code :: "layout \<Rightarrow> 'z usb_scheme \<Rightarrow> u8" where
  "key_code L s = ucast (device s (Out8 0x20 0x20 # io_log s) (In8 0x60))"

definition printable_code :: "u8 \<Rightarrow> bool" where
  "printable_code c \<longleftrightarrow> 0 < c \<and> c < 58 \<and> keyboard_map ! unat c \<noteq> 0"

lemma push_available: "input_ok q \<Longrightarrow> input_available (input_push c q)"
proof -
  assume "input_ok q"
  then have "pending (input_push c q) \<noteq> []"
    by (cases "pending q") (auto simp: iq.contents_push spec_push_def)
  then show ?thesis using \<open>input_ok q\<close> by (simp add: available_pending input_ok_push)
qed

lemma low_code: "c < 58 \<Longrightarrow> c AND 0x80 = 0" for c :: u8
proof -
  assume "c < 58"
  then have "unat c < 2 ^ 7" by (simp add: word_less_nat_alt)
  then have "\<not> bit (unat c) 7" by (simp add: bit_iff_odd)
  then have "\<not> bit c 7" by (simp add: bit_unsigned_iff)
  then have "c AND 2 ^ 7 = 0" using and_exp_eq_0_iff_not_bit by blast
  then show ?thesis by simp
qed

lemma key_pushed:
  assumes "kernel_ok s" "vector r = 33" "printable_code (key_code L s)"
  shows "kinput (deliver L r s) = input_push (keyboard_map ! unat (key_code L s)) (kinput s)"
proof -
  define s0 where "s0 = irq_ack 33 s"
  define s1 where "s1 = s0\<lparr>irq_table := (irq_table s0)(33 := (irq_table s0 33)\<lparr>irq_count := irq_count (irq_table s0 33) + 1\<rparr>)\<rparr>"
  have h: "handler (irq_table s0 33) = Some Ps2_keyboard_handler"
    using assms(1) by (simp add: kernel_ok_def s0_def)
  have d: "deliver L r s = run_handler (a_xhci L) Ps2_keyboard_handler r s1"
    using h assms(2) by (simp add: deliver_def irq_dispatch_def Let_def s0_def s1_def del: run_handler.simps)
  have f: "device s1 = device s" "io_log s1 = Out8 0x20 0x20 # io_log s" "kinput s1 = kinput s"
    by (simp_all add: s1_def s0_def irq_ack_def) (simp add: port_defs)
  define c where "c = key_code L s"
  have c: "0 < c" "c < 58" "keyboard_map ! unat c \<noteq> 0" using assms(3) by (simp_all add: printable_code_def c_def)
  have "fst (inb 0x60 s1) = c" by (simp add: inb_def io_ask_def f c_def key_code_def)
  then have "fst (ps2_keyboard_handler (kinput s1) s1) = input_push (keyboard_map ! unat c) (kinput s1)"
    using c low_code [OF c(2)] by (simp add: ps2_keyboard_handler_def split_beta Let_def)
  then show ?thesis by (simp add: d f(3) c_def split_beta)
qed

lemma key_available:
  "kernel_ok s \<Longrightarrow> vector r = 33 \<Longrightarrow> printable_code (key_code L s) \<Longrightarrow> input_available (kinput (deliver L r s))"
  by (simp add: key_pushed push_available kernel_ok_def)

lemma fold_deliver_ok: "kernel_ok s \<Longrightarrow> kernel_ok (fold (deliver L) es s)"
  by (induction es arbitrary: s) (simp_all add: deliver_ok)

text \<open>The wait is over at the latest when the condition is established.\<close>

lemma hlt_until_prompt:
  assumes "hlt_until stop dlv es s = Some (s', es')" "stop (fold dlv (take k es) s)"
  shows "\<exists>used. es = used @ es' \<and> s' = fold dlv used s \<and> length used \<le> k"
  using assms
proof (induction stop dlv es s arbitrary: k rule: hlt_until.induct)
  case (2 stop dlv e es s)
  show ?case
  proof (cases "stop s")
    case False
    then obtain j where j: "k = Suc j" using "2.prems" by (cases k) auto
    then obtain used where "es = used @ es'" "s' = fold dlv used (dlv e s)" "length used \<le> j"
      using "2.IH" [OF False, of j] "2.prems" False by auto
    then show ?thesis using j by (intro exI [of _ "e # used"]) simp
  qed (use "2.prems" in auto)
qed (auto split: if_splits)

text \<open>What a read of up to \<open>n\<close> bytes to address \<open>p\<close> does once the queue has characters.\<close>

definition reads_pending :: "u64 \<Rightarrow> u64 \<Rightarrow> 'z kernel_scheme \<Rightarrow> u64 \<Rightarrow> 'z kernel_scheme \<Rightarrow> bool" where
  "reads_pending p n s got s' \<longleftrightarrow>
     (let q = pending (kinput s); k = min (unat n) (length q) in
      q \<noteq> [] \<and> unat got = k \<and> pending (kinput s') = drop k q \<and>
      (\<forall>a. kmem s' a = (if unat (a - p) < k then q ! unat (a - p) else kmem s a)))"

lemma read_pending:
  assumes ok: "kernel_ok s" and r: "vector r = 0x80" "ucast (rax r) = EFF_READ"
    and h: "hlt_until (\<lambda>s. input_available (kinput s)) (deliver L) es s = Some (t, es')"
  shows "\<exists>got s'. exception_handler (deliver L) es r s = Done (r\<lparr>rax := got\<rparr>, s', es') \<and>
    reads_pending (rdi r) (rsi r) t got s'"
proof -
  have core: "core_installed s" using ok by (simp add: kernel_ok_def)
  have t: "kernel_ok t" using hlt_until_inv [OF h, of kernel_ok] ok deliver_ok by blast
  have av: "pending (kinput t) \<noteq> []" using hlt_until_stops [OF h] t by (simp add: available_pending kernel_ok_def)
  obtain got q m where l: "read_loop (rdi r) (rsi r) 0 (kinput t) (kmem t) = (got, q, m)" by (metis prod_cases3)
  have "exception_handler (deliver L) es r s = Done (r\<lparr>rax := got\<rparr>, set_kmem m (t\<lparr>kinput := q\<rparr>), es')"
    by (simp add: read_call [OF core r] h l)
  moreover have "reads_pending (rdi r) (rsi r) t got (set_kmem m (t\<lparr>kinput := q\<rparr>))"
    using read_loop_result [OF _ _ l refl] t av by (simp add: reads_pending_def kernel_ok_def Let_def set_kmem_def)
  ultimately show ?thesis by blast
qed

section \<open>Properties\<close>

text \<open>
  C4: a read call returns. It sleeps at most until the first interrupt after which the queue is not
  empty; if among the interrupts to come there is a keyboard interrupt with a printable scan code, it
  returns with at least one pending character (none only for an empty buffer), in the order of the
  queue, stored at the buffer and removed from the queue, and it changes no other memory.
\<close>

theorem read_returns_after_key:
  assumes "kernel_ok s" "vector r = 0x80" "ucast (rax r) = EFF_READ" "es = before @ key # after" "vector key = 33"
    and "printable_code (key_code L (fold (deliver L) before s))"
  shows "\<exists>used es' got s'. es = used @ es' \<and> length used \<le> length before + 1 \<and>
    exception_handler (deliver L) es r s = Done (r\<lparr>rax := got\<rparr>, s', es') \<and>
    reads_pending (rdi r) (rsi r) (fold (deliver L) used s) got s'"
proof -
  let ?k = "length before + 1" and ?stop = "\<lambda>s. input_available (kinput s)"
  have stop: "?stop (fold (deliver L) (take ?k es) s)"
    using key_available [OF fold_deliver_ok [OF assms(1)] assms(5,6)] assms(4) by simp
  obtain t es' where h: "hlt_until ?stop (deliver L) es s = Some (t, es')"
    using hlt_until_returns [of ?stop, OF stop] by blast
  obtain used where "es = used @ es'" "t = fold (deliver L) used s" "length used \<le> ?k"
    using hlt_until_prompt [OF h stop] by blast
  then show ?thesis using read_pending [OF assms(1-3) h] by blast
qed

text \<open>A kernel whose keyboard always answers with the scan code of \<^verbatim>\<open>a\<close>.\<close>

definition demo_layout :: layout where
  "demo_layout = \<lparr>a_kernel_end = 0x200000, a_mmap_buffer = 0x180000, a_mb_info = 0x190000, a_xhci = 0x300000,
     a_pml4 = 0x1000, a_idt = 0x170000, a_shell = 0x160000, a_user_stack = 0x150000, isr_stub = (\<lambda>_. 0),
     irq_stub = (\<lambda>_. 0), isr128_stub = 0\<rparr>"

definition demo_running :: kernel where
  "demo_running = snd (irq_register 33 Ps2_keyboard_handler ''PS/2'' (snd (irq_register 32 Pit_handler ''PIT''
     (demo_kernel\<lparr>device := \<lambda>_ _. 0x1E\<rparr>))))"

lemma demo_kernel_fields:
  "irq_table demo_kernel = (\<lambda>_. \<lparr>handler = None, irq_name = None, irq_count = 0\<rparr>)"
  "kterm demo_kernel = terminal_initial fb_initial demo_usb_mem" "kinput demo_kernel = empty_input"
  by (simp_all add: demo_kernel_def effect_init_default_handlers_def effect_register_def Let_def usb.defs demo_usb_def
      empty_input_def)

lemma demo_running_ok: "kernel_ok demo_running"
proof -
  have "ready_for_irqs (demo_kernel\<lparr>device := \<lambda>_ _. 0x1E\<rparr>)"
    using demo_kernel_installed
    by (simp add: ready_for_irqs_def demo_kernel_fields core_installed_def terminal_ok_def terminal_initial_def
        fb_initial_def empty_input_def input_ok_def)
  then show ?thesis unfolding demo_running_def by (rule ready_registered)
qed

theorem read_returns_after_key_witness:
  "\<exists>s'. exception_handler (deliver demo_layout) [no_regs\<lparr>vector := 33\<rparr>]
     (no_regs\<lparr>vector := 0x80, rax := 2, rdi := 0x5000, rsi := 8\<rparr>) demo_running =
     Done (no_regs\<lparr>vector := 0x80, rax := 1, rdi := 0x5000, rsi := 8\<rparr>, s', []) \<and> kmem s' 0x5000 = 0x61"
proof -
  let ?r = "no_regs\<lparr>vector := 0x80, rax := 2, rdi := 0x5000, rsi := 8\<rparr>" and ?key = "no_regs\<lparr>vector := 33\<rparr>"
  have r: "vector ?r = 0x80" "ucast (rax ?r) = (2 :: u32)" "vector ?key = 33" "rdi ?r = 0x5000" "rsi ?r = 8"
    "?r\<lparr>rax := got\<rparr> = no_regs\<lparr>vector := 0x80, rax := got, rdi := 0x5000, rsi := 8\<rparr>" for got
    by (simp_all add: no_regs_def)
  have d: "key_code demo_layout demo_running = 0x1E" "kinput demo_running = empty_input"
    by (simp_all add: key_code_def demo_running_def irq_register_def demo_kernel_fields)
  have m: "keyboard_map ! 30 = 0x61" by (simp add: keyboard_map_def)
  have p: "printable_code (key_code demo_layout demo_running)" by (simp add: printable_code_def d m)
  have e: "input_ok empty_input" "pending empty_input = []" by (simp_all add: input_ok_def empty_input_def pending_def)
  obtain used es' got s' where u: "[?key] = used @ es'"
      "exception_handler (deliver demo_layout) [?key] ?r demo_running = Done (?r\<lparr>rax := got\<rparr>, s', es')"
      "reads_pending 0x5000 8 (fold (deliver demo_layout) used demo_running) got s'"
    using read_returns_after_key [OF demo_running_ok r(1,2), of "[?key]" "[]" ?key "[]" demo_layout] r p by auto
  have "used \<noteq> []" using u(3) by (auto simp: reads_pending_def d e)
  then have us: "used = [?key]" "es' = []" using u(1) by (auto simp: Cons_eq_append_conv)
  have q: "pending (kinput (fold (deliver demo_layout) used demo_running)) = [0x61]"
    using key_pushed [OF demo_running_ok r(3) p] by (simp add: us d m iq.contents_push e spec_push_def)
  then have "unat got = 1" "kmem s' 0x5000 = 0x61" using u(3) by (auto simp: reads_pending_def)
  moreover from this have "got = 1" by (simp add: word_unat_eq_iff)
  ultimately show ?thesis using u(2) us(2) r(6) by auto
qed

text \<open>
  C36: the interrupt table under any sequence of registrations, removals and interrupts, with the kernel's
  own handlers running: each vector's entry evolves by the operations on that vector alone. The first
  registration holds until it is removed, later ones are refused, and the count is the number of
  interrupts since.
\<close>

theorem irq_table_history:
  "irq_table (fold (irq_op_run (run_handler X)) ops s) v = fold (vector_step v) ops (irq_table s v)"
  by (rule kirq.history)

end
