(* ===== verification/Boot.thy ===== *)
theory Boot
  imports Kernel
begin

text \<open>
  From the boot loader to user mode: \<^verbatim>\<open>kernel_main\<close> of \<^verbatim>\<open>src/kernel/kernel.c\<close>, which calls every component in
  turn, and \<^verbatim>\<open>jump_to_user\<close> of \<^verbatim>\<open>src/kernel/user/user.c\<close>. A part that does not return ends the boot with the
  outcome it has. \<open>running\<close> are the states of the kernel after the start: \<open>kernel_step\<close> is one interrupt or
  one system call.
\<close>

section \<open>User mode\<close>

record user_frame =
  u_rip :: u64
  u_cs :: u64
  u_rflags :: u64
  u_rsp :: u64
  u_ss :: u64
  u_ds :: u16

definition jump_to_user :: "layout \<Rightarrow> 'z console_scheme \<Rightarrow> user_frame option \<times> 'z console_scheme" where
  "jump_to_user L s =
     (case elf_load (a_shell L) s of (rc, e, s) \<Rightarrow>
        if rc \<noteq> 0 then (None, kprintf (''Failed to load ELF'' @ [CHR 0x0A]) [] s)
        else
          let entry = (case e of None \<Rightarrow> 0 | Some v \<Rightarrow> v);
              s = kprintf (''Entry point: %lx'' @ [CHR 0x0A]) [ArgLong entry] s;
              stack_top = a_user_stack L + 16384;
              s = io_do (Set_Interrupts False) s
          in (Some \<lparr>u_rip = entry, u_cs = 0x33, u_rflags = 0x202, u_rsp = stack_top, u_ss = 0x2B, u_ds = 0x2B\<rparr>, s))"

section \<open>Start\<close>

text \<open>Up to \<^verbatim>\<open>sti\<close>: the screen, the tables, the interrupt controllers and the timer.\<close>

definition boot_devices :: "layout \<Rightarrow> multiboot_info \<Rightarrow> idt_table \<Rightarrow> 'z kernel_scheme \<Rightarrow> idt_table \<times> 'z kernel_scheme" where
  "boot_devices L info idt s =
     (let (f, m) = fb_init info (tfb (kterm s)) (kmem s);
          s = s\<lparr>kterm := (kterm s)\<lparr>tfb := f, tmem := m\<rparr>\<rparr>;
          s = s\<lparr>kterm := terminal_initialize (kterm s)\<rparr>;
          s = s\<lparr>kinput := input_init (kinput s)\<rparr>;
          s = irq_init s;
          s = effect_init s;
          s = effect_init_default_handlers s;
          s = pic_remap s;
          s = init_pit s;
          (p, idt, s) = init_idt (isr_stub L) (irq_stub L) (isr128_stub L) (a_idt L) idt s;
          s = snd (irq_register 32 Pit_handler ''PIT'' s);
          s = snd (irq_register 33 Ps2_keyboard_handler ''PS/2'' s);
          s = outb 0x21 0xFC s
      in (idt, io_do (Set_Interrupts True) s))"

partial_function (option) total_ram :: "mem \<Rightarrow> u32 \<Rightarrow> u64 \<Rightarrow> u64 \<Rightarrow> u64 option" where
  [code]: "total_ram m mmap_end mmap ram =
     (if ucast mmap < mmap_end
      then total_ram m mmap_end (mmap_next m mmap) (if mmap_type m mmap = 1 then ram + mmap_len m mmap else ram)
      else Some ram)"

text \<open>The memory map: page allocator, size of the memory, heap.\<close>

definition boot_pmm :: "layout \<Rightarrow> multiboot_info \<Rightarrow> 'z kernel_scheme \<Rightarrow> ('z kernel_scheme, 'z kernel_scheme) outcome" where
  "boot_pmm L info s =
     (case pmm_init info (a_mb_info L) (a_kernel_end L) (kmem s) of
        None \<Rightarrow> Endless
      | Some (Inl NoMemoryMap) \<Rightarrow>
          Done (kprintf (''PMM ERROR: No Multiboot memory map provided!'' @ [CHR 0x0A]) [] s)
      | Some (Inl CorruptEntry) \<Rightarrow>
          Halted (io_do Hlt (io_do (Set_Interrupts False)
            (kprintf (''PANIC: Multiboot mmap entry size is corrupted or overflows buffer!'' @ [CHR 0x0A]) [] s)))
      | Some (Inl RegionOverflow) \<Rightarrow>
          Halted (io_do Hlt (io_do (Set_Interrupts False)
            (kprintf (''PANIC: Mmap region address integer overflow!'' @ [CHR 0x0A]) [] s)))
      | Some (Inr (p, m)) \<Rightarrow> Done (set_kmem m (s\<lparr>kpmm := p\<rparr>)))"

definition boot_heap :: "layout \<Rightarrow> multiboot_info \<Rightarrow> 'z kernel_scheme \<Rightarrow> (heap \<times> 'z kernel_scheme) option" where
  "boot_heap L info s =
     (let max_memory = ucast (mem_upper info * 1024) :: u64;
          bitmap_size = (max_memory div 4096) div 8
      in case (if flags info AND MULTIBOOT_INFO_MEM_MAP \<noteq> 0
               then total_ram (kmem s) (mmap_addr info + mmap_length info) (ucast (mmap_addr info)) 0 else Some 0) of
           None \<Rightarrow> None
         | Some ram \<Rightarrow>
             let s = s\<lparr>g_ram_mb := ram div 1024 div 1024\<rparr>;
                 h = \<lparr>first_block = 0, heap_end = a_kernel_end L + bitmap_size,
                      heap_limit = a_kernel_end L + bitmap_size, hmem = kmem s\<rparr>
             in map_option (\<lambda>h. (h, s)) (init_heap (a_kernel_end L) info h))"

definition boot_drivers :: "layout \<Rightarrow> regs list \<Rightarrow> 'z kernel_scheme \<Rightarrow> ('z kernel_scheme \<times> regs list, 'z kernel_scheme) outcome" where
  "boot_drivers L es s =
     (let s = s\<lparr>ksmbios := smbios_init (kmem s)\<rparr>;
          s = usb_init (a_xhci L) (a_pml4 L) s;
          s = s\<lparr>kacpi := acpi_init (kmem s) (kacpi s)\<rparr>
      in lapic_timer_init (deliver L) 100 es s)"

record 'z booted =
  frame :: "user_frame option"
  gates :: idt_table
  bheap :: heap
  kstate :: "'z kernel_scheme"
  to_come :: "regs list"

text \<open>Sequencing: only a part that returns is followed by the next.\<close>

fun then_do :: "('a, 's) outcome \<Rightarrow> ('a \<Rightarrow> ('b, 's) outcome) \<Rightarrow> ('b, 's) outcome" where
  "then_do (Done a) f = f a"
| "then_do (Halted s) f = Halted s"
| "then_do Asleep f = Asleep"
| "then_do Endless f = Endless"
| "then_do Divide_Error f = Divide_Error"
| "then_do Null_Call f = Null_Call"

text \<open>\<open>None\<close> as frame: \<^verbatim>\<open>kernel_main\<close> returns. A wrong magic number returns at once.\<close>

definition kernel_main ::
  "layout \<Rightarrow> u32 \<Rightarrow> u32 \<Rightarrow> regs list \<Rightarrow> idt_table \<Rightarrow> 'z kernel_scheme \<Rightarrow> ('z booted option, 'z kernel_scheme) outcome" where
  "kernel_main L magic mb2_info_addr es idt s =
     (if magic \<noteq> 0x36d76289 then Done None
      else
        case convert_mb2_to_mb1 (a_mmap_buffer L) mb2_info_addr (kmem s) of
          None \<Rightarrow> Endless
        | Some (Inl DivideError) \<Rightarrow> Divide_Error
        | Some (Inr b) \<Rightarrow>
            (case boot_devices L (g_mb_info b) idt (set_kmem (bmem b) s) of (idt, s) \<Rightarrow>
               then_do (boot_pmm L (g_mb_info b) s) (\<lambda>s.
                 case boot_heap L (g_mb_info b) s of
                   None \<Rightarrow> Endless
                 | Some (h, s) \<Rightarrow>
                     then_do (boot_drivers L es s) (\<lambda>(s, es).
                       case jump_to_user L s of (fr, s) \<Rightarrow>
                         Done (Some \<lparr>frame = fr, gates = idt, bheap = h, kstate = s, to_come = es\<rparr>)))))"

lemma then_do_Done: "then_do x f = Done b \<longleftrightarrow> (\<exists>a. x = Done a \<and> f a = Done b)"
  by (cases x) simp_all

section \<open>From the boot loader to user mode\<close>

text \<open>
  The state the boot loader hands over: the statically allocated tables have their sizes, no frame
  buffer is set up, and the frame buffer the boot information describes can hold a line of text.
\<close>

definition boots_from :: "layout \<Rightarrow> u32 \<Rightarrow> 'z kernel_scheme \<Rightarrow> bool" where
  "boots_from L mb2 s \<longleftrightarrow> length (handlers s) = MAX_HANDLERS \<and> length (buffer (kinput s)) = INPUT_BUFFER_SIZE \<and>
     tfb (kterm s) = fb_initial \<and>
     (\<forall>b f m. convert_mb2_to_mb1 (a_mmap_buffer L) mb2 (kmem s) = Some (Inr b) \<longrightarrow>
        fb_init (g_mb_info b) fb_initial (bmem b) = (f, m) \<longrightarrow> fb_ok f \<longrightarrow> fb_cursor f 0 0)"

lemma terminal_ok_color: "terminal_ok (t\<lparr>terminal_color := c\<rparr>) = terminal_ok t"
  by (simp add: terminal_ok_def)

lemma effect_init_frame:
  "kterm (effect_init_default_handlers (effect_init s)) = kterm s"
  "kinput (effect_init_default_handlers (effect_init s)) = kinput s"
  "irq_table (effect_init_default_handlers (effect_init s)) = irq_table s"
  by (simp_all add: effect_init_default_handlers_def effect_init_def effect_register_def Let_def)

lemma irq_init_frame:
  "kterm (irq_init s) = kterm s" "kinput (irq_init s) = kinput s" "handlers (irq_init s) = handlers s"
  by (simp_all add: irq_init_def)

lemma boot_devices_ok:
  assumes "length (handlers s) = MAX_HANDLERS" "length (buffer (kinput s)) = INPUT_BUFFER_SIZE"
    and fb: "\<And>f m. fb_init info (tfb (kterm s)) (kmem s) = (f, m) \<Longrightarrow> fb_ok f \<Longrightarrow> fb_cursor f 0 0"
  shows "kernel_ok (snd (boot_devices L info idt s))"
proof -
  obtain f m where fm: "fb_init info (tfb (kterm s)) (kmem s) = (f, m)" by force
  define t where "t = terminal_initialize ((kterm s)\<lparr>tfb := f, tmem := m\<rparr>)"
  define s1 where "s1 = s\<lparr>kterm := t, kinput := input_init (kinput s)\<rparr>"
  define s2 where "s2 = effect_init_default_handlers (effect_init (irq_init s1))"
  have "terminal_ok (clear_terminal ((kterm s)\<lparr>tfb := f, tmem := m\<rparr>))" using fb [OF fm] by (intro terminal_cleared) simp
  then have t: "terminal_ok t" by (simp add: t_def terminal_initialize_def terminal_ok_color)
  have "core_installed s2"
    unfolding s2_def using assms(1) by (intro default_handlers_installed) (simp add: irq_init_frame s1_def)
  then have s2: "ready_for_irqs s2"
    using t assms(2) by (simp add: ready_for_irqs_def s2_def effect_init_frame irq_init_frame irq_init_table)
      (simp add: s1_def input_init_def input_ok_def)
  define s3 where "s3 = snd (snd (init_idt (isr_stub L) (irq_stub L) (isr128_stub L) (a_idt L) idt (init_pit (pic_remap s2))))"
  have "hw.more s3 = hw.more s2"
    by (simp add: s3_def init_idt_def init_pit_def pic_remap_def Let_def)
  then have "ready_for_irqs s3" using ready_hw [OF s2] by blast
  then have "kernel_ok (io_do (Set_Interrupts True) (outb 0x21 0xFC
      (snd (irq_register 33 Ps2_keyboard_handler ''PS/2'' (snd (irq_register 32 Pit_handler ''PIT'' s3))))))"
    by (rule kernel_ok_hw [OF ready_registered]) simp
  moreover have "snd (boot_devices L info idt s) = io_do (Set_Interrupts True) (outb 0x21 0xFC
      (snd (irq_register 33 Ps2_keyboard_handler ''PS/2'' (snd (irq_register 32 Pit_handler ''PIT'' s3)))))"
    by (simp add: boot_devices_def fm s3_def s2_def s1_def t_def init_idt_def Let_def)
  ultimately show ?thesis by simp
qed

lemma boot_pmm_ok: "kernel_ok s \<Longrightarrow> boot_pmm L info s = Done s' \<Longrightarrow> kernel_ok s'"
  by (auto simp: boot_pmm_def kernel_ok_print intro: kdrv.K_paging
      split: option.splits sum.splits prod.splits pmm_error.splits)

lemma boot_heap_ok: "kernel_ok s \<Longrightarrow> boot_heap L info s = Some (h, s') \<Longrightarrow> kernel_ok s'"
  by (auto simp: boot_heap_def Let_def kernel_ok_def core_installed_def split: option.splits if_splits)

lemma lapic_write_ok: "kernel_ok s \<Longrightarrow> kernel_ok (lapic_write a v s)"
  by (erule kernel_ok_hw) simp

lemma lapic_timer_init_keeps:
  fixes P :: "'z kernel_scheme \<Rightarrow> bool"
  assumes hw: "\<And>s s'. P s \<Longrightarrow> hw.more s' = hw.more s \<Longrightarrow> P s'" and print: "\<And>s fmt args. P s \<Longrightarrow> P (kprintf fmt args s)"
    and reg: "\<And>s v h n. P s \<Longrightarrow> P (snd (irq_register v h n s))" and dlv: "\<And>e s. e \<in> set es \<Longrightarrow> P s \<Longrightarrow> P (deliver L e s)"
    and "P s" and run: "lapic_timer_init (deliver L) hz es s = Done (s', es')"
  shows "P s'"
proof -
  define s0 where "s0 = lapic_write LAPIC_TIMER_INIT 0xFFFFFFFF (lapic_write LAPIC_LVT_TIMER (ucast LAPIC_TIMER_VECTOR)
    (lapic_write LAPIC_TIMER_DIV 0x3 s))"
  have k0: "P s0" by (rule hw [OF \<open>P s\<close>]) (simp add: s0_def)
  obtain s1 es1 where h: "hlt_until (\<lambda>s. \<not> pit_ticks s - pit_ticks s0 < 5) (deliver L) es s0 = Some (s1, es1)"
    using run by (auto simp: lapic_timer_init_def Let_def s0_def split: option.splits)
  obtain c s2 where r: "lapic_read LAPIC_TIMER_CUR s1 = (c, s2)" by force
  have "P s1" using hlt_until_inv [OF h, of P] k0 dlv by blast
  moreover have "hw.more s2 = hw.more s1"
    using read_more(2) [of "LAPIC_BASE + ucast LAPIC_TIMER_CUR" s1] r unfolding lapic_read_def by simp
  ultimately have k2: "P s2" by (rule hw)
  have "lapic_timer_init (deliver L) hz es s = (case lapic_period hz c of None \<Rightarrow> Divide_Error
      | Some n \<Rightarrow>
          let s = lapic_write LAPIC_LVT_TIMER (ucast LAPIC_TIMER_VECTOR OR push_bit 16 1) s2;
              s = lapic_write LAPIC_TIMER_INIT n s;
              (rc, s) = irq_register LAPIC_TIMER_VECTOR Lapic_timer_handler ''LAPIC Timer'' s;
              s = kprintf (''LAPIC: timer at %d Hz (init=%d)'' @ [CHR 0x0A]) [ArgInt hz, ArgInt n] s
          in Done (s, es1))"
    using h r unfolding lapic_timer_init_def Let_def s0_def [symmetric] by simp
  then obtain n fmt args v where "s' = kprintf fmt args (snd (irq_register LAPIC_TIMER_VECTOR Lapic_timer_handler ''LAPIC Timer''
      (lapic_write LAPIC_TIMER_INIT n (lapic_write LAPIC_LVT_TIMER v s2))))"
    using run unfolding Let_def split_beta by (cases "lapic_period hz c") auto
  moreover have "P (lapic_write LAPIC_TIMER_INIT n (lapic_write LAPIC_LVT_TIMER v s2))"
    by (rule hw [OF k2]) simp
  ultimately show ?thesis using print reg by simp
qed

lemma lapic_timer_init_ok:
  "kernel_ok s \<Longrightarrow> lapic_timer_init (deliver L) hz es s = Done (s', es') \<Longrightarrow> kernel_ok s'"
  by (rule lapic_timer_init_keeps [where P = kernel_ok])
    (auto intro: kernel_ok_hw kernel_ok_print kernel_ok_register deliver_ok)

lemma boot_drivers_ok:
  assumes "kernel_ok s" "boot_drivers L es s = Done (s', es')"
  shows "kernel_ok s'"
proof -
  have k: "kernel_ok (s\<lparr>ksmbios := x\<rparr>)" "kernel_ok (s\<lparr>kacpi := y\<rparr>)" if "kernel_ok s" for s :: "'z kernel_scheme" and x y
    using that by (simp_all add: kernel_ok_def core_installed_def)
  show ?thesis using assms lapic_timer_init_ok [OF k(2) [OF kdrv.keep_usb_init [OF k(1) [OF assms(1)]]]]
    by (auto simp: boot_drivers_def Let_def)
qed

lemma load_segments_ok: "kernel_ok s \<Longrightarrow> kernel_ok (load_segments hdr i s)"
proof (induction hdr i s rule: load_segments.induct)
  case (1 hdr i s)
  have "kernel_ok (load_segment hdr ph s)" for ph
    using "1.prems" by (simp add: load_segment_def Let_def kernel_ok_print)
  then show ?case using 1 by (subst load_segments.simps) (simp add: Let_def)
qed

lemma jump_to_user_ok: "kernel_ok s \<Longrightarrow> kernel_ok (snd (jump_to_user L s))"
  by (auto simp: jump_to_user_def elf_load_def Let_def kernel_ok_print load_segments_ok
      intro!: kdrv.keep_hw(1) kernel_ok_print load_segments_ok)

lemma kernel_main_ok:
  assumes "boots_from L mb2 s" "kernel_main L magic mb2 es idt s = Done (Some b)"
  shows "kernel_ok (kstate b)"
proof -
  obtain c where c: "convert_mb2_to_mb1 (a_mmap_buffer L) mb2 (kmem s) = Some (Inr c)"
    using assms(2) by (auto simp: kernel_main_def split: if_splits option.splits sum.splits boot_error.splits)
  define s0 where "s0 = set_kmem (bmem c) s"
  obtain idt1 s1 where d: "boot_devices L (g_mb_info c) idt s0 = (idt1, s1)" by force
  have "kernel_ok (snd (boot_devices L (g_mb_info c) idt s0))"
    by (rule boot_devices_ok) (use assms(1) c in \<open>auto simp: boots_from_def s0_def set_kmem_def\<close>)
  then have k1: "kernel_ok s1" using d by simp
  obtain s2 h s3 s4 es4 where p: "boot_pmm L (g_mb_info c) s1 = Done s2"
    and hp: "boot_heap L (g_mb_info c) s2 = Some (h, s3)" and dr: "boot_drivers L es s3 = Done (s4, es4)"
    and b: "kstate b = snd (jump_to_user L s4)"
  proof -
    have "then_do (boot_pmm L (g_mb_info c) s1) (\<lambda>s. case boot_heap L (g_mb_info c) s of
          None \<Rightarrow> Endless
        | Some (h, s) \<Rightarrow> then_do (boot_drivers L es s) (\<lambda>(s, es).
            case jump_to_user L s of (fr, s) \<Rightarrow>
              Done (Some \<lparr>frame = fr, gates = idt1, bheap = h, kstate = s, to_come = es\<rparr>))) = Done (Some b)"
      using assms(2) c d by (simp add: kernel_main_def s0_def split: if_splits)
    then show thesis using that
      by (auto simp: then_do_Done split_beta simp del: then_do.simps split: option.splits)
  qed
  have "kernel_ok s4" using boot_drivers_ok [OF boot_heap_ok [OF boot_pmm_ok [OF k1 p] hp] dr] .
  then show ?thesis using jump_to_user_ok b by metis
qed

section \<open>The running kernel\<close>

text \<open>One interrupt, or one system call with the interrupts that arrive while it sleeps.\<close>

inductive kernel_step :: "layout \<Rightarrow> kernel \<Rightarrow> kernel \<Rightarrow> bool" for L where
  interrupt: "kernel_step L s (deliver L r s)"
| call: "exception_handler (deliver L) es r s = Done (r', s', es') \<Longrightarrow> kernel_step L s s'"

inductive running :: "layout \<Rightarrow> kernel \<Rightarrow> bool" for L where
  enter: "boots_from L mb2 s \<Longrightarrow> kernel_main L magic mb2 es idt s = Done (Some b) \<Longrightarrow> frame b \<noteq> None \<Longrightarrow>
    running L (kstate b)"
| step: "running L s \<Longrightarrow> kernel_step L s s' \<Longrightarrow> running L s'"

inductive_cases kernel_step_elim: "kernel_step L s s'"

lemma step_ok: "kernel_step L s s' \<Longrightarrow> kernel_ok s \<Longrightarrow> kernel_ok s'"
  by (erule kernel_step_elim) (auto intro: deliver_ok call_ok)

section \<open>Properties\<close>


text \<open>
  A machine without USB controller and boot information, whose shell image has no segments, and that gets
  five timer interrupts: it reaches user mode.
\<close>

definition boot_image :: mem where
  "boot_image = (\<lambda>_. 0)(0x160000 := 0x7F, 0x160001 := 0x45, 0x160002 := 0x4C, 0x160003 := 0x46, 0x160012 := 0x3E)"

definition demo_boot :: kernel where
  "demo_boot = demo_kernel\<lparr>device := \<lambda>_ _. 0xFFFFFFFF, kterm := terminal_initial fb_initial boot_image\<rparr>"

definition intact :: "kernel \<Rightarrow> bool" where
  "intact s \<longleftrightarrow> kernel_ok s \<and> tfb (kterm s) = fb_initial \<and> changes_within vga_bytes boot_image (kmem s)"

lemma intact_hw: "intact s \<Longrightarrow> hw.more s' = hw.more s \<Longrightarrow> intact s'"
  using kernel_ok_hw [of s s'] by (cases s, cases s') (simp add: intact_def)

lemma intact_print: "intact s \<Longrightarrow> intact (kprintf fmt args s)"
proof -
  assume s: "intact s"
  then have t: "terminal_ok (kterm s)" "screen_bytes (kterm s) = vga_bytes"
    by (simp_all add: intact_def kernel_ok_def screen_bytes_def fb_initial_def)
  show ?thesis using s kernel_ok_print [of s] kprintf_ok(2,3) [OF t(1)] t(2)
    by (simp add: intact_def changes_within_def)
qed

lemma intact_register: "intact s \<Longrightarrow> intact (snd (irq_register v h n s))"
  using kernel_ok_register [of s v h n] by (auto simp: intact_def irq_register_def)

lemma clear_vga_only:
  assumes "\<not> fb_ok (tfb t)"
  shows "changes_within vga_bytes (tmem t) (tmem (clear_terminal t))"
proof -
  have "changes_within vga_bytes (tmem t) (for_loop 0 (VGA_W * VGA_H) (\<lambda>i m. wr16 m (vga_addr i) vga_blank) (tmem t))"
  proof (rule for_loop_inv [where P = "\<lambda>_ m. changes_within vga_bytes (tmem t) m"])
    fix j :: u64 and m assume "j < VGA_W * VGA_H" "changes_within vga_bytes (tmem t) m"
    moreover from this have "region (vga_addr j) 2 \<subseteq> vga_bytes" by (intro vga_cell_bytes) (simp add: word_less_nat_alt)
    ultimately show "changes_within vga_bytes (tmem t) (wr16 m (vga_addr j) vga_blank)"
      by (auto simp: changes_within_def subset_iff intro!: trans [OF wr16_outside])
  qed simp_all
  then show ?thesis using assms by (simp add: clear_terminal_def)
qed

lemma pit_tick:
  assumes "intact s" "vector r = 32"
  shows "intact (deliver L r s) \<and> pit_ticks (deliver L r s) = pit_ticks s + 1"
proof -
  have h: "handler (irq_table s 32) = Some Pit_handler" using assms(1) by (simp add: intact_def kernel_ok_def)
  have f: "kterm (irq_ack v s) = kterm s" "pit_ticks (irq_ack v s) = pit_ticks s" for v by (simp_all add: irq_ack_def port_defs)
  have "kterm (deliver L r s) = kterm s" "pit_ticks (deliver L r s) = pit_ticks s + 1"
    using assms(2) h by (simp_all add: deliver_def irq_dispatch_def Let_def pit_handler_def f)
  then show ?thesis using assms(1) deliver_ok [of s L r] by (simp add: intact_def)
qed

lemma ticks:
  "intact s \<Longrightarrow> vector r = 32 \<Longrightarrow>
     intact (fold (deliver L) (replicate k r) s) \<and> pit_ticks (fold (deliver L) (replicate k r) s) = pit_ticks s + of_nat k"
proof (induction k arbitrary: s)
  case (Suc k)
  then show ?case using pit_tick [OF Suc.prems, of L] by (simp add: algebra_simps)
qed simp

lemma five_ticks:
  fixes s :: kernel
  assumes "intact s" "vector r = 32"
  shows "\<exists>s' es'. lapic_timer_init (deliver L) 100 (replicate 5 r) s = Done (s', es') \<and> intact s'"
proof -
  define s0 where "s0 = lapic_write LAPIC_TIMER_INIT 0xFFFFFFFF (lapic_write LAPIC_LVT_TIMER (ucast LAPIC_TIMER_VECTOR)
    (lapic_write LAPIC_TIMER_DIV 0x3 s))"
  have i0: "intact s0" by (rule intact_hw [OF assms(1)]) (simp add: s0_def)
  have p0: "pit_ticks s0 = pit_ticks s" by (simp add: s0_def)
  have "\<not> pit_ticks (fold (deliver L) (take 5 (replicate 5 r)) s0) - pit_ticks s < 5"
    using ticks [OF i0 assms(2), of L 5] p0 by simp
  then obtain s1 es1 where "hlt_until (\<lambda>t. \<not> pit_ticks t - pit_ticks s < 5) (deliver L) (replicate 5 r) s0 = Some (s1, es1)"
    using hlt_until_returns [of "\<lambda>t. \<not> pit_ticks t - pit_ticks s < 5" "deliver L" 5 "replicate 5 r" s0] by blast
  then obtain s' where s': "lapic_timer_init (deliver L) 100 (replicate 5 r) s = Done (s', es1)"
    using timer_init_done [of s "deliver L" "replicate 5 r" s1 es1 100] by (auto simp: s0_def)
  have "intact s'"
    by (rule lapic_timer_init_keeps [where P = intact, OF intact_hw intact_print intact_register _ assms(1) s'])
      (use pit_tick assms(2) in auto)
  then show ?thesis using s' by blast
qed

lemma no_controller:
  assumes "intact s" "device s = (\<lambda>_ _. 0xFFFFFFFF)"
  shows "intact (usb_init X pml4 s)"
proof -
  let ?cfg = "\<lambda>_ :: u32. 0xFFFFFFFF :: u32"
  obtain sig where sig: "List.find (\<lambda>item. sig_type item = Xhci) lookup_table = Some sig" using sig_exists by blast
  have "quiet ?cfg (hw.more s) s" using assms(2) by (simp add: quiet_def config_mechanism_def)
  then obtain s' where f: "findPciDevice Xhci s = (map_option (device_at ?cfg) (List.find (pci_match Xhci ?cfg) all_functions), s')"
      "hw.more s' = hw.more s"
    using find_quiet [of ?cfg "hw.more s" s Xhci sig] sig by (auto simp: quiet_def)
  have "List.find (pci_match Xhci ?cfg) all_functions = None"
    by (auto simp: find_None_iff pci_match_def reg_def)
  then show ?thesis using f intact_hw [OF assms(1) f(2)] by (simp add: usb_init_def intact_print)
qed

lemma image_bytes:
  assumes "intact s" "a \<notin> vga_bytes"
  shows "kmem s a = boot_image a"
  using assms by (simp add: intact_def changes_within_def)

lemma demo_enters_user_mode:
  assumes "intact s"
  shows "fst (jump_to_user demo_layout s) \<noteq> None"
proof -
  have bs: "kmem s a = boot_image a"
    if "a \<in> {0x160000, 0x160001, 0x160002, 0x160003, 0x160012, 0x160013, 0x160038, 0x160039}" for a
    using that by (intro image_bytes [OF assms]) (auto simp: vga_bytes_def in_region_iff)
  have "e_machine (kmem s) 0x160000 = 0x3E" "e_phnum (kmem s) 0x160000 = 0"
    using bs by (simp_all add: e_machine_def e_phnum_def rd16_bytes boot_image_def)
  moreover have "kmem s 0x160000 = 0x7F" "kmem s 0x160001 = 0x45" "kmem s 0x160002 = 0x4C" "kmem s 0x160003 = 0x46"
    using bs by (simp_all add: boot_image_def)
  ultimately show ?thesis by (simp add: jump_to_user_def elf_load_def demo_layout_def load_segments.simps Let_def)
qed

lemma boots_from_demo: "boots_from demo_layout 0 demo_boot"
  using demo_kernel_installed
  by (auto simp: boots_from_def demo_boot_def demo_kernel_fields core_installed_def empty_input_def terminal_initial_def
      convert_mb2_to_mb1_def Let_def zero_mb_info_def fb_init_def fb_initial_def)

lemma boot_devices_frame:
  assumes "fb_init info (tfb (kterm s)) (kmem s) = (f, m)" "boot_devices L info idt s = (idt', s')"
  shows "kterm s' = terminal_initialize ((kterm s)\<lparr>tfb := f, tmem := m\<rparr>) \<and> device s' = device s"
proof -
  have r: "kterm (snd (irq_register v h n s)) = kterm s" for v h n and s :: "'z kernel_scheme"
    by (simp add: irq_register_def)
  have p: "kterm (outb a v s) = kterm s" "kterm (io_do e s) = kterm s" "kterm (io_wait s) = kterm s" for a v e and s :: "'z kernel_scheme"
    by (simp_all add: port_defs)
  have "kterm s' = kterm (snd (boot_devices L info idt s)) \<and> device s' = device (snd (boot_devices L info idt s))"
    using assms(2) by simp
  then show ?thesis using assms(1)
    by (simp add: boot_devices_def init_idt_def init_pit_def pic_remap_def Let_def r p irq_init_frame effect_init_frame)
      (simp add: irq_init_def effect_init_default_handlers_def effect_init_def effect_register_def Let_def)
qed

lemma demo_devices:
  assumes "boot_devices L zero_mb_info idt (set_kmem boot_image demo_boot) = (idt', s)"
  shows "intact s \<and> device s = (\<lambda>_ _. 0xFFFFFFFF)"
proof -
  define s0 where "s0 = set_kmem boot_image demo_boot"
  have t: "kterm s0 = terminal_initial fb_initial boot_image" "device s0 = (\<lambda>_ _. 0xFFFFFFFF)"
    "length (handlers s0) = 16" "length (buffer (kinput s0)) = 256"
    using demo_kernel_installed
    by (simp_all add: s0_def set_kmem_def demo_boot_def terminal_initial_def demo_kernel_fields core_installed_def empty_input_def)
  have fb: "fb_init zero_mb_info (tfb (kterm s0)) (kmem s0) = (fb_initial, boot_image)"
    by (simp add: t terminal_initial_def fb_init_def zero_mb_info_def)
  have "kernel_ok (snd (boot_devices L zero_mb_info idt s0))"
    by (rule boot_devices_ok) (use t fb in \<open>auto simp: fb_initial_def\<close>)
  then have k: "kernel_ok s" using assms by (simp add: s0_def)
  have f: "kterm s = terminal_initialize (terminal_initial fb_initial boot_image)" "device s = (\<lambda>_ _. 0xFFFFFFFF)"
    using boot_devices_frame [OF fb assms [folded s0_def]] t by (simp_all add: terminal_initial_def)
  have "changes_within vga_bytes boot_image (tmem (clear_terminal (terminal_initial fb_initial boot_image)))"
    using clear_vga_only [of "terminal_initial fb_initial boot_image"] by (simp add: terminal_initial_def fb_initial_def)
  then show ?thesis using k f by (simp add: intact_def terminal_initialize_def clear_terminal_def terminal_initial_def)
qed


text \<open>
  C37: whatever was sent to them before, the accesses \<^verbatim>\<open>kernel_main\<close> makes up to \<^verbatim>\<open>sti\<close> leave the two interrupt
  controllers cascaded in 8086 mode with vectors 32 to 39 and 40 to 47, only the timer and keyboard
  lines unmasked, and channel 0 of the timer a square wave with reload value 11931, which is 100 Hz.
\<close>

theorem boot_programs_controllers:
  "case boot_devices L info idt s of (idt', s') \<Rightarrow>
     pic_run 0x20 (io_log s') p = \<lparr>pic_expect = [], pic_base = 32, pic_cascade = 4, pic_8086 = True, pic_mask = 0xFC\<rparr> \<and>
     pic_run 0xA0 (io_log s') p = \<lparr>pic_expect = [], pic_base = 40, pic_cascade = 2, pic_8086 = True, pic_mask = 0xFF\<rparr> \<and>
     pit_run (io_log s') q = \<lparr>pit_mode = 3, pit_low = None, pit_reload = 11931\<rparr>"
proof -
  obtain f m where fm: "fb_init info (tfb (kterm s)) (kmem s) = (f, m)" by force
  have l: "io_log (snd (boot_devices L info idt s)) =
    [Set_Interrupts True, Out8 0x21 0xFC, Load_Idt 4095 (a_idt L), Out8 0x40 0x2E, Out8 0x40 0x9B, Out8 0x43 0x36,
     Out8 0xA1 0xFF, Out8 0x21 0xFF, Out8 0x80 0, Out8 0xA1 1, Out8 0x80 0, Out8 0x21 1, Out8 0x80 0, Out8 0xA1 2,
     Out8 0x80 0, Out8 0x21 4, Out8 0x80 0, Out8 0xA1 0x28, Out8 0x80 0, Out8 0x21 0x20, Out8 0x80 0, Out8 0xA0 0x11,
     Out8 0x80 0, Out8 0x20 0x11] @ io_log s"
    using fm by (simp add: boot_devices_def init_idt_def init_pit_def pic_remap_def Let_def irq_init_def
        effect_init_default_handlers_def effect_init_def effect_register_def)
  obtain idt' s' where b: "boot_devices L info idt s = (idt', s')" by force
  show ?thesis using l
    by (cases p, cases q)
      (simp add: b pic_run_def pit_run_def pic_io_def pit_io_def pic_command_def pic_data_def)
qed

end
