(* ===== verification/Userlib.thy ===== *)
theory Userlib
  imports Boot
begin

text \<open>
  The user library: the system call wrappers of \<^verbatim>\<open>src/user_libc/syscall.c\<close> and the functions of
  \<^verbatim>\<open>src/user_libc/stdio.c\<close> around them; \<^verbatim>\<open>printf\<close> has its own theory.

  A user program runs between system calls; its state is the state of the kernel with the memory, and
  the interrupts to come. The \<^verbatim>\<open>int $0x80\<close> of a call is \<open>exception_handler\<close> with the argument registers set; the other
  registers play no part. Memory a program passes to the kernel has its addresses in \<open>user_layout\<close>: the character
  on the stack of \<^verbatim>\<open>putchar\<close> and \<^verbatim>\<open>getchar\<close>, the number buffer of \<^verbatim>\<open>printf\<close>, the line buffer and the
  \<^verbatim>\<open>sys_info\<close> of the shell.
\<close>

section \<open>System calls\<close>

record user_layout =
  a_char :: u64
  a_buf :: u64
  a_line :: u64
  a_info :: u64

type_synonym ('a, 'z) action = "('a \<times> 'z kernel_scheme \<times> regs list, 'z kernel_scheme) outcome"

definition syscall3 :: "layout \<Rightarrow> u64 \<Rightarrow> u64 \<Rightarrow> u64 \<Rightarrow> u64 \<Rightarrow> 'z kernel_scheme \<Rightarrow> regs list \<Rightarrow> (u64, 'z) action" where
  "syscall3 L n a0 a1 a2 s es =
     then_do (exception_handler (deliver L) es (no_regs\<lparr>vector := 0x80, rax := n, rdi := a0, rsi := a1, rdx := a2\<rparr>) s)
       (\<lambda>(r, s, es). Done (rax r, s, es))"

definition user_write :: "layout \<Rightarrow> u64 \<Rightarrow> u64 \<Rightarrow> 'z kernel_scheme \<Rightarrow> regs list \<Rightarrow> (u64, 'z) action" where
  "user_write L buf len = syscall3 L 1 buf len 0"

definition user_read :: "layout \<Rightarrow> u64 \<Rightarrow> u64 \<Rightarrow> 'z kernel_scheme \<Rightarrow> regs list \<Rightarrow> (u64, 'z) action" where
  "user_read L buf len = syscall3 L 2 buf len 0"

definition user_exit :: "layout \<Rightarrow> u32 \<Rightarrow> 'z kernel_scheme \<Rightarrow> regs list \<Rightarrow> (u64, 'z) action" where
  "user_exit L code = syscall3 L 3 (scast code) 0 0"

definition user_ioctl :: "layout \<Rightarrow> u64 \<Rightarrow> u64 \<Rightarrow> 'z kernel_scheme \<Rightarrow> regs list \<Rightarrow> (u64, 'z) action" where
  "user_ioctl L cmd arg = syscall3 L 4 cmd arg 0"

definition user_ioctl2 :: "layout \<Rightarrow> u64 \<Rightarrow> u64 \<Rightarrow> u64 \<Rightarrow> 'z kernel_scheme \<Rightarrow> regs list \<Rightarrow> (u64, 'z) action" where
  "user_ioctl2 L cmd a0 a1 = syscall3 L 4 cmd a0 a1"

section \<open>Characters and strings\<close>

definition store :: "u64 \<Rightarrow> u8 \<Rightarrow> 'z kernel_scheme \<Rightarrow> 'z kernel_scheme" where
  "store a b s = set_kmem ((kmem s)(a := b)) s"

definition putchar :: "layout \<Rightarrow> user_layout \<Rightarrow> u8 \<Rightarrow> 'z kernel_scheme \<Rightarrow> regs list \<Rightarrow> (u64, 'z) action" where
  "putchar L U c s es = user_write L (a_char U) 1 (store (a_char U) c s) es"

definition getchar :: "layout \<Rightarrow> user_layout \<Rightarrow> 'z kernel_scheme \<Rightarrow> regs list \<Rightarrow> (int, 'z) action" where
  "getchar L U s es =
     then_do (user_read L (a_char U) 1 s es) (\<lambda>(n, s, es).
       if sint n \<le> 0 then Done (-1, s, es) else Done (int (unat (kmem s (a_char U))), s, es))"

definition clear_screen :: "layout \<Rightarrow> 'z kernel_scheme \<Rightarrow> regs list \<Rightarrow> (u64, 'z) action" where
  "clear_screen L = user_ioctl L 1 0"
definition uptime_ticks :: "layout \<Rightarrow> 'z kernel_scheme \<Rightarrow> regs list \<Rightarrow> (u64, 'z) action" where
  "uptime_ticks L = user_ioctl L 2 0"
definition shutdown :: "layout \<Rightarrow> 'z kernel_scheme \<Rightarrow> regs list \<Rightarrow> (u64, 'z) action" where
  "shutdown L = user_ioctl L 3 0"
definition reboot :: "layout \<Rightarrow> 'z kernel_scheme \<Rightarrow> regs list \<Rightarrow> (u64, 'z) action" where
  "reboot L = user_ioctl L 4 0"

definition get_sys_info :: "layout \<Rightarrow> u64 \<Rightarrow> 'z kernel_scheme \<Rightarrow> regs list \<Rightarrow> (u32, 'z) action" where
  "get_sys_info L info s es = then_do (user_ioctl2 L 10 info 0 s es) (\<lambda>(v, s, es). Done (ucast v, s, es))"

text \<open>\<^verbatim>\<open>strlen\<close> on memory; \<open>None\<close> is a search that never meets a zero byte.\<close>

partial_function (option) mem_strlen :: "mem \<Rightarrow> u64 \<Rightarrow> u64 \<Rightarrow> u64 option" where
  [code]: "mem_strlen m p i = (if m (p + i) \<noteq> 0 then mem_strlen m p (i + 1) else Some i)"

text \<open>\<^verbatim>\<open>sys_write(p, strlen(p))\<close>, which \<^verbatim>\<open>puts\<close>, \<^verbatim>\<open>printf\<close> and the shell use.\<close>

definition write_string :: "layout \<Rightarrow> u64 \<Rightarrow> 'z kernel_scheme \<Rightarrow> regs list \<Rightarrow> (unit, 'z) action" where
  "write_string L p s es =
     (case mem_strlen (kmem s) p 0 of
        None \<Rightarrow> Endless
      | Some n \<Rightarrow> then_do (user_write L p n s es) (\<lambda>(_, s, es). Done ((), s, es)))"

text \<open>\<open>lit\<close> is the address of the literal that holds the newline.\<close>

definition puts :: "layout \<Rightarrow> u64 \<Rightarrow> u64 \<Rightarrow> 'z kernel_scheme \<Rightarrow> regs list \<Rightarrow> (u64, 'z) action" where
  "puts L lit p s es = then_do (write_string L p s es) (\<lambda>(_, s, es). user_write L lit 1 s es)"

text \<open>
  The rest of \<^verbatim>\<open>user_libc/string.c\<close>. The user library has its own copies of these functions; they agree with the
  kernel's, which the theories of memory and strings are about.
\<close>

definition user_memset :: "mem \<Rightarrow> u64 \<Rightarrow> u32 \<Rightarrow> u64 \<Rightarrow> mem" where
  "user_memset m dst val n = for_loop 0 n (\<lambda>i m. m(dst + i := ucast val)) m"

definition user_memcpy :: "mem \<Rightarrow> u64 \<Rightarrow> u64 \<Rightarrow> u64 \<Rightarrow> mem" where
  "user_memcpy m dst src n = for_loop 0 n (\<lambda>i m. m(dst + i := m (src + i))) m"

function user_reverse_loop :: "nat \<Rightarrow> nat \<Rightarrow> string \<Rightarrow> string option" where
  "user_reverse_loop n i s =
     (if i < n div 2 then
        (case (getc s i, getc s (n - 1 - i)) of
           (Some t, Some d) \<Rightarrow>
             (case putc s i d of
                None \<Rightarrow> None
              | Some s \<Rightarrow>
                  (case putc s (n - 1 - i) t of
                     None \<Rightarrow> None
                   | Some s \<Rightarrow> user_reverse_loop n (i + 1) s))
         | _ \<Rightarrow> None)
      else Some s)"
  by pat_completeness auto
termination by (relation "measure (\<lambda>(n, i, s). n - i)") auto

declare user_reverse_loop.simps [simp del]

definition user_reverse :: "string \<Rightarrow> string option" where
  "user_reverse s = (case strlen s of None \<Rightarrow> None | Some n \<Rightarrow> user_reverse_loop n 0 s)"

lemma user_copies_agree:
  "user_memset m dst val n = memset m dst (ucast val) n" "user_memcpy m dst src n = memcpy m dst src n"
  "user_reverse str = reverse str"
proof -
  have l: "user_reverse_loop sz i s = reverse_loop sz i s" for sz i s
  proof (induction sz i s rule: user_reverse_loop.induct)
    case (1 n i s)
    have "n - 1 - i = n - i - 1" by simp
    then show ?case using 1 by (subst user_reverse_loop.simps, subst reverse_loop.simps) (auto split: option.splits)
  qed
  show "user_memset m dst val n = memset m dst (ucast val) n" "user_memcpy m dst src n = memcpy m dst src n"
    "user_reverse str = reverse str"
    by (simp_all add: user_memset_def memset_def user_memcpy_def memcpy_def user_reverse_def reverse_def l split: option.split)
qed

section \<open>What the calls do\<close>

lemma write_call:
  assumes "core_installed s"
  shows "user_write L p n s es = Done (n, s\<lparr>kterm := terminal_write p n (kterm s)\<rparr>, es)"
  using assms
  by (simp add: user_write_def syscall3_def exception_handler_def perform_core effect_core_handler_def effect_of_regs_def
      no_regs_def)

lemma ioctl_call:
  assumes "core_installed s"
  shows "user_ioctl2 L cmd a b s es =
    (case ioctl es \<lparr>op = 4, eflags = 0, arg0 = cmd, arg1 = a, arg2 = b, arg3 = 0, result = 0, err = 0\<rparr> s of
       Done (r, e, s, es) \<Rightarrow> Done (result e, s, es)
     | Halted s \<Rightarrow> Halted s | Asleep \<Rightarrow> Asleep | Endless \<Rightarrow> Endless | Divide_Error \<Rightarrow> Divide_Error | Null_Call \<Rightarrow> Null_Call)"
  using assms
  by (auto simp: user_ioctl2_def syscall3_def exception_handler_def perform_core effect_core_handler_def effect_of_regs_def
      no_regs_def split: outcome.split)

lemma ioctl_single: "user_ioctl L cmd a = user_ioctl2 L cmd a 0"
  by (simp add: user_ioctl_def user_ioctl2_def)

lemma control_calls:
  assumes "core_installed s"
  shows "clear_screen L s es = Done (0, s\<lparr>kterm := clear_terminal (kterm s)\<rparr>, es)"
    "uptime_ticks L s es = Done (pit_ticks s, s, es)"
    "shutdown L s es = Halted (acpi_shutdown s)" "reboot L s es = Halted (acpi_reboot s)"
  using assms
  by (simp_all add: clear_screen_def uptime_ticks_def shutdown_def reboot_def ioctl_single ioctl_call ioctl_def)

lemma exit_call: "core_installed s \<Longrightarrow> user_exit L code s es = Halted (io_do Hlt s)"
  by (simp add: user_exit_def syscall3_def exception_handler_def perform_core effect_core_handler_def effect_of_regs_def
      no_regs_def)

section \<open>Output\<close>

text \<open>The terminal shows more text: on the grid of VGA mode, character by character.\<close>

definition displays :: "u8 list \<Rightarrow> terminal \<Rightarrow> terminal \<Rightarrow> bool" where
  "displays out t t' \<longleftrightarrow> terminal_ok t' \<and> tfb t' = tfb t \<and>
     (\<not> fb_ok (tfb t) \<longrightarrow> terminal_color t' = terminal_color t \<and>
        grid_of t' = fold (grid_putchar (terminal_color t)) out (grid_of t))"

lemma displays_nil: "terminal_ok t \<Longrightarrow> displays [] t t"
  by (simp add: displays_def)

lemma displays_append: "displays a t t1 \<Longrightarrow> displays b t1 t2 \<Longrightarrow> displays (a @ b) t t2"
  by (auto simp: displays_def)

lemma putchar_displays: "terminal_ok t \<Longrightarrow> displays [c] t (terminal_putchar c t)"
  using putchar_ok [of t] putchar_vga_grid [of t]
  by (auto simp: displays_def terminal_putchar_def terminal_ok_def word_less_nat_alt)

lemma cells_cong:
  assumes "\<And>a. a \<in> vga_bytes \<Longrightarrow> m' a = m a"
  shows "cells m' = cells m"
proof -
  have "rd16 m' (vga_addr (of_nat i)) = rd16 m (vga_addr (of_nat i))" if "i < 2000" for i
  proof -
    have "region (vga_addr (of_nat i)) 2 \<subseteq> vga_bytes" using that by (intro vga_cell_bytes) (simp add: unat_of_nat_small)
    then show ?thesis using assms unfolding rd16_def by (intro rdn_cong) auto
  qed
  then show ?thesis by (auto simp: cells_def)
qed

lemma displays_mem:
  assumes "terminal_ok t" "changes_within A (tmem t) m" "A \<inter> screen_bytes t = {}"
  shows "displays [] t (t\<lparr>tmem := m\<rparr>)"
proof -
  have "cells m = cells (tmem t)" if "\<not> fb_ok (tfb t)"
    using that assms(2,3) by (intro cells_cong) (auto simp: changes_within_def screen_bytes_def)
  then show ?thesis using assms(1) by (auto simp: displays_def terminal_ok_def grid_of_def)
qed

lemma write_displays:
  assumes "terminal_ok t" and data: "\<And>i. i < n \<Longrightarrow> p + i \<notin> screen_bytes t"
  shows "displays (map (\<lambda>i. tmem t (p + of_nat i)) [0..<unat n]) t (terminal_write p n t)"
proof -
  let ?P = "\<lambda>i t'. displays (map (\<lambda>i. tmem t (p + of_nat i)) [0..<unat i]) t t' \<and> changes_within (screen_bytes t) (tmem t) (tmem t')"
  have "?P n (terminal_write p n t)"
    unfolding terminal_write_def
  proof (rule for_loop_inv [where P = ?P])
    fix i t' assume i: "i < n" and t': "?P i t'"
    then have ok: "terminal_ok t'" and scr: "screen_bytes t' = screen_bytes t" by (simp_all add: displays_def screen_bytes_def)
    have c: "tmem t' (p + i) = tmem t (p + of_nat (unat i))" using t' data [OF i] by (simp add: changes_within_def)
    show "?P (i + 1) (terminal_putchar (tmem t' (p + i)) t')"
      using t' displays_append [OF _ putchar_displays [OF ok, of "tmem t' (p + i)"]] putchar_ok(3) [OF ok] c scr
      by (auto simp: unat_Suc_less [OF i] changes_within_def)
  qed (use assms(1) displays_nil in auto)
  then show ?thesis by blast
qed

lemma write_one: "terminal_write p 1 t = terminal_putchar (tmem t p) t"
  by (simp add: terminal_write_def for_loop.simps)

text \<open>
  A step of a program that only prints: the terminal changes, and of the memory the screen and the bytes
  \<open>A\<close> of the program.
\<close>

definition prints :: "u64 set \<Rightarrow> u8 list \<Rightarrow> 'z kernel_scheme \<Rightarrow> 'z kernel_scheme \<Rightarrow> bool" where
  "prints A out s s' \<longleftrightarrow> s' = s\<lparr>kterm := kterm s'\<rparr> \<and> kernel_ok s' \<and> tfb (kterm s') = tfb (kterm s) \<and>
     changes_within (screen_bytes (kterm s) \<union> A) (kmem s) (kmem s') \<and>
     (A \<inter> screen_bytes (kterm s) = {} \<longrightarrow> displays out (kterm s) (kterm s'))"

lemma prints_nil: "kernel_ok s \<Longrightarrow> prints A [] s s"
  by (simp add: prints_def displays_nil kernel_ok_def)

lemma prints_ok: "prints A out s s' \<Longrightarrow> kernel_ok s'"
  by (simp add: prints_def)

lemma prints_append:
  assumes "prints A a s s1" "prints A b s1 s2"
  shows "prints A (a @ b) s s2"
proof -
  have "screen_bytes (kterm s1) = screen_bytes (kterm s)" using assms(1) by (simp add: prints_def screen_bytes_def)
  moreover have "s2 = s\<lparr>kterm := kterm s2\<rparr>"
  proof -
    have "s1 = s\<lparr>kterm := kterm s1\<rparr>" "s2 = s1\<lparr>kterm := kterm s2\<rparr>" using assms by (simp_all add: prints_def)
    then have "s2 = s\<lparr>kterm := kterm s1\<rparr>\<lparr>kterm := kterm s2\<rparr>" by simp
    then show ?thesis by simp
  qed
  ultimately show ?thesis using assms changes_within_step displays_append
    unfolding prints_def by (metis (no_types, lifting))
qed

lemma core_ok: "kernel_ok s \<Longrightarrow> core_installed s"
  by (simp add: kernel_ok_def)

lemma set_kmem_prints:
  assumes "kernel_ok s" "changes_within A (kmem s) m"
  shows "prints A [] s (set_kmem m s)"
proof -
  have "changes_within (screen_bytes (kterm s) \<union> A) (kmem s) m" using assms(2) by (auto simp: changes_within_def)
  moreover have "kernel_ok (set_kmem m s)" using assms(1) by simp
  ultimately show ?thesis using displays_mem [OF _ assms(2)] assms(1)
    by (simp add: prints_def set_kmem_def kernel_ok_def)
qed

lemma store_prints: "kernel_ok s \<Longrightarrow> a \<in> A \<Longrightarrow> prints A [] s (store a b s)"
  unfolding store_def by (rule set_kmem_prints, assumption) (simp add: changes_within_def)

lemma write_prints:
  assumes "kernel_ok s" and data: "A \<inter> screen_bytes (kterm s) = {} \<Longrightarrow> \<forall>i < n. p + i \<notin> screen_bytes (kterm s)"
  shows "\<exists>s'. user_write L p n s es = Done (n, s', es) \<and>
    prints A (map (\<lambda>i. kmem s (p + of_nat i)) [0..<unat n]) s s'"
proof -
  have t: "terminal_ok (kterm s)" using assms(1) by (simp add: kernel_ok_def)
  let ?s = "s\<lparr>kterm := terminal_write p n (kterm s)\<rparr>"
  have "kernel_ok ?s" using assms(1) write_ok [OF t] kernel_ok_terminal by blast
  then have "prints A (map (\<lambda>i. kmem s (p + of_nat i)) [0..<unat n]) s ?s"
    using write_ok [OF t] write_displays [OF t] data by (simp add: prints_def changes_within_def)
  then show ?thesis using write_call [OF core_ok [OF assms(1)]] by blast
qed

lemma putchar_prints:
  assumes "kernel_ok s"
  shows "\<exists>r s'. putchar L U c s es = Done (r, s', es) \<and> prints {a_char U} [c] s s'"
proof -
  let ?s = "store (a_char U) c s"
  have p: "prints {a_char U} [] s ?s" using store_prints [OF assms] by simp
  then have k: "kernel_ok ?s" and t: "terminal_ok (kterm ?s)" by (simp_all add: prints_def kernel_ok_def)
  have "kmem ?s (a_char U) = c" by (simp add: store_def set_kmem_def)
  then have "prints {a_char U} [c] ?s (?s\<lparr>kterm := terminal_write (a_char U) 1 (kterm ?s)\<rparr>)"
    using kernel_ok_terminal [OF k putchar_ok(1) [OF t]] putchar_ok(2,3) [OF t] putchar_displays [OF t]
    by (simp add: prints_def write_one changes_within_def)
  then show ?thesis using prints_append [OF p] write_call [OF core_ok [OF k]] by (auto simp: putchar_def)
qed

section \<open>Strings in memory\<close>

lemma mem_strlen_result:
  assumes "i \<le> k" "m (p + k) = 0" "\<And>j. i \<le> j \<Longrightarrow> j < k \<Longrightarrow> m (p + j) \<noteq> 0"
  shows "mem_strlen m p i = Some k"
  using assms
proof (induction "unat k - unat i" arbitrary: i)
  case 0
  then have "i = k" by (simp add: word_le_nat_alt word_unat_eq_iff)
  then show ?case using 0 by (subst mem_strlen.simps) simp
next
  case (Suc d)
  then have lt: "i < k" by (simp add: word_less_nat_alt)
  have "m (p + i) \<noteq> 0" using Suc.prems(3) lt by simp
  moreover have "mem_strlen m p (i + 1) = Some k"
  proof (rule Suc.hyps(1))
    show "d = unat k - unat (i + 1)" using Suc.hyps(2) unat_Suc_less [OF lt] by simp
    show "i + 1 \<le> k" by (rule word_succ_le [OF lt])
    show "m (p + j) \<noteq> 0" if "i + 1 \<le> j" "j < k" for j
      using Suc.prems(3) [of j] that unat_Suc_less [OF lt] by (simp add: word_le_nat_alt)
  qed (rule Suc.prems(2))
  ultimately show ?case by (subst mem_strlen.simps) simp
qed

text \<open>A string with a terminator has a length.\<close>

lemma mem_strlen_ends:
  assumes "m (p + of_nat k) = 0" "k < 2 ^ 64"
  shows "\<exists>n. mem_strlen m p 0 = Some n \<and> unat n \<le> k \<and> m (p + n) = 0 \<and> (\<forall>j < n. m (p + j) \<noteq> 0)"
proof -
  define l where "l = (LEAST l. m (p + of_nat l) = 0)"
  have l: "m (p + of_nat l) = 0" "l \<le> k" "\<And>j. j < l \<Longrightarrow> m (p + of_nat j) \<noteq> 0"
    unfolding l_def using assms(1) by (auto intro: LeastI Least_le dest: not_less_Least)
  then have u: "unat (of_nat l :: u64) = l" using assms(2) by (intro unat_of_nat_small) simp
  have "m (p + j) \<noteq> 0" if "j < of_nat l" for j
    using l(3) [of "unat j"] that u by (simp add: word_less_nat_alt)
  then show ?thesis using mem_strlen_result [of 0 "of_nat l" m p] l u by auto
qed

lemma mem_strlen_at:
  assumes "bytes_at m p (bs @ [0])" "0 \<notin> set bs" "length bs < 2 ^ 64"
  shows "mem_strlen m p 0 = Some (of_nat (length bs))"
proof -
  let ?n = "of_nat (length bs) :: u64"
  have u: "unat ?n = length bs" using assms(3) by (intro unat_of_nat_small) simp
  have z: "m (p + ?n) = 0" using assms(1) by (simp add: bytes_at_append)
  have "m (p + j) \<noteq> 0" if "j < ?n" for j
  proof -
    have "unat j < length bs" using that u by (simp add: word_less_nat_alt)
    then have "m (p + of_nat (unat j)) \<in> set bs" using assms(1) bytes_at_nth [of m p bs "unat j"] by (simp add: bytes_at_append)
    then show ?thesis using assms(2) by auto
  qed
  then show ?thesis using z by (intro mem_strlen_result) simp_all
qed

lemma terminated_bytes:
  assumes "m (p + of_nat k) = 0" "k < 2 ^ 64"
  shows "\<exists>bs. bytes_at m p (bs @ [0]) \<and> 0 \<notin> set bs \<and> length bs \<le> k"
proof -
  obtain n where n: "unat n \<le> k" "m (p + n) = 0" "\<forall>j < n. m (p + j) \<noteq> 0" using mem_strlen_ends [of m p k] assms by blast
  let ?bs = "map (\<lambda>i. m (p + of_nat i)) [0..<unat n]"
  have "m (p + of_nat i) \<noteq> 0" if "i < unat n" for i
    using n(3) of_nat_less_word [OF that] by blast
  then have "0 \<notin> set ?bs" by auto
  moreover have "bytes_at m p (?bs @ [0])" using n(2) by (simp add: bytes_at_append) (simp add: bytes_at_iff)
  ultimately show ?thesis using n(1) by (intro exI [of _ ?bs]) simp
qed

text \<open>A terminated string inside the bytes \<open>A\<close>; a set of bytes \<open>A\<close> that neither the bytes \<open>B\<close> nor the screen meets.\<close>

definition word_at :: "u64 set \<Rightarrow> mem \<Rightarrow> u64 \<Rightarrow> u8 list \<Rightarrow> bool" where
  "word_at A m p w \<longleftrightarrow> bytes_at m p (w @ [0]) \<and> region p (length w + 1) \<subseteq> A"

definition outside :: "u64 set \<Rightarrow> u64 set \<Rightarrow> terminal \<Rightarrow> bool" where
  "outside B A t \<longleftrightarrow> B \<inter> A = {} \<and> A \<inter> screen_bytes t = {}"

abbreviation short :: "u8 list \<Rightarrow> bool" where "short w \<equiv> 0 \<notin> set w \<and> length w + 1 < 2 ^ 64"

lemma prints_mono: "prints A out s s' \<Longrightarrow> A \<subseteq> B \<Longrightarrow> prints B out s s'"
  by (auto simp: prints_def changes_within_def)

lemma outside_prints: "outside B A (kterm s) \<Longrightarrow> prints C out s s' \<Longrightarrow> outside B A (kterm s')"
proof -
  assume "outside B A (kterm s)" "prints C out s s'"
  moreover from this have "tfb (kterm s') = tfb (kterm s)" unfolding prints_def by blast
  ultimately show ?thesis by (simp add: outside_def screen_bytes_def split: if_splits)
qed

lemma prints_keep: "prints B out s s' \<Longrightarrow> outside B A (kterm s) \<Longrightarrow> a \<in> A \<Longrightarrow> kmem s' a = kmem s a"
  unfolding prints_def outside_def changes_within_def by blast

lemma bytes_at_keep:
  assumes "bytes_at m p bs" "length bs \<le> n" "\<And>a. a \<in> region p n \<Longrightarrow> m' a = m a" "n < 2 ^ 64"
  shows "bytes_at m' p bs"
  using assms in_region_add [of _ n p] by (auto simp: bytes_at_iff)

lemma word_prints:
  assumes "word_at A (kmem s) p w" "short w" "prints B out s s'" "outside B A (kterm s)"
  shows "word_at A (kmem s') p w"
proof -
  have r: "region p (length w + 1) \<subseteq> A" using assms(1) by (simp add: word_at_def)
  have "bytes_at (kmem s') p (w @ [0])"
  proof (rule bytes_at_keep)
    show "bytes_at (kmem s) p (w @ [0])" using assms(1) by (simp add: word_at_def)
    show "kmem s' a = kmem s a" if "a \<in> region p (length w + 1)" for a
      using prints_keep [OF assms(3,4)] subsetD [OF r that] .
  qed (use assms(2) in simp_all)
  then show ?thesis using r by (simp add: word_at_def)
qed

lemma write_string_prints:
  assumes "kernel_ok s" "bytes_at (kmem s) p (w @ [0])" "short w"
    and "B \<inter> screen_bytes (kterm s) = {} \<Longrightarrow> region p (length w) \<inter> screen_bytes (kterm s) = {}"
  shows "\<exists>s'. write_string L p s es = Done ((), s', es) \<and> prints B w s s'"
proof -
  let ?n = "of_nat (length w) :: u64"
  have l: "mem_strlen (kmem s) p 0 = Some ?n" using mem_strlen_at [OF assms(2)] assms(3) by simp
  have u: "unat ?n = length w" using assms(3) by (intro unat_of_nat_small) simp
  have "p + i \<in> region p (length w)" if "i < ?n" for i
    using that u by (simp add: in_region_iff word_less_nat_alt)
  then have "\<forall>i < ?n. p + i \<notin> screen_bytes (kterm s)" if "B \<inter> screen_bytes (kterm s) = {}"
    using assms(4) [OF that] by blast
  then obtain s' where s': "user_write L p ?n s es = Done (?n, s', es)"
      "prints B (map (\<lambda>i. kmem s (p + of_nat i)) [0..<length w]) s s'"
    using write_prints [OF assms(1), of B ?n p L es] unfolding u by blast
  moreover have "bytes_at (kmem s) p w" using assms(2) by (simp add: bytes_at_append)
  then have "map (\<lambda>i. kmem s (p + of_nat i)) [0..<length w] = w"
    by (intro nth_equalityI) (simp_all add: bytes_at_nth)
  ultimately show ?thesis using l by (simp add: write_string_def)
qed

lemma word_written:
  assumes "kernel_ok s" "word_at A (kmem s) p w" "short w" "outside B A (kterm s)"
  shows "\<exists>s'. write_string L p s es = Done ((), s', es) \<and> prints B w s s'"
proof (rule write_string_prints [OF assms(1)])
  show "bytes_at (kmem s) p (w @ [0])" using assms(2) by (simp add: word_at_def)
  have "region p (length w) \<subseteq> A" using assms(2) region_mono [of "length w" "length w + 1" p] by (auto simp: word_at_def)
  then show "region p (length w) \<inter> screen_bytes (kterm s) = {}" using assms(4) by (auto simp: outside_def)
qed (use assms(3) in simp)

section \<open>Input\<close>

text \<open>What no interrupt changes: where the board's tables and the frame buffer are.\<close>

definition same_machine :: "'z kernel_scheme \<Rightarrow> 'z kernel_scheme \<Rightarrow> bool" where
  "same_machine s s' \<longleftrightarrow> kernel_ok s' \<and> ksmbios s' = ksmbios s \<and> tfb (kterm s') = tfb (kterm s)"

lemma same_machine_trans: "same_machine s s1 \<Longrightarrow> same_machine s1 s2 \<Longrightarrow> same_machine s s2"
  by (simp add: same_machine_def)

lemma prints_same: "prints A out s s' \<Longrightarrow> same_machine s s'"
proof -
  assume p: "prints A out s s'"
  then have "s' = s\<lparr>kterm := kterm s'\<rparr>" by (simp add: prints_def)
  then have "ksmbios s' = ksmbios (s\<lparr>kterm := kterm s'\<rparr>)" by (rule arg_cong)
  then show ?thesis using p by (simp add: prints_def same_machine_def)
qed

lemma same_machine_hw: "same_machine s0 s \<Longrightarrow> hw.more s' = hw.more s \<Longrightarrow> same_machine s0 s'"
  using kernel_ok_hw [of s s'] by (cases s, cases s') (simp add: same_machine_def)

lemma same_machine_print: "same_machine s0 s \<Longrightarrow> same_machine s0 (kprintf fmt args s)"
  using kprintf_ok(2) [of s] kernel_ok_print [of s]
  by (auto simp: same_machine_def kernel_ok_def kprintf_def split: option.split)

lemma same_machine_fields:
  "same_machine s0 (set_kmem m s) = same_machine s0 s"
  "same_machine s0 s \<Longrightarrow> input_ok q \<Longrightarrow> same_machine s0 (s\<lparr>kinput := q\<rparr>)"
  by (simp_all add: same_machine_def) (simp_all add: set_kmem_def kernel_ok_def core_installed_def)

interpretation kenv: driver_invariant "same_machine s0" for s0
proof
  show "same_machine s0 s \<Longrightarrow> hw.more s' = hw.more s \<Longrightarrow> same_machine s0 s'" for s s' by (rule same_machine_hw)
  show "same_machine s0 s \<Longrightarrow> same_machine s0 (kprintf fmt args s)" for s fmt args by (rule same_machine_print)
  show "same_machine s0 s \<Longrightarrow> same_machine s0 (set_kmem m s)" for s m by (simp add: same_machine_fields)
  show "same_machine s0 s \<Longrightarrow> same_machine s0 (s\<lparr>kinput := input_push c (kinput s)\<rparr>)" for s c
    by (rule same_machine_fields(2)) (simp_all add: same_machine_def kernel_ok_def input_ok_push)
qed (simp_all add: same_machine_def kernel_ok_def core_installed_def)

lemma run_handler_same:
  assumes "same_machine s0 s"
  shows "same_machine s0 (run_handler X h r s)"
proof (cases h)
  case Ps2_keyboard_handler
  obtain q s1 where k: "ps2_keyboard_handler (kinput s) s = (q, s1)" by force
  then have "hw.more s1 = hw.more s" "q = kinput s \<or> (\<exists>c. q = input_push c (kinput s))"
    by (auto simp: ps2_keyboard_handler_def port_defs Let_def split: if_splits)
  moreover from this have "input_ok q" using assms by (auto simp: same_machine_def kernel_ok_def input_ok_push)
  ultimately show ?thesis using Ps2_keyboard_handler k same_machine_fields(2) [OF same_machine_hw [OF assms]] by simp
next
  case Usb_handler_c
  then show ?thesis using kenv.keep_handle_interrupt [OF assms] by simp
next
  case Lapic_timer_handler
  have "same_machine s0 (s\<lparr>lapic_ticks := lapic_ticks s + 1\<rparr>)"
    using assms by (simp add: same_machine_def kernel_ok_def core_installed_def)
  then show ?thesis using Lapic_timer_handler by (auto simp: lapic_timer_handler_def lapic_eoi_def intro: same_machine_hw)
qed (use assms in \<open>simp_all add: pit_handler_def same_machine_def kernel_ok_def core_installed_def\<close>)

lemma deliver_same: "same_machine s0 s \<Longrightarrow> same_machine s0 (deliver L r s)"
proof -
  assume s: "same_machine s0 s"
  define v :: u8 where "v = ucast (vector r)"
  have a: "same_machine s0 (irq_ack v s)" by (rule same_machine_hw [OF s]) (simp add: irq_ack_def)
  have "same_machine s0 (irq_ack v s\<lparr>irq_table := (irq_table s)(v := (irq_table s v)\<lparr>irq_count := c\<rparr>)\<rparr>)" for c
    using a by (auto simp: same_machine_def kernel_ok_def core_installed_def)
  then have "same_machine s0 (run_handler X h r (irq_ack v s\<lparr>irq_table := (irq_table s)(v := (irq_table s v)\<lparr>irq_count := c\<rparr>)\<rparr>))"
    for X h c by (rule run_handler_same)
  then show ?thesis using a by (auto simp: deliver_def irq_dispatch_def Let_def v_def [symmetric] split: option.split)
qed

lemma read_one:
  assumes ok: "kernel_ok s" and h: "hlt_until (\<lambda>s. input_available (kinput s)) (deliver L) es s = Some (t, es')"
  shows "\<exists>c q. pending (kinput t) = c # pending q \<and> input_ok q \<and>
    getchar L U s es = Done (int (unat c), store (a_char U) c (t\<lparr>kinput := q\<rparr>), es')"
proof -
  have t: "kernel_ok t" using hlt_until_inv [OF h, of kernel_ok] ok deliver_ok by blast
  have q: "input_ok (kinput t)" using t by (simp add: kernel_ok_def)
  have av: "pending (kinput t) \<noteq> []" using hlt_until_stops [OF h] q by (simp add: available_pending)
  obtain got q' m where l: "read_loop (a_char U) 1 0 (kinput t) (kmem t) = (got, q', m)" by (metis prod_cases3)
  have "min (unat (1 :: u64) - unat (0 :: u64)) (length (pending (kinput t))) = 1" using av by (cases "pending (kinput t)") simp_all
  then have r: "input_ok q'" "unat got = 1" "pending q' = drop 1 (pending (kinput t))"
    "\<And>a. m a = (if unat (a - a_char U) < 1 then pending (kinput t) ! unat (a - a_char U) else kmem t a)"
    using read_loop_result [OF q _ l refl] by simp_all
  have g: "got = 1" using r(2) by (simp add: word_unat_eq_iff)
  obtain c where c: "pending (kinput t) = c # pending q'" using av r(3) by (cases "pending (kinput t)") simp_all
  have m: "m = (kmem t)(a_char U := c)" 
  proof
    show "m x = ((kmem t)(a_char U := c)) x" for x
      using r(4) [of x] c by (cases "x = a_char U") (auto simp: unat_eq_zero)
  qed
  have "exception_handler (deliver L) es (no_regs\<lparr>vector := 0x80, rax := 2, rdi := a_char U, rsi := 1, rdx := 0\<rparr>) s =
      Done (no_regs\<lparr>vector := 0x80, rax := 1, rdi := a_char U, rsi := 1, rdx := 0\<rparr>, set_kmem m (t\<lparr>kinput := q'\<rparr>), es')"
    using read_call [OF core_ok [OF ok], where deliver = "deliver L" and es = es] h l g by (simp add: no_regs_def)
  then have "getchar L U s es = Done (int (unat c), store (a_char U) c (t\<lparr>kinput := q'\<rparr>), es')"
    by (simp add: getchar_def user_read_def syscall3_def store_def m set_kmem_def no_regs_def)
  then show ?thesis using c r(1) by blast
qed

lemma kernel_ok_input: "kernel_ok s \<Longrightarrow> input_ok q \<Longrightarrow> kernel_ok (s\<lparr>kinput := q\<rparr>)"
  by (simp add: kernel_ok_def core_installed_def)

text \<open>
  Reading uses up input: the interrupts to come and the pending characters decrease in the
  lexicographic order, which is why a program that reads in a loop falls asleep.
\<close>

definition input_left :: "'z kernel_scheme \<Rightarrow> regs list \<Rightarrow> nat \<times> nat" where
  "input_left s es = (length es, length (pending (kinput s)))"

abbreviation uses_input :: "((nat \<times> nat) \<times> (nat \<times> nat)) set" where "uses_input \<equiv> less_than <*lex*> less_than"

lemma getchar_cases:
  assumes "kernel_ok s"
  shows "getchar L U s es = Asleep \<or>
    (\<exists>(c :: u8) s' es'. getchar L U s es = Done (int (unat c), s', es') \<and> same_machine s s' \<and>
       (input_left s' es', input_left s es) \<in> uses_input)"
proof (cases "hlt_until (\<lambda>s. input_available (kinput s)) (deliver L) es s")
  case None
  then show ?thesis using read_call [OF core_ok [OF assms], where deliver = "deliver L" and es = es]
    by (simp add: getchar_def user_read_def syscall3_def no_regs_def)
next
  case (Some te)
  then obtain t es' where h: "hlt_until (\<lambda>s. input_available (kinput s)) (deliver L) es s = Some (t, es')" by (cases te) simp
  obtain c q where c: "pending (kinput t) = c # pending q" "input_ok q"
      "getchar L U s es = Done (int (unat c), store (a_char U) c (t\<lparr>kinput := q\<rparr>), es')"
    using read_one [OF assms h, of U] by blast
  have t: "same_machine s t"
    by (rule hlt_until_inv [OF h, of "same_machine s"]) (use assms in \<open>simp_all add: deliver_same same_machine_def [of s s]\<close>)
  obtain used where u: "es = used @ es'" "t = fold (deliver L) used s" using hlt_until_consumes [OF h] by blast
  have "(input_left (store (a_char U) c (t\<lparr>kinput := q\<rparr>)) es', input_left s es) \<in> uses_input"
    using u c(1) by (cases used) (auto simp: input_left_def store_def set_kmem_def)
  moreover have "same_machine s (store (a_char U) c (t\<lparr>kinput := q\<rparr>))"
    using same_machine_fields(2) [OF t c(2)] by (simp add: store_def same_machine_fields)
  ultimately show ?thesis using c(3) by blast
qed

lemma getchar_pending:
  assumes "kernel_ok s" "pending (kinput s) = c # rest"
  shows "\<exists>q. input_ok q \<and> pending q = rest \<and>
    getchar L U s es = Done (int (unat c), store (a_char U) c (s\<lparr>kinput := q\<rparr>), es)"
proof -
  have "input_available (kinput s)" using assms by (simp add: kernel_ok_def available_pending)
  then have "hlt_until (\<lambda>s. input_available (kinput s)) (deliver L) es s = Some (s, es)" by (cases es) simp_all
  from read_one [OF assms(1) this, of U] show ?thesis using assms(2) by auto
qed


section \<open>System information\<close>

text \<open>The strings of the board can be looked up, whatever the memory holds; so it is without tables.\<close>

definition board_names_end :: "smbios \<Rightarrow> bool" where
  "board_names_end k \<longleftrightarrow> (\<forall>m. smbios_get_board_vendor m k \<noteq> None \<and> smbios_get_board_name m k \<noteq> None)"

text \<open>The call fails to end only when a lookup of a board string does.\<close>

lemma get_sys_info_cases:
  assumes "kernel_ok s" "info \<noteq> 0"
  shows "(\<exists>m. get_sys_info L info s es = Done (0, set_kmem m s, es) \<and>
      changes_within (region info 256) (kmem s) m \<and> sys_info_filled info s m) \<or>
    get_sys_info L info s es = Endless \<and> \<not> board_names_end (ksmbios s)"
proof (cases "\<exists>v b. smbios_get_board_vendor (kmem s) (ksmbios s) = Some v \<and> smbios_get_board_name (kmem s) (ksmbios s) = Some b")
  case True
  then obtain v b where vb: "smbios_get_board_vendor (kmem s) (ksmbios s) = Some v" "smbios_get_board_name (kmem s) (ksmbios s) = Some b"
    by blast
  obtain m where m: "fill_info info v b s = Some m" "changes_within (region info 256) (kmem s) m" "sys_info_filled info s m"
    using fill_info_result by blast
  have "get_sys_info L info s es = Done (0, set_kmem m s, es)"
    using vb m(1) assms(2) by (simp add: get_sys_info_def ioctl_call [OF core_ok [OF assms(1)]] ioctl_def)
  then show ?thesis using m by blast
next
  case False
  then have "get_sys_info L info s es = Endless"
    using assms(2) by (auto simp: get_sys_info_def ioctl_call [OF core_ok [OF assms(1)]] ioctl_def split: option.split)
  moreover have "\<not> board_names_end (ksmbios s)" using False unfolding board_names_end_def by (metis not_None_eq)
  ultimately show ?thesis by blast
qed

end
