(* ===== verification/Typing.thy ===== *)
theory Typing
  imports Userlib
begin

text \<open>
  Where the characters of \<^verbatim>\<open>getchar\<close> come from. The locale \<open>key_source\<close> is what a program that reads
  characters relies on: a list of keys of which each call takes the first, and which output does not
  touch. Two sources are interpretations of it:

  \<^item> \<open>waiting\<close>, the keyboard queue (\<^verbatim>\<open>src/drivers/input.c\<close>): the keys are there and no call waits;
  \<^item> \<open>typing\<close>, the queue and then the PS/2 keyboard: \<^verbatim>\<open>getchar\<close> sleeps until the interrupts
    (\<^verbatim>\<open>ps2_keyboard_handler\<close> of \<^verbatim>\<open>src/arch/x86_64/idt.c\<close>) bring the next character.
\<close>

section \<open>The interface\<close>

locale key_source =
  fixes L :: layout
    and ready :: "'z kernel_scheme \<Rightarrow> regs list \<Rightarrow> bool"
    and keys :: "'z kernel_scheme \<Rightarrow> regs list \<Rightarrow> u8 list"
  assumes source_getchar: "kernel_ok s \<Longrightarrow> ready s es \<Longrightarrow> keys s es = c # rest \<Longrightarrow>
      \<exists>s' es'. getchar L U s es = Done (int (unat c), store (a_char U) c s', es') \<and> same_machine s s' \<and>
        kterm s' = kterm s \<and> ready s' es' \<and> keys s' es' = rest"
    and source_terminal: "ready (s\<lparr>kterm := t\<rparr>) es = ready s es" "keys (s\<lparr>kterm := t\<rparr>) es = keys s es"
begin

lemma source_output:
  assumes "s' = s\<lparr>kterm := kterm s'\<rparr>"
  shows "ready s' es = ready s es" "keys s' es = keys s es"
  using arg_cong [OF assms, of "\<lambda>s. ready s es"] arg_cong [OF assms, of "\<lambda>s. keys s es"]
  by (simp_all add: source_terminal)

lemma source_prints:
  assumes "prints A out s s'"
  shows "ready s' es = ready s es" "keys s' es = keys s es"
proof -
  have "s' = s\<lparr>kterm := kterm s'\<rparr>" using assms by (simp add: prints_def)
  then show "ready s' es = ready s es" "keys s' es = keys s es" by (rule source_output)+
qed

lemma source_store: "ready (store a b s) es = ready s es" "keys (store a b s) es = keys s es"
  by (simp_all add: store_def set_kmem_def source_terminal)

lemma source_set_kmem: "ready (set_kmem m s) es = ready s es" "keys (set_kmem m s) es = keys s es"
  by (simp_all add: set_kmem_def source_terminal)

end

section \<open>Keys in the queue\<close>

interpretation waiting: key_source L "\<lambda>s es. es = es0" "\<lambda>s es. pending (kinput s)" for L es0
proof
  show "\<exists>s' es'. getchar L U s es = Done (int (unat c), store (a_char U) c s', es') \<and> same_machine s s' \<and>
      kterm s' = kterm s \<and> es' = es0 \<and> pending (kinput s') = rest"
    if k: "kernel_ok s" "es = es0" "pending (kinput s) = c # rest" for U and s :: "'z kernel_scheme" and es c rest
  proof -
    obtain q where q: "input_ok q" "pending q = rest"
        "getchar L U s es = Done (int (unat c), store (a_char U) c (s\<lparr>kinput := q\<rparr>), es)"
      using getchar_pending [OF k(1,3)] by blast
    moreover have "same_machine s (s\<lparr>kinput := q\<rparr>)"
      using kernel_ok_input [OF k(1) q(1)] by (simp add: same_machine_def)
    ultimately show ?thesis using k(2) by fastforce
  qed
qed simp_all

section \<open>Keys to come\<close>

text \<open>The characters of a scan code, and of a list of interrupts of the timer and the keyboard.\<close>

definition scan_keys :: "u8 \<Rightarrow> u8 list" where
  "scan_keys code = (if printable_code code then [keyboard_map ! unat code] else [])"

fun keys_to_come :: "(io list \<Rightarrow> io \<Rightarrow> u64) \<Rightarrow> io list \<Rightarrow> regs list \<Rightarrow> u8 list" where
  "keys_to_come dev log [] = []"
| "keys_to_come dev log (e # es) =
     (if vector e = 33
      then scan_keys (ucast (dev (Out8 0x20 0x20 # log) (In8 0x60))) @
        keys_to_come dev (In8 0x60 # Out8 0x20 0x20 # log) es
      else keys_to_come dev (Out8 0x20 0x20 # log) es)"

definition typed :: "'z kernel_scheme \<Rightarrow> regs list \<Rightarrow> u8 list" where
  "typed s es = pending (kinput s) @ keys_to_come (device s) (io_log s) es"

definition timer_or_keyboard :: "regs list \<Rightarrow> bool" where
  "timer_or_keyboard es \<longleftrightarrow> (\<forall>e \<in> set es. vector e = 32 \<or> vector e = 33)"

lemma printable_code_cases:
  "(if code AND 0x80 \<noteq> 0 then q
    else if 0 < code \<and> code < 58 then
      (if keyboard_map ! unat code \<noteq> 0 then input_push (keyboard_map ! unat code) q else q)
    else q) = fold input_push (scan_keys code) q"
  using low_code [of code] by (auto simp: scan_keys_def printable_code_def)

text \<open>One interrupt: the queue takes the character of the scan code; the rest of the machine stays.\<close>

lemma deliver_keyboard:
  assumes "kernel_ok s" "vector e = 33"
  shows "device (deliver L e s) = device s" "kterm (deliver L e s) = kterm s"
    "io_log (deliver L e s) = In8 0x60 # Out8 0x20 0x20 # io_log s"
    "kinput (deliver L e s) = fold input_push (scan_keys (key_code L s)) (kinput s)"
proof -
  define s0 where "s0 = irq_ack 33 s"
  define s1 where "s1 = s0\<lparr>irq_table := (irq_table s0)(33 := (irq_table s0 33)\<lparr>irq_count := irq_count (irq_table s0 33) + 1\<rparr>)\<rparr>"
  have h: "handler (irq_table s0 33) = Some Ps2_keyboard_handler"
    using assms(1) by (simp add: kernel_ok_def s0_def)
  have f: "device s1 = device s" "io_log s1 = Out8 0x20 0x20 # io_log s" "kinput s1 = kinput s" "kterm s1 = kterm s"
    by (simp_all add: s1_def s0_def irq_ack_def) (simp_all add: port_defs)
  have q: "ps2_keyboard_handler (kinput s1) s1 =
      (fold input_push (scan_keys (key_code L s)) (kinput s), io_do (In8 0x60) s1)"
    unfolding printable_code_cases [symmetric]
    by (simp add: ps2_keyboard_handler_def inb_def io_ask_def f key_code_def Let_def)
  have d: "deliver L e s = (io_do (In8 0x60) s1)\<lparr>kinput := fold input_push (scan_keys (key_code L s)) (kinput s)\<rparr>"
    using h assms(2) q by (simp add: deliver_def irq_dispatch_def Let_def s0_def s1_def)
  show "device (deliver L e s) = device s" "kterm (deliver L e s) = kterm s"
    "io_log (deliver L e s) = In8 0x60 # Out8 0x20 0x20 # io_log s"
    "kinput (deliver L e s) = fold input_push (scan_keys (key_code L s)) (kinput s)"
    using f by (simp_all add: d io_do_def)
qed

lemma deliver_timer:
  assumes "kernel_ok s" "vector e = 32"
  shows "device (deliver L e s) = device s" "kterm (deliver L e s) = kterm s"
    "io_log (deliver L e s) = Out8 0x20 0x20 # io_log s" "kinput (deliver L e s) = kinput s"
proof -
  have "handler (irq_table s 32) = Some Pit_handler" using assms(1) by (simp add: kernel_ok_def)
  then show "device (deliver L e s) = device s" "kterm (deliver L e s) = kterm s"
    "io_log (deliver L e s) = Out8 0x20 0x20 # io_log s" "kinput (deliver L e s) = kinput s"
    using assms(2) by (simp_all add: deliver_def irq_dispatch_def Let_def irq_ack_def pit_handler_def port_defs)
qed

lemma typed_deliver:
  assumes "kernel_ok s" "pending (kinput s) = []" "vector e = 32 \<or> vector e = 33"
  shows "typed (deliver L e s) es = typed s (e # es)" "kterm (deliver L e s) = kterm s"
proof -
  have "input_ok (kinput s)" using assms(1) by (simp add: kernel_ok_def)
  then have "pending (fold input_push (scan_keys code) (kinput s)) = scan_keys code" for code
    using assms(2) by (simp add: scan_keys_def iq.contents_push spec_push_def)
  then show "typed (deliver L e s) es = typed s (e # es)"
    using assms deliver_keyboard [OF assms(1), of e L] deliver_timer [OF assms(1), of e L]
    by (auto simp: typed_def key_code_def)
  show "kterm (deliver L e s) = kterm s"
    using assms(3) deliver_keyboard(2) [OF assms(1)] deliver_timer(2) [OF assms(1)] by auto
qed

text \<open>The wait of a read ends with the next character of the source.\<close>

lemma typing_wait:
  assumes "kernel_ok s" "timer_or_keyboard es" "typed s es \<noteq> []"
  shows "\<exists>t es'. hlt_until (\<lambda>s. input_available (kinput s)) (deliver L) es s = Some (t, es') \<and>
    same_machine s t \<and> kterm t = kterm s \<and> timer_or_keyboard es' \<and> typed t es' = typed s es"
  using assms
proof (induction es arbitrary: s)
  case Nil
  then have "input_available (kinput s)" by (simp add: typed_def kernel_ok_def available_pending)
  then show ?case using Nil.prems by (simp add: same_machine_def)
next
  case (Cons e es)
  show ?case
  proof (cases "input_available (kinput s)")
    case True
    then show ?thesis using Cons.prems by (simp add: same_machine_def)
  next
    case False
    then have "pending (kinput s) = []" using Cons.prems(1) by (simp add: kernel_ok_def available_pending)
    moreover have "vector e = 32 \<or> vector e = 33" using Cons.prems(2) by (simp add: timer_or_keyboard_def)
    ultimately have d: "typed (deliver L e s) es = typed s (e # es)" "kterm (deliver L e s) = kterm s"
      using typed_deliver [OF Cons.prems(1)] by blast+
    have m: "same_machine s (deliver L e s)"
      using Cons.prems(1) by (intro deliver_same) (simp add: same_machine_def)
    have "timer_or_keyboard es" using Cons.prems(2) by (simp add: timer_or_keyboard_def)
    then obtain t es' where "hlt_until (\<lambda>s. input_available (kinput s)) (deliver L) es (deliver L e s) = Some (t, es')"
        "same_machine (deliver L e s) t" "kterm t = kterm s" "timer_or_keyboard es'" "typed t es' = typed s (e # es)"
      using Cons.IH [of "deliver L e s"] Cons.prems(3) m d by (auto simp: same_machine_def)
    then show ?thesis using False same_machine_trans [OF m] by auto
  qed
qed

lemma typing_sleep:
  assumes "kernel_ok s" "timer_or_keyboard es" "typed s es = []"
  shows "hlt_until (\<lambda>s. input_available (kinput s)) (deliver L) es s = None"
  using assms
proof (induction es arbitrary: s)
  case Nil
  then show ?case by (simp add: typed_def kernel_ok_def available_pending)
next
  case (Cons e es)
  have p: "pending (kinput s) = []" using Cons.prems(3) by (simp add: typed_def)
  have "vector e = 32 \<or> vector e = 33" using Cons.prems(2) by (simp add: timer_or_keyboard_def)
  then have "typed (deliver L e s) es = []" using typed_deliver(1) [OF Cons.prems(1) p, of e L es] Cons.prems(3) by simp
  then have "hlt_until (\<lambda>s. input_available (kinput s)) (deliver L) es (deliver L e s) = None"
    using Cons.prems by (intro Cons.IH) (simp_all add: deliver_ok timer_or_keyboard_def)
  then show ?case using Cons.prems(1) p by (simp add: kernel_ok_def available_pending)
qed

lemma typing_asleep:
  assumes "kernel_ok s" "timer_or_keyboard es" "typed s es = []"
  shows "getchar L U s es = Asleep"
  using read_call [OF core_ok [OF assms(1)], where deliver = "deliver L" and es = es] typing_sleep [OF assms]
  by (simp add: getchar_def user_read_def syscall3_def no_regs_def)

interpretation typing: key_source L "\<lambda>s. timer_or_keyboard" typed for L
proof
  show "\<exists>s' es'. getchar L U s es = Done (int (unat c), store (a_char U) c s', es') \<and> same_machine s s' \<and>
      kterm s' = kterm s \<and> timer_or_keyboard es' \<and> typed s' es' = rest"
    if k: "kernel_ok s" "timer_or_keyboard es" "typed s es = c # rest" for U and s :: "'z kernel_scheme" and es c rest
  proof -
    obtain t es' where h: "hlt_until (\<lambda>s. input_available (kinput s)) (deliver L) es s = Some (t, es')"
        and t: "same_machine s t" "kterm t = kterm s" "timer_or_keyboard es'" "typed t es' = c # rest"
      using typing_wait [OF k(1,2), of L] k(3) by auto
    obtain c' q where q: "pending (kinput t) = c' # pending q" "input_ok q"
        "getchar L U s es = Done (int (unat c'), store (a_char U) c' (t\<lparr>kinput := q\<rparr>), es')"
      using read_one [OF k(1) h] by blast
    have "c' = c" "typed (t\<lparr>kinput := q\<rparr>) es' = rest" using t(4) q(1) by (simp_all add: typed_def)
    moreover have "same_machine s (t\<lparr>kinput := q\<rparr>)" using same_machine_fields(2) [OF t(1) q(2)] .
    ultimately show ?thesis using q(3) t(2,3) by fastforce
  qed
qed (simp_all add: typed_def)

section \<open>A keyboard\<close>

text \<open>
  A keyboard that answers the reads of its port with the scan codes \<open>codes\<close>, one after the other,
  whatever else the kernel does.
\<close>

definition keyboard :: "u8 list \<Rightarrow> 'z hw_scheme \<Rightarrow> bool" where
  "keyboard codes s \<longleftrightarrow> (\<forall>log k. k < length codes \<longrightarrow>
     count_list log (In8 0x60) = count_list (io_log s) (In8 0x60) + k \<longrightarrow>
     ucast (device s log (In8 0x60)) = codes ! k)"

abbreviation key_irqs :: "regs list \<Rightarrow> regs list" where "key_irqs es \<equiv> filter (\<lambda>e. vector e = 33) es"

lemma keys_of_keyboard:
  assumes "\<And>log k. k < length codes \<Longrightarrow> count_list log (In8 0x60) = n + k \<Longrightarrow>
      ucast (dev log (In8 0x60)) = codes ! k"
    and "count_list log (In8 0x60) = n + j" "length (key_irqs es) + j \<le> length codes"
  shows "keys_to_come dev log es = concat (map scan_keys (take (length (key_irqs es)) (drop j codes)))"
  using assms(2,3)
proof (induction es arbitrary: log j)
  case (Cons e es)
  show ?case
  proof (cases "vector e = 33")
    case True
    have j: "j < length codes" using Cons.prems(2) True by simp
    have "ucast (dev (Out8 0x20 0x20 # log) (In8 0x60)) = codes ! j"
      using assms(1) [OF j, of "Out8 0x20 0x20 # log"] Cons.prems(1) by simp
    moreover have "keys_to_come dev (In8 0x60 # Out8 0x20 0x20 # log) es =
        concat (map scan_keys (take (length (key_irqs es)) (drop (Suc j) codes)))"
      using Cons.prems True by (intro Cons.IH) simp_all
    ultimately show ?thesis using True by (simp add: Cons_nth_drop_Suc [OF j, symmetric])
  next
    case False
    then show ?thesis using Cons.IH [of "Out8 0x20 0x20 # log" j] Cons.prems by simp
  qed
qed simp

lemma keyboard_typed:
  assumes "keyboard codes s" "length (key_irqs es) = length codes"
  shows "typed s es = pending (kinput s) @ concat (map scan_keys codes)"
  using keys_of_keyboard [of codes "count_list (io_log s) (In8 0x60)" "device s" "io_log s" 0 es] assms
  by (simp add: typed_def keyboard_def)

end
