(* ===== verification/Userprint.thy ===== *)
theory Userprint
  imports Userlib
begin

text \<open>
  \<^verbatim>\<open>printf\<close> of the user library, \<^verbatim>\<open>src/user_libc/stdio.c\<close>, as a program: every character and every conversion is a
  system call, numbers go through the buffer on the stack, and strings are read where they are. The
  reference is \<open>user_printf\<close> of the theory of formatted output, the text of a format with its arguments: \<open>uprintf_prints\<close>
  shows that the system calls print it when the arguments are out of the way of the output.

  Undefined behaviour (a missing argument or one of another type, a format without end) is the outcome \<open>Null_Call\<close>,
  a string without terminator the outcome \<open>Endless\<close>.
\<close>

section \<open>The calls of printf\<close>

text \<open>
  Arguments: numbers and the address of a string. \<open>ULit\<close> is a pointer to a string literal, which no
  program changes; its text stands for its address.
\<close>

datatype uarg = UInt u32 | ULong u64 | UStr u64 | ULit string

definition write_literal :: "string \<Rightarrow> 'z kernel_scheme \<Rightarrow> regs list \<Rightarrow> (unit, 'z) action" where
  "write_literal str s es = Done ((), s\<lparr>kterm := fold terminal_putchar (bytes_of str) (kterm s)\<rparr>, es)"

definition buffer_at :: "nat \<Rightarrow> u64 \<Rightarrow> mem \<Rightarrow> string" where
  "buffer_at n p m = map (\<lambda>i. char_of (unat (m (p + of_nat i)))) [0..<n]"

definition put_chars :: "u64 \<Rightarrow> string \<Rightarrow> mem \<Rightarrow> mem" where
  "put_chars p cs m = (\<lambda>a. if unat (a - p) < length cs then of_char (cs ! unat (a - p)) else m a)"

text \<open>\<^verbatim>\<open>itoa(v, buf, base); sys_write(buf, strlen(buf))\<close>\<close>

definition write_number :: "layout \<Rightarrow> user_layout \<Rightarrow> u64 \<Rightarrow> u64 \<Rightarrow> 'z kernel_scheme \<Rightarrow> regs list \<Rightarrow> (unit, 'z) action" where
  "write_number L U v b s es =
     (case user_itoa v (buffer_at 64 (a_buf U) (kmem s)) b of
        None \<Rightarrow> Null_Call
      | Some cs \<Rightarrow> write_string L (a_buf U) (set_kmem (put_chars (a_buf U) cs (kmem s)) s) es)"

text \<open>Carry out a call and go on with the arguments that are left.\<close>

definition leaving :: "'b \<Rightarrow> ('a, 'z) action \<Rightarrow> ('b, 'z) action" where
  "leaving rest x = then_do x (\<lambda>(_, s, es). Done (rest, s, es))"

definition uconv ::
  "layout \<Rightarrow> user_layout \<Rightarrow> char \<Rightarrow> uarg list \<Rightarrow> 'z kernel_scheme \<Rightarrow> regs list \<Rightarrow> (uarg list, 'z) action" where
  "uconv L U c args s es =
     (if c = CHR ''s'' then
        (case args of
           UStr p # rest \<Rightarrow> leaving rest (write_string L p s es)
         | ULit str # rest \<Rightarrow> leaving rest (write_literal str s es)
         | _ \<Rightarrow> Null_Call)
      else if c = CHR ''c'' then
        (case args of UInt v # rest \<Rightarrow> leaving rest (putchar L U (ucast v) s es) | _ \<Rightarrow> Null_Call)
      else if c = CHR ''d'' then
        (case args of UInt v # rest \<Rightarrow> leaving rest (write_number L U (scast v) 10 s es) | _ \<Rightarrow> Null_Call)
      else if c = CHR ''u'' then
        (case args of UInt v # rest \<Rightarrow> leaving rest (write_number L U (ucast v) 10 s es) | _ \<Rightarrow> Null_Call)
      else if c = CHR ''x'' then
        (case args of UInt v # rest \<Rightarrow> leaving rest (write_number L U (ucast v) 16 s es) | _ \<Rightarrow> Null_Call)
      else if c = CHR ''%'' then leaving args (putchar L U 0x25 s es)
      else leaving args (then_do (putchar L U 0x25 s es) (\<lambda>(_, s, es). putchar L U (of_char c) s es)))"

definition ulconv ::
  "layout \<Rightarrow> user_layout \<Rightarrow> char \<Rightarrow> uarg list \<Rightarrow> 'z kernel_scheme \<Rightarrow> regs list \<Rightarrow> (uarg list, 'z) action" where
  "ulconv L U c args s es =
     (if c = CHR ''d'' then
        (case args of ULong v # rest \<Rightarrow> leaving rest (write_number L U v 10 s es) | _ \<Rightarrow> Null_Call)
      else if c = CHR ''x'' then
        (case args of ULong v # rest \<Rightarrow> leaving rest (write_number L U v 16 s es) | _ \<Rightarrow> Null_Call)
      else if c = CHR ''u'' then
        (case args of ULong v # rest \<Rightarrow> leaving rest (write_number L U v 10 s es) | _ \<Rightarrow> Null_Call)
      else Done (args, s, es))"

text \<open>The loop over what is left of the format.\<close>

fun uprintf_loop ::
  "layout \<Rightarrow> user_layout \<Rightarrow> string \<Rightarrow> uarg list \<Rightarrow> 'z kernel_scheme \<Rightarrow> regs list \<Rightarrow> (unit, 'z) action" where
  "uprintf_loop L U [] args s es = Null_Call"
| "uprintf_loop L U (c # fmt) args s es =
     (if c = NUL then Done ((), s, es)
      else if c \<noteq> CHR ''%'' then
        then_do (putchar L U (of_char c) s es) (\<lambda>(_, s, es). uprintf_loop L U fmt args s es)
      else
        (case fmt of
           [] \<Rightarrow> Null_Call
         | d # fmt1 \<Rightarrow>
             if d = CHR ''l'' then
               (case fmt1 of
                  [] \<Rightarrow> Null_Call
                | e # fmt2 \<Rightarrow>
                    then_do (ulconv L U e args s es) (\<lambda>(args, s, es). uprintf_loop L U fmt2 args s es))
             else then_do (uconv L U d args s es) (\<lambda>(args, s, es). uprintf_loop L U fmt1 args s es)))"

definition uprintf ::
  "layout \<Rightarrow> user_layout \<Rightarrow> string \<Rightarrow> uarg list \<Rightarrow> 'z kernel_scheme \<Rightarrow> regs list \<Rightarrow> (unit, 'z) action" where
  "uprintf L U fmt args s es = uprintf_loop L U (fmt @ [NUL]) args s es"

section \<open>Bytes and characters\<close>

lemma bytes_of_append [simp]: "bytes_of (a @ b) = bytes_of a @ bytes_of b"
  by (simp add: bytes_of_def)

lemma length_bytes_of [simp]: "length (bytes_of a) = length a"
  by (simp add: bytes_of_def)

lemma of_char_of_byte: "of_char (char_of (unat b)) = b" for b :: u8
proof -
  have n: "of_char (char_of (unat b)) = unat b" using unat_bound [of b] by (simp add: of_char_of)
  have "(of_char (char_of (unat b)) :: u8) = of_nat (of_char (char_of (unat b)))" by (rule of_nat_of_char [symmetric])
  also have "\<dots> = b" by (simp only: n) simp
  finally show ?thesis .
qed

lemma of_char_zero: "(of_char c :: u8) = 0 \<longleftrightarrow> c = NUL"
proof
  assume z: "(of_char c :: u8) = 0"
  have n: "(of_char c :: nat) < 256" using of_char_mod_256 [of c] by (metis mod_less_divisor zero_less_numeral)
  have "(of_nat (of_char c) :: u8) = of_nat 0" using z by (simp add: of_nat_of_char)
  then have "(of_char c :: nat) = of_char NUL" using n by (simp only: word_of_nat_eq_iff take_bit_eq_mod) simp
  then show "c = NUL" by (simp only: of_char_eq_iff)
qed simp

lemma char_of_int_byte: "of_char (char_of_int v) = (ucast v :: u8)"
proof -
  have "char_of_int v = char_of (unat (ucast v :: u8))" by (simp add: char_of_int_def unat_ucast_mod)
  then show ?thesis by (simp only: of_char_of_byte)
qed

text \<open>Every terminated string of bytes is a string, and the other way round.\<close>

lemma byte_string:
  assumes "0 \<notin> set w"
  shows "\<exists>str. NUL \<in> set str \<and> bytes_of (cstr str) = w"
proof -
  let ?c = "map (\<lambda>b. char_of (unat b)) w"
  have b: "bytes_of ?c = w" by (simp add: bytes_of_def comp_def of_char_of_byte)
  then have "NUL \<notin> set ?c" using assms by (metis bytes_of_def image_eqI list.set_map of_char_zero)
  then show ?thesis using b cstr_append [of ?c "[]"] by (intro exI [of _ "?c @ [NUL]"]) simp
qed

lemma cstr_bytes_nonzero: "0 \<notin> set (bytes_of (cstr str))"
  using cstr_no_NUL [of str] by (auto simp: bytes_of_def of_char_zero dest: sym)

section \<open>What the calls print\<close>

definition scratch :: "user_layout \<Rightarrow> u64 set" where
  "scratch U = insert (a_char U) (region (a_buf U) 64)"

lemma putchar_scratch:
  "kernel_ok s \<Longrightarrow> \<exists>r s'. putchar L U c s es = Done (r, s', es) \<and> prints (scratch U) [c] s s'"
  using putchar_prints [of s L U c es] prints_mono [of "{a_char U}" _ s _ "scratch U"] by (auto simp: scratch_def)

lemma fold_putchar:
  assumes "terminal_ok t"
  shows "terminal_ok (fold terminal_putchar cs t) \<and> displays cs t (fold terminal_putchar cs t) \<and>
    changes_within (screen_bytes t) (tmem t) (tmem (fold terminal_putchar cs t))"
  using assms
proof (induction cs arbitrary: t)
  case (Cons c cs)
  have p: "terminal_ok (terminal_putchar c t)" "displays [c] t (terminal_putchar c t)"
    "changes_within (screen_bytes t) (tmem t) (tmem (terminal_putchar c t))"
    using putchar_ok [OF Cons.prems] putchar_displays [OF Cons.prems] by (simp_all add: changes_within_def)
  then have "screen_bytes (terminal_putchar c t) = screen_bytes t" by (simp add: displays_def screen_bytes_def)
  then show ?case using Cons.IH [OF p(1)] displays_append [OF p(2)] p(3) by (auto simp: changes_within_def)
qed (simp add: displays_nil)

lemma literal_prints:
  assumes "kernel_ok s"
  shows "\<exists>s'. write_literal str s es = Done ((), s', es) \<and> prints A (bytes_of str) s s'"
proof -
  have t: "terminal_ok (kterm s)" using assms by (simp add: kernel_ok_def)
  note f = fold_putchar [OF t, of "bytes_of str"]
  have "tfb (fold terminal_putchar (bytes_of str) (kterm s)) = tfb (kterm s)" using f by (simp add: displays_def)
  then show ?thesis using f kernel_ok_terminal [OF assms] by (auto simp: write_literal_def prints_def changes_within_def)
qed

text \<open>This is what \<^verbatim>\<open>sys_write\<close> does wherever the literal is, apart from the screen.\<close>

lemma literal_write:
  assumes "kernel_ok s" "bytes_at (kmem s) p (bytes_of str)" "length str < 2 ^ 64"
    and "region p (length str) \<inter> screen_bytes (kterm s) = {}"
  shows "leaving () (user_write L p (of_nat (length str)) s es) = write_literal str s es"
proof -
  let ?n = "of_nat (length str) :: u64" and ?f = "\<lambda>k. fold terminal_putchar (take k (bytes_of str)) (kterm s)"
  have u: "unat ?n = length str" using assms(3) by (intro unat_of_nat_small) simp
  have t: "terminal_ok (kterm s)" using assms(1) by (simp add: kernel_ok_def)
  have "terminal_write p ?n (kterm s) = ?f (unat ?n)"
    unfolding terminal_write_def
  proof (rule for_loop_inv [where P = "\<lambda>i t. t = ?f (unat i)"])
    fix i t' assume i: "i < ?n" and t': "t' = ?f (unat i)"
    have k: "unat i < length (bytes_of str)" using i u by (simp add: word_less_nat_alt)
    then have "p + i \<in> region p (length str)" by (simp add: in_region_iff)
    then have "p + i \<notin> screen_bytes (kterm s)" using assms(4) by blast
    then have "tmem t' (p + i) = kmem s (p + of_nat (unat i))"
      using fold_putchar [OF t, of "take (unat i) (bytes_of str)"] unfolding t' by (simp add: changes_within_def)
    also have "\<dots> = bytes_of str ! unat i" by (rule bytes_at_nth [OF assms(2) k])
    finally show "terminal_putchar (tmem t' (p + i)) t' = ?f (unat (i + 1))"
      using k by (simp add: t' unat_Suc_less [OF i] take_Suc_conv_app_nth)
  qed simp_all
  then show ?thesis using u by (simp add: leaving_def write_literal_def write_call [OF core_ok [OF assms(1)]])
qed

lemma put_chars_bytes:
  assumes "length cs \<le> 2 ^ 64"
  shows "bytes_at (put_chars p cs m) p (bytes_of cs)" "changes_within (region p (length cs)) m (put_chars p cs m)"
  using assms by (auto simp: bytes_at_iff put_chars_def bytes_of_def unat_of_nat_small changes_within_def in_region_iff)

lemma number_prints:
  assumes "kernel_ok s" "b = 10 \<and> out = show_int user_digits (sint v) \<or> b = 16 \<and> out = show_nat user_digits 16 (unat v)"
  shows "\<exists>s'. write_number L U v b s es = Done ((), s', es) \<and> prints (scratch U) (bytes_of out) s s'"
proof -
  have len: "length (buffer_at 64 (a_buf U) (kmem s)) = 64" by (simp add: buffer_at_def)
  obtain cs where cs: "user_itoa v (buffer_at 64 (a_buf U) (kmem s)) b = Some cs" "length cs = 64" "NUL \<in> set cs" "cstr cs = out"
    using assms(2) itoa_dec_result [OF digit_tables(5,6,8), of "buffer_at 64 (a_buf U) (kmem s)" v]
      itoa_hex_result [OF digit_tables(5,6,8), of "buffer_at 64 (a_buf U) (kmem s)" v] len
    by (auto simp: user_itoa_def)
  let ?m = "put_chars (a_buf U) cs (kmem s)"
  let ?s = "set_kmem ?m s"
  have p: "bytes_at ?m (a_buf U) (bytes_of cs)" "changes_within (scratch U) (kmem s) ?m"
    using put_chars_bytes [of cs "a_buf U" "kmem s"] cs(2) by (auto simp: scratch_def changes_within_def)
  obtain r where r: "cs = out @ NUL # r" using terminated_split [OF cs(3)] cs(4) by metis
  have w: "bytes_at (kmem ?s) (a_buf U) (bytes_of out @ [0])"
    using p(1) unfolding r by (simp add: set_kmem_def bytes_at_append) (simp add: bytes_of_def)
  have out: "short (bytes_of out)" "length out < 64" using cstr_bytes_nonzero [of cs] cs(2,4) r by auto
  have k: "prints (scratch U) [] s ?s" by (rule set_kmem_prints [OF assms(1) p(2)])
  have "region (a_buf U) (length out) \<subseteq> scratch U"
    using region_mono [of "length out" 64 "a_buf U"] out(2) by (auto simp: scratch_def)
  then obtain s' where "write_string L (a_buf U) ?s es = Done ((), s', es)" "prints (scratch U) (bytes_of out) ?s s'"
    using write_string_prints [OF prints_ok [OF k] w out(1), of "scratch U" L es] by (auto simp: disjoint_iff)
  then show ?thesis using cs(1) prints_append [OF k] by (auto simp: write_number_def)
qed

section \<open>printf prints the text of its format\<close>

text \<open>The argument a call is given and the argument it is in the reference; strings are in \<open>A\<close>.\<close>

fun arg_is :: "u64 set \<Rightarrow> mem \<Rightarrow> uarg \<Rightarrow> arg \<Rightarrow> bool" where
  "arg_is A m (UInt v) (ArgInt w) \<longleftrightarrow> v = w"
| "arg_is A m (ULong v) (ArgLong w) \<longleftrightarrow> v = w"
| "arg_is A m (UStr p) (ArgStr str) \<longleftrightarrow>
     NUL \<in> set str \<and> length (cstr str) + 1 < 2 ^ 64 \<and> word_at A m p (bytes_of (cstr str))"
| "arg_is A m (ULit a) (ArgStr str) \<longleftrightarrow> NUL \<in> set str \<and> a = cstr str"
| "arg_is A m _ _ \<longleftrightarrow> False"

abbreviation args_are :: "u64 set \<Rightarrow> mem \<Rightarrow> uarg list \<Rightarrow> arg list \<Rightarrow> bool" where
  "args_are A m \<equiv> list_all2 (arg_is A m)"

lemma arg_is_prints:
  "arg_is A (kmem s) a b \<Longrightarrow> prints B out s s' \<Longrightarrow> outside B A (kterm s) \<Longrightarrow> arg_is A (kmem s') a b"
  using cstr_bytes_nonzero
  by (cases "(A, kmem s, a, b)" rule: arg_is.cases) (auto intro: word_prints)

lemma args_are_prints:
  "args_are A (kmem s) as bs \<Longrightarrow> prints B out s s' \<Longrightarrow> outside B A (kterm s) \<Longrightarrow> args_are A (kmem s') as bs"
  by (erule list_all2_mono) (rule arg_is_prints)

text \<open>A conversion prints what the reference says and leaves the same arguments.\<close>

definition converts ::
  "user_layout \<Rightarrow> u64 set \<Rightarrow> (string \<times> arg list) option \<Rightarrow> 'z kernel_scheme \<Rightarrow> regs list \<Rightarrow> (uarg list, 'z) action \<Rightarrow> bool" where
  "converts U A r s es x \<longleftrightarrow> (\<forall>out rest. r = Some (out, rest) \<longrightarrow>
     (\<exists>as s'. x = Done (as, s', es) \<and> prints (scratch U) (bytes_of out) s s' \<and> args_are A (kmem s) as rest))"

lemma converts_leaving:
  assumes "\<exists>r s'. x = Done (r, s', es) \<and> prints (scratch U) (bytes_of out) s s'" "args_are A (kmem s) as rest"
  shows "converts U A (Some (out, rest)) s es (leaving as x)"
  using assms by (auto simp: converts_def leaving_def)

lemma leaving_then: "then_do (leaving as x) f = then_do x (\<lambda>(_, s, es). f (as, s, es))"
  by (cases x) (auto simp: leaving_def)

lemma converts_number:
  assumes "kernel_ok s" "args_are A (kmem s) as rest"
  shows "converts U A (Some (show_int user_digits (sint v), rest)) s es (leaving as (write_number L U v 10 s es))"
    "converts U A (Some (show_nat user_digits 16 (unat v), rest)) s es (leaving as (write_number L U v 16 s es))"
proof -
  have "\<exists>r s'. write_number L U v 10 s es = Done (r, s', es) \<and> prints (scratch U) (bytes_of (show_int user_digits (sint v))) s s'"
    using number_prints [OF assms(1), of 10 _ v] by simp
  then show "converts U A (Some (show_int user_digits (sint v), rest)) s es (leaving as (write_number L U v 10 s es))"
    using assms(2) by (rule converts_leaving)
  have "\<exists>r s'. write_number L U v 16 s es = Done (r, s', es) \<and> prints (scratch U) (bytes_of (show_nat user_digits 16 (unat v))) s s'"
    using number_prints [OF assms(1), of 16 _ v] by simp
  then show "converts U A (Some (show_nat user_digits 16 (unat v), rest)) s es (leaving as (write_number L U v 16 s es))"
    using assms(2) by (rule converts_leaving)
qed

lemma converts_string:
  assumes "kernel_ok s" "outside (scratch U) A (kterm s)" "args_are A (kmem s) as rest" "arg_is A (kmem s) a (ArgStr str)"
  shows "converts U A (Some (cstr str, rest)) s es (uconv L U (CHR ''s'') (a # as) s es)"
proof (cases a)
  case (UStr p)
  then have "\<exists>s'. write_string L p s es = Done ((), s', es) \<and> prints (scratch U) (bytes_of (cstr str)) s s'"
    using assms(4) by (intro word_written [OF assms(1) _ _ assms(2)]) (simp_all add: cstr_bytes_nonzero)
  then show ?thesis using assms(3) UStr by (auto simp: uconv_def intro!: converts_leaving)
next
  case (ULit l)
  then show ?thesis using assms(3,4) literal_prints [OF assms(1)] by (auto simp: uconv_def intro!: converts_leaving)
qed (use assms(4) in simp_all)

lemma two_chars:
  assumes "kernel_ok s"
  shows "\<exists>r s'. then_do (putchar L U c s es) (\<lambda>(_, s, es). putchar L U d s es) = Done (r, s', es) \<and> prints (scratch U) [c, d] s s'"
proof -
  obtain r s1 where 1: "putchar L U c s es = Done (r, s1, es)" "prints (scratch U) [c] s s1"
    using putchar_scratch [OF assms] by blast
  obtain r' s2 where "putchar L U d s1 es = Done (r', s2, es)" "prints (scratch U) [d] s1 s2"
    using putchar_scratch [OF prints_ok [OF 1(2)]] by blast
  then show ?thesis using 1 prints_append [OF 1(2)] by auto
qed

lemma arg_is_cases:
  "arg_is A m a (ArgInt v) \<longleftrightarrow> a = UInt v" "arg_is A m a (ArgLong w) \<longleftrightarrow> a = ULong w" "\<not> arg_is A m a (ArgPtr q)"
  by (cases a; auto)+

lemma uconv_converts:
  assumes "kernel_ok s" "outside (scratch U) A (kterm s)" "args_are A (kmem s) as args"
  shows "converts U A (user_conv c args) s es (uconv L U c as s es)"
proof -
  note num = converts_number [OF assms(1)] and ch = putchar_scratch [OF assms(1)]
  have percent: "converts U A (Some (''%'', args)) s es (leaving as (putchar L U 0x25 s es))"
    using ch [of L U "0x25" es] assms(3) by (intro converts_leaving) (simp_all add: bytes_of_def)
  have other: "converts U A (Some ([CHR ''%'', c], args)) s es
      (leaving as (then_do (putchar L U 0x25 s es) (\<lambda>(_, s, es). putchar L U (of_char c) s es)))"
    using two_chars [OF assms(1), of L U "0x25" es "of_char c"] assms(3) by (intro converts_leaving) (simp_all add: bytes_of_def)
  have str: "converts U A (user_conv (CHR ''s'') args) s es (uconv L U (CHR ''s'') as s es)"
    using assms(3) converts_string [OF assms(1,2)]
    by (auto simp: user_conv_def emit_def converts_def list_all2_Cons2 split: list.splits arg.splits)
  have int: "converts U A (user_conv c args) s es (uconv L U c as s es)" if "c \<in> set ''cdux''"
  proof (cases "\<exists>v rest. args = ArgInt v # rest")
    case True
    then obtain v rest as' where a: "args = ArgInt v # rest" "as = UInt v # as'" "args_are A (kmem s) as' rest"
      using assms(3) by (auto simp: list_all2_Cons2 arg_is_cases)
    have "converts U A (Some ([char_of_int v], rest)) s es (leaving as' (putchar L U (ucast v) s es))"
      using ch [of L U "ucast v" es] a(3) by (intro converts_leaving) (simp_all add: bytes_of_def char_of_int_byte)
    then show ?thesis using a num(1) [OF a(3), of U "scast v" es L] num [OF a(3), of U "ucast v" es L] that
      by (auto simp: user_conv_def uconv_def user_emit sint_scast_up)
  qed (use that in \<open>auto simp: user_conv_def converts_def split: list.splits arg.splits\<close>)
  show ?thesis
  proof (cases "c \<in> set ''scdux''")
    case True
    then show ?thesis using str int by auto
  next
    case False
    then show ?thesis using percent other by (simp add: user_conv_def uconv_def)
  qed
qed

lemma ulconv_converts:
  assumes "kernel_ok s" "args_are A (kmem s) as args"
  shows "converts U A (user_lconv c args) s es (ulconv L U c as s es)"
proof (cases "c \<in> set ''dux'' \<and> (\<exists>v rest. args = ArgLong v # rest)")
  case True
  then obtain v rest as' where a: "args = ArgLong v # rest" "as = ULong v # as'" "args_are A (kmem s) as' rest"
    using assms(2) by (auto simp: list_all2_Cons2 arg_is_cases)
  then show ?thesis using True converts_number [OF assms(1) a(3), of U v es L]
    by (auto simp: user_lconv_def ulconv_def user_emit)
next
  case False
  then show ?thesis using assms prints_nil [OF assms(1)]
    by (auto simp: user_lconv_def ulconv_def converts_def bytes_of_def split: list.splits arg.splits)
qed

text \<open>What the format can begin with.\<close>

lemma format_cases:
  obtains (none) "fmt = []" | (finish) f where "fmt = NUL # f"
  | (plain) c f where "fmt = c # f" "c \<noteq> NUL" "c \<noteq> CHR ''%''"
  | (cut) "fmt = ''%'' \<or> fmt = ''%l''"
  | (conv) c f where "fmt = CHR ''%'' # c # f" "c \<noteq> CHR ''l''"
  | (long) c f where "fmt = CHR ''%'' # CHR ''l'' # c # f"
  by (metis neq_Nil_conv)

lemma loop_cut: "fmt = ''%'' \<or> fmt = ''%l'' \<Longrightarrow> printf_loop conv lconv fmt 0 args = None"
  by (subst printf_loop.simps) (auto simp: getc_def)

text \<open>The loop from a state on prints the reference's text of what is left of the format.\<close>

definition prints_format :: "layout \<Rightarrow> user_layout \<Rightarrow> u64 set \<Rightarrow> regs list \<Rightarrow> 'z kernel_scheme itself \<Rightarrow> string \<Rightarrow> bool" where
  "prints_format L U A es ty fmt \<longleftrightarrow> (\<forall>(s :: 'z kernel_scheme) as args out.
     kernel_ok s \<longrightarrow> outside (scratch U) A (kterm s) \<longrightarrow> args_are A (kmem s) as args \<longrightarrow>
     printf_loop user_conv user_lconv fmt 0 args = Some out \<longrightarrow>
     (\<exists>s'. uprintf_loop L U fmt as s es = Done ((), s', es) \<and> prints (scratch U) (bytes_of out) s s'))"

lemma printed_then:
  assumes "outside (scratch U) A (kterm s)" "converts U A r s es x" "prints_format L U A es TYPE('z kernel_scheme) fmt"
    and "(case r of None \<Rightarrow> None
      | Some (o', args) \<Rightarrow> map_option (\<lambda>out. o' @ out) (printf_loop user_conv user_lconv fmt 0 args)) = Some out"
  shows "\<exists>s'. then_do x (\<lambda>(as, s, es). uprintf_loop L U fmt as s es) = Done ((), s', es) \<and>
    prints (scratch U) (bytes_of out) s (s' :: 'z kernel_scheme)"
proof -
  obtain o1 rest o2 where o1: "r = Some (o1, rest)" "printf_loop user_conv user_lconv fmt 0 rest = Some o2" "out = o1 @ o2"
    using assms(4) by (auto split: option.splits)
  obtain as' s1 where 1: "x = Done (as', s1, es)" "prints (scratch U) (bytes_of o1) s s1" "args_are A (kmem s) as' rest"
    using assms(2) o1(1) by (auto simp: converts_def)
  obtain s' where "uprintf_loop L U fmt as' s1 es = Done ((), s', es)" "prints (scratch U) (bytes_of o2) s1 s'"
    using assms(3) prints_ok [OF 1(2)] outside_prints [OF assms(1) 1(2)] args_are_prints [OF 1(3,2) assms(1)] o1(2)
    unfolding prints_format_def by blast
  then show ?thesis using 1(1) prints_append [OF 1(2)] o1(3) by auto
qed

lemma uprintf_loop_prints: "prints_format L U A es TYPE('z kernel_scheme) fmt"
proof (induction "length fmt" arbitrary: fmt rule: less_induct)
  case less
  show ?case unfolding prints_format_def
  proof (intro allI impI)
    fix s :: "'z kernel_scheme" and as args out
    assume s: "kernel_ok s" "outside (scratch U) A (kterm s)" "args_are A (kmem s) as args"
      and out: "printf_loop user_conv user_lconv fmt 0 args = Some out"
    show "\<exists>s'. uprintf_loop L U fmt as s es = Done ((), s', es) \<and> prints (scratch U) (bytes_of out) s s'"
    proof (cases fmt rule: format_cases)
      case (finish f)
      then show ?thesis using out prints_nil [OF s(1)] by (simp add: loop_end bytes_of_def)
    next
      case (plain c f)
      have "converts U A (Some ([c], args)) s es (leaving as (putchar L U (of_char c) s es))"
        using putchar_scratch [OF s(1)] s(3) by (intro converts_leaving) (simp_all add: bytes_of_def)
      from printed_then [OF s(2) this less.hyps, of f out] show ?thesis using plain out
        by (auto simp: loop_plain leaving_then)
    next
      case (conv c f)
      then show ?thesis using printed_then [OF s(2) uconv_converts [OF s] less.hyps, of f c out L] out
        by (simp add: loop_conv)
    next
      case (long c f)
      then show ?thesis using printed_then [OF s(2) ulconv_converts [OF s(1,3)] less.hyps, of f c out L] out
        by (simp add: loop_long)
    qed (use out loop_end loop_cut in auto)
  qed
qed

lemma uprintf_prints:
  assumes "kernel_ok s" "outside (scratch U) A (kterm s)" "args_are A (kmem s) as args"
    and "user_printf (fmt @ [NUL]) args = Some out"
  shows "\<exists>s'. uprintf L U fmt as s es = Done ((), s', es) \<and> prints (scratch U) (bytes_of out) s s'"
  using uprintf_loop_prints [of L U A es "fmt @ [NUL]"] assms unfolding prints_format_def uprintf_def user_printf_def by blast

section \<open>Formats\<close>

text \<open>An action that prints \<open>out\<close> and returns.\<close>

definition says :: "user_layout \<Rightarrow> u8 list \<Rightarrow> 'z kernel_scheme \<Rightarrow> regs list \<Rightarrow> (unit, 'z) action \<Rightarrow> bool" where
  "says U out s es x \<longleftrightarrow> (\<exists>s'. x = Done ((), s', es) \<and> prints (scratch U) out s s')"

lemma says_done: "kernel_ok s \<Longrightarrow> says U [] s es (Done ((), s, es))"
  by (simp add: says_def prints_nil)

lemma says_then:
  assumes "says U a s es x" "\<And>s'. prints (scratch U) a s s' \<Longrightarrow> says U b s' es (f ((), s', es))"
  shows "says U (a @ b) s es (then_do x f)"
  using assms prints_append by (fastforce simp: says_def)

lemma says_putchar: "kernel_ok s \<Longrightarrow> says U [c] s es (leaving () (putchar L U c s es))"
  using putchar_scratch [of s L U c es] by (auto simp: says_def leaving_def)

lemma says_word: "kernel_ok s \<Longrightarrow> word_at A (kmem s) p w \<Longrightarrow> short w \<Longrightarrow> outside (scratch U) A (kterm s) \<Longrightarrow>
    says U w s es (write_string L p s es)"
  using word_written by (simp add: says_def)

lemma says_printf:
  "kernel_ok s \<Longrightarrow> outside (scratch U) A (kterm s) \<Longrightarrow> args_are A (kmem s) as args \<Longrightarrow>
     user_printf (fmt @ [NUL]) args = Some out \<Longrightarrow> says U (bytes_of out) s es (uprintf L U fmt as s es)"
  using uprintf_prints by (simp add: says_def)

text \<open>Numbers and literals are never in the way.\<close>

lemma says_values:
  assumes "kernel_ok s" "args_are {} (kmem s) as args" "user_printf (fmt @ [NUL]) args = Some out"
  shows "says U (bytes_of out) s es (uprintf L U fmt as s es)"
  by (rule says_printf [OF assms(1) _ assms(2,3)]) (simp add: outside_def)

text \<open>The formats the programs use are made of directives.\<close>

lemma printf_directives:
  assumes "fmt = concat (map unparse ds)" "list_all directive_ok ds" "render user_digits [] ds args = Some (out, rest)"
  shows "user_printf (fmt @ [NUL]) args = Some out"
  using up.directives [of ds args out rest "[NUL]"] up.terminated assms by (simp add: user_printf_def list_all_iff)

text \<open>Formats without conversions, and with one \<^verbatim>\<open>%s\<close>.\<close>

definition plain :: "string \<Rightarrow> bool" where "plain str \<longleftrightarrow> (\<forall>c \<in> set str. c \<noteq> NUL \<and> c \<noteq> CHR ''%'')"

lemma plain_unparse: "concat (map unparse (map Plain str)) = str"
  by (induction str) simp_all

lemma plain_ok: "plain str \<Longrightarrow> list_all directive_ok (map Plain str)"
  by (simp add: list_all_iff plain_def)

lemma plain_render:
  "render D px (map Plain str @ ds) args = map_option (\<lambda>(out, rest). (str @ out, rest)) (render D px ds args)"
proof (induction str)
  case Nil
  show ?case by (cases "render D px ds args") auto
next
  case (Cons c str)
  then show ?case by (cases "render D px ds args") auto
qed

lemma printf_plain: "plain str \<Longrightarrow> user_printf (str @ [NUL]) args = Some str"
  using plain_render [of user_digits "[]" str "[]" args]
  by (intro printf_directives [where ds = "map Plain str" and rest = args]) (simp_all add: plain_unparse plain_ok del: map_map)

lemma printf_string:
  assumes "plain a" "plain b" "NUL \<in> set str"
  shows "user_printf ((a @ ''%s'' @ b) @ [NUL]) [ArgStr str] = Some (a @ cstr str @ b)"
proof (rule printf_directives [where ds = "map Plain a @ Conv (CHR ''s'') # map Plain b" and rest = "[]"])
  show "a @ ''%s'' @ b = concat (map unparse (map Plain a @ Conv (CHR ''s'') # map Plain b))"
    by (simp only: map_append concat_append list.map concat.simps plain_unparse) simp
  show "list_all directive_ok (map Plain a @ Conv (CHR ''s'') # map Plain b)" using assms by (simp add: plain_ok)
  show "render user_digits [] (map Plain a @ Conv (CHR ''s'') # map Plain b) [ArgStr str] = Some (a @ cstr str @ b, [])"
    using plain_render [of user_digits "[]" b "[]" "[]"] assms(3) by (simp add: plain_render)
qed


text \<open>Two conversions; the arguments are rendered one after the other.\<close>

lemma printf_two:
  assumes "plain a" "plain b" "plain c" "directive_ok d1" "directive_ok d2"
    and "render1 user_digits [] d1 [x, y] = Some (o1, [y])" "render1 user_digits [] d2 [y] = Some (o2, [])"
  shows "user_printf ((a @ unparse d1 @ b @ unparse d2 @ c) @ [NUL]) [x, y] = Some (a @ o1 @ b @ o2 @ c)"
proof (rule printf_directives [where ds = "map Plain a @ d1 # map Plain b @ d2 # map Plain c" and rest = "[]"])
  show "a @ unparse d1 @ b @ unparse d2 @ c = concat (map unparse (map Plain a @ d1 # map Plain b @ d2 # map Plain c))"
    by (simp only: map_append concat_append list.map concat.simps plain_unparse)
  show "list_all directive_ok (map Plain a @ d1 # map Plain b @ d2 # map Plain c)" using assms by (simp add: plain_ok)
  show "render user_digits [] (map Plain a @ d1 # map Plain b @ d2 # map Plain c) [x, y] = Some (a @ o1 @ b @ o2 @ c, [])"
    using plain_render [of user_digits "[]" c "[]" "[]"] assms(6,7) by (simp add: plain_render)
qed

lemma printf_long:
  assumes "plain a" "plain b"
  shows "user_printf ((a @ ''%lu'' @ b) @ [NUL]) [ArgLong v] = Some (a @ show_int user_digits (sint v) @ b)"
proof (rule printf_directives [where ds = "map Plain a @ LongConv (CHR ''u'') # map Plain b" and rest = "[]"])
  show "a @ ''%lu'' @ b = concat (map unparse (map Plain a @ LongConv (CHR ''u'') # map Plain b))"
    by (simp only: map_append concat_append list.map concat.simps plain_unparse) simp
  show "list_all directive_ok (map Plain a @ LongConv (CHR ''u'') # map Plain b)" using assms by (simp add: plain_ok)
  show "render user_digits [] (map Plain a @ LongConv (CHR ''u'') # map Plain b) [ArgLong v] =
      Some (a @ show_int user_digits (sint v) @ b, [])"
    using plain_render [of user_digits "[]" b "[]" "[]"] by (simp add: plain_render)
qed

lemma says_plain: "kernel_ok s \<Longrightarrow> plain str \<Longrightarrow> says U (bytes_of str) s es (uprintf L U str [] s es)"
  by (rule says_values [OF _ _ printf_plain]) simp_all

text \<open>A string in memory that is not in the way of the output.\<close>

lemma says_string:
  assumes "kernel_ok s" "plain a" "plain b" "word_at A (kmem s) p w" "short w" "outside (scratch U) A (kterm s)"
  shows "says U (bytes_of a @ w @ bytes_of b) s es (uprintf L U (a @ ''%s'' @ b) [UStr p] s es)"
proof -
  obtain str where str: "NUL \<in> set str" "bytes_of (cstr str) = w" using byte_string assms(5) by blast
  then have "args_are A (kmem s) [UStr p] [ArgStr str]" using assms(4,5) by auto
  then show ?thesis using says_printf [OF assms(1,6) _ printf_string [OF assms(2,3) str(1)]] str(2) by simp
qed

lemma says_terminated:
  assumes "kernel_ok s" "plain a" "plain b" "k < 64" "kmem s (p + of_nat k) = 0" "outside (scratch U) (region p 64) (kterm s)"
  shows "\<exists>out. says U out s es (uprintf L U (a @ ''%s'' @ b) [UStr p] s es)"
proof -
  obtain w where w: "bytes_at (kmem s) p (w @ [0])" "0 \<notin> set w" "length w \<le> k"
    using terminated_bytes [of "kmem s" p k] assms(4,5) by auto
  then have "word_at (region p 64) (kmem s) p w" "short w"
    using assms(4) region_mono [of "length w + 1" 64 p] by (auto simp: word_at_def)
  then show ?thesis using says_string [OF assms(1-3) _ _ assms(6)] by blast
qed

section \<open>Properties\<close>


text \<open>A program whose memory is below the screen, and a kernel with the string \<^verbatim>\<open>h\<close> in that memory.\<close>

definition demo_user :: user_layout where
  "demo_user = \<lparr>a_char = 0x7000, a_buf = 0x7100, a_line = 0x5000, a_info = 0x6000\<rparr>"

definition demo_string :: kernel where
  "demo_string = store 0x6001 0 (store 0x6000 0x68 demo_running)"

lemma demo_string_facts:
  "kernel_ok demo_string" "screen_bytes (kterm demo_string) = vga_bytes" "\<not> fb_ok (tfb (kterm demo_string))"
  "word_at (region 0x6000 2) (kmem demo_string) 0x6000 [0x68]"
proof -
  show "kernel_ok demo_string" using demo_running_ok by (simp add: demo_string_def store_def)
  show "screen_bytes (kterm demo_string) = vga_bytes" "\<not> fb_ok (tfb (kterm demo_string))"
    by (simp_all add: demo_string_def store_def set_kmem_def demo_running_def irq_register_def demo_kernel_fields screen_bytes_def
        terminal_initial_def fb_initial_def)
  show "word_at (region 0x6000 2) (kmem demo_string) 0x6000 [0x68]"
    by (simp add: word_at_def demo_string_def store_def set_kmem_def numeral_2_eq_2)
qed

lemma demo_scratch: "scratch demo_user \<inter> vga_bytes = {}"
proof -
  have "region 0x7100 64 \<inter> vga_bytes = {}"
    using region_offset_disjoint [of 0 64 "0xB0F00" 4000 "0x7100"] by (simp add: vga_bytes_def)
  moreover have "0x7000 \<notin> vga_bytes" by (simp add: vga_bytes_def in_region_iff)
  ultimately show ?thesis by (simp add: scratch_def demo_user_def)
qed


end
