(* ===== verification/Lineedit.thy ===== *)
theory Lineedit
  imports Typing Userprint
begin

text \<open>
  How the shell reads its input, \<^verbatim>\<open>readline\<close> and \<^verbatim>\<open>tokenize\<close> of \<^verbatim>\<open>src/programs/shell/main.c\<close>: a line editor on the
  characters of the keyboard, and a splitter that cuts a line into words in place. Loops that wait for
  input or search memory are partial functions: \<open>None\<close> is a loop that runs for ever.

  The specifications are \<open>edit\<close>, the line a sequence of keys leaves, with its echo \<open>edit_echo\<close>, and \<open>words\<close>, a line
  split at blanks. \<open>line_read\<close> is what a client of \<open>readline\<close> may rely on whatever the interrupts do.
\<close>

section \<open>Loops around system calls\<close>

text \<open>Sequencing inside a loop: an action that does not return ends the loop with its outcome.\<close>

definition and_then :: "('a, 's) outcome \<Rightarrow> ('a \<Rightarrow> ('b, 's) outcome option) \<Rightarrow> ('b, 's) outcome option" where
  "and_then x f =
     (case x of Done a \<Rightarrow> f a | Halted s \<Rightarrow> Some (Halted s) | Asleep \<Rightarrow> Some Asleep | Endless \<Rightarrow> Some Endless
      | Divide_Error \<Rightarrow> Some Divide_Error | Null_Call \<Rightarrow> Some Null_Call)"

lemma and_then_mono [partial_function_mono]:
  "(\<And>a. mono_option (\<lambda>g. f g a)) \<Longrightarrow> mono_option (\<lambda>g. and_then x (f g))"
  by (cases x) (simp_all add: and_then_def monotone_on_def flat_ord_def)

lemma and_then_simps [simp]:
  "and_then (Done a) f = f a" "and_then Asleep f = Some Asleep" "and_then (Halted s) f = Some (Halted s)"
  by (simp_all add: and_then_def)

section \<open>Reading a line\<close>

partial_function (option) readline_from ::
  "layout \<Rightarrow> user_layout \<Rightarrow> u64 \<Rightarrow> nat \<Rightarrow> nat \<Rightarrow> 'z kernel_scheme \<Rightarrow> regs list \<Rightarrow> (nat, 'z) action option" where
  [code]: "readline_from L U buf mx i s es =
     and_then (getchar L U s es) (\<lambda>(c, s, es).
       if c < 0 then readline_from L U buf mx i s es
       else if c = 0x0D then readline_from L U buf mx i s es
       else if c = 0x0A then
         and_then (putchar L U 0x0A s es) (\<lambda>(r, s, es). Some (Done (i, store (buf + of_nat i) 0 s, es)))
       else if c = 0x08 \<or> c = 127 then
         (if i > 0 then
            and_then (putchar L U 0x08 s es) (\<lambda>(r, s, es).
            and_then (putchar L U 0x20 s es) (\<lambda>(r, s, es).
            and_then (putchar L U 0x08 s es) (\<lambda>(r, s, es). readline_from L U buf mx (i - 1) s es)))
          else readline_from L U buf mx i s es)
       else if i < mx - 1 then
         and_then (putchar L U (of_int c) (store (buf + of_nat i) (of_int c) s) es) (\<lambda>(r, s, es).
           readline_from L U buf mx (i + 1) s es)
       else readline_from L U buf mx i s es)"

definition readline :: "layout \<Rightarrow> user_layout \<Rightarrow> u64 \<Rightarrow> nat \<Rightarrow> 'z kernel_scheme \<Rightarrow> regs list \<Rightarrow> (nat, 'z) action option" where
  "readline L U buf mx = readline_from L U buf mx 0"

section \<open>Splitting a line\<close>

definition blank :: "u8 \<Rightarrow> bool" where "blank c \<longleftrightarrow> c = 0x20 \<or> c = 0x09"

partial_function (option) skip_blanks :: "mem \<Rightarrow> u64 \<Rightarrow> u64 option" where
  [code]: "skip_blanks m p = (if blank (m p) then skip_blanks m (p + 1) else Some p)"

partial_function (option) skip_word :: "mem \<Rightarrow> u64 \<Rightarrow> u64 option" where
  [code]: "skip_word m p = (if m p \<noteq> 0 \<and> \<not> blank (m p) then skip_word m (p + 1) else Some p)"

text \<open>The loop of \<^verbatim>\<open>tokenize\<close>; \<open>argv\<close> are the first \<^verbatim>\<open>argc\<close> entries of the array.\<close>

partial_function (option) tokenize_from :: "nat \<Rightarrow> u64 list \<Rightarrow> u64 \<Rightarrow> mem \<Rightarrow> (u64 list \<times> mem) option" where
  [code]: "tokenize_from mx argv p m =
     (if m p = 0 then Some (argv, m)
      else
        (case skip_blanks m p of
           None \<Rightarrow> None
         | Some p \<Rightarrow>
             if m p = 0 then Some (argv, m)
             else if length argv \<ge> mx - 1 then Some (argv, m)
             else
               (case skip_word m p of
                  None \<Rightarrow> None
                | Some q \<Rightarrow>
                    if m q \<noteq> 0 then tokenize_from mx (argv @ [p]) (q + 1) (m(q := 0))
                    else tokenize_from mx (argv @ [p]) q m)))"

text \<open>The array ends with a null pointer; \<^verbatim>\<open>argc\<close> is the number of entries before it.\<close>

definition tokenize :: "u64 \<Rightarrow> nat \<Rightarrow> mem \<Rightarrow> (nat \<times> u64 list \<times> mem) option" where
  "tokenize buf mx m = map_option (\<lambda>(argv, m). (length argv, argv @ [0], m)) (tokenize_from mx [] buf m)"

section \<open>Reading a line ends or waits for a key\<close>

lemma prints_kinput: "prints A out s s' \<Longrightarrow> kinput s' = kinput s"
proof -
  assume "prints A out s s'"
  then have "s' = s\<lparr>kterm := kterm s'\<rparr>" by (simp add: prints_def)
  then have "kinput s' = kinput (s\<lparr>kterm := kterm s'\<rparr>)" by (rule arg_cong)
  then show ?thesis by simp
qed

lemma prints_left: "prints A out s s' \<Longrightarrow> input_left s' es = input_left s es"
  by (simp add: input_left_def prints_kinput)

lemma putchar_then:
  assumes "kernel_ok s"
  shows "\<exists>s'. prints {a_char U} [c] s s' \<and> and_then (putchar L U c s es) (\<lambda>(r, s, es). k s es) = k s' es"
  using putchar_prints [OF assms, of L U c es] by auto

lemma erase_then:
  assumes "kernel_ok s"
  shows "\<exists>s'. prints {a_char U} [0x08, 0x20, 0x08] s s' \<and>
    and_then (putchar L U 0x08 s es) (\<lambda>(r, s, es). and_then (putchar L U 0x20 s es) (\<lambda>(r, s, es).
      and_then (putchar L U 0x08 s es) (\<lambda>(r, s, es). k s es))) = k s' es"
proof -
  obtain r1 s1 where 1: "putchar L U 0x08 s es = Done (r1, s1, es)" "prints {a_char U} [0x08] s s1"
    using putchar_prints [OF assms] by blast
  obtain r2 s2 where 2: "putchar L U 0x20 s1 es = Done (r2, s2, es)" "prints {a_char U} [0x20] s1 s2"
    using putchar_prints [OF prints_ok [OF 1(2)]] by blast
  obtain r3 s3 where 3: "putchar L U 0x08 s2 es = Done (r3, s3, es)" "prints {a_char U} [0x08] s2 s3"
    using putchar_prints [OF prints_ok [OF 2(2)]] by blast
  have "prints {a_char U} [0x08, 0x20, 0x08] s s3"
    using prints_append [OF prints_append [OF 1(2) 2(2)] 3(2)] by simp
  then show ?thesis using 1 2 3 by auto
qed

text \<open>
  What a key other than newline does to the length of the line, to the buffer and on the screen.
\<close>

definition erases :: "u8 \<Rightarrow> bool" where "erases c \<longleftrightarrow> c = 0x08 \<or> c = 127"

definition key_index :: "nat \<Rightarrow> nat \<Rightarrow> u8 \<Rightarrow> nat" where
  "key_index mx i c = (if c = 0x0D then i else if erases c then i - 1 else if i < mx - 1 then i + 1 else i)"

definition key_store :: "nat \<Rightarrow> u64 \<Rightarrow> nat \<Rightarrow> u8 \<Rightarrow> 'z kernel_scheme \<Rightarrow> 'z kernel_scheme" where
  "key_store mx buf i c s = (if c \<noteq> 0x0D \<and> \<not> erases c \<and> i < mx - 1 then store (buf + of_nat i) c s else s)"

definition key_echo :: "nat \<Rightarrow> nat \<Rightarrow> u8 \<Rightarrow> u8 list" where
  "key_echo mx i c =
     (if c = 0x0D then [] else if erases c then (if i > 0 then [0x08, 0x20, 0x08] else [])
      else if i < mx - 1 then [c] else [])"

lemma store_same: "same_machine s0 (store a b s) = same_machine s0 s"
  by (simp add: store_def same_machine_fields)

lemma key_store_same: "same_machine s0 s \<Longrightarrow> same_machine s0 (key_store mx buf i c s)"
  by (simp add: key_store_def store_same)

lemma key_store_ok: "kernel_ok s \<Longrightarrow> kernel_ok (key_store mx buf i c s)"
  by (simp add: key_store_def store_def)

lemma key_store_left: "input_left (key_store mx buf i c s) es = input_left s es"
  by (simp add: key_store_def store_def input_left_def set_kmem_def)

lemma byte_code: "int (unat c) = int k \<longleftrightarrow> c = of_nat k" if "k < 256" for c :: u8
  using that by (simp only: of_nat_eq_iff word_unat_eq_iff unat_of_nat) simp

lemma readline_newline:
  assumes "getchar L U s es = Done (int (unat (0x0A :: u8)), s1, es1)" "kernel_ok s1"
  shows "\<exists>s2. prints {a_char U} [0x0A] s1 s2 \<and>
    readline_from L U buf mx i s es = Some (Done (i, store (buf + of_nat i) 0 s2, es1))"
  using putchar_then [OF assms(2), where k = "\<lambda>s es. Some (Done (i, store (buf + of_nat i) 0 s, es))" and L = L and U = U and c = "0x0A" and es = es1] assms(1)
  by (subst readline_from.simps) simp

lemma readline_key:
  assumes "getchar L U s es = Done (int (unat c), s1, es1)" "kernel_ok s1" "c \<noteq> 0x0A"
  shows "\<exists>s2. prints {a_char U} (key_echo mx i c) (key_store mx buf i c s1) s2 \<and>
    readline_from L U buf mx i s es = readline_from L U buf mx (key_index mx i c) s2 es1"
proof -
  have codes: "int (unat c) = 13 \<longleftrightarrow> c = 0x0D" "int (unat c) = 10 \<longleftrightarrow> c = 0x0A" "int (unat c) = 8 \<longleftrightarrow> c = 0x08"
    "int (unat c) = 127 \<longleftrightarrow> c = 127" "of_int (int (unat c)) = c"
    using byte_code [of 13 c] byte_code [of 10 c] byte_code [of 8 c] byte_code [of 127 c] by simp_all
  have run: "readline_from L U buf mx i s es =
      (if c = 0x0D then readline_from L U buf mx i s1 es1
       else if erases c then
         (if i > 0 then
            and_then (putchar L U 0x08 s1 es1) (\<lambda>(r, s, es).
            and_then (putchar L U 0x20 s es) (\<lambda>(r, s, es).
            and_then (putchar L U 0x08 s es) (\<lambda>(r, s, es). readline_from L U buf mx (i - 1) s es)))
          else readline_from L U buf mx i s1 es1)
       else if i < mx - 1 then
         and_then (putchar L U c (store (buf + of_nat i) c s1) es1) (\<lambda>(r, s, es). readline_from L U buf mx (i + 1) s es)
       else readline_from L U buf mx i s1 es1)"
    using assms(1,3) by (subst readline_from.simps) (simp only: and_then_simps split codes erases_def if_False, simp)
  note nil = prints_nil [OF assms(2), of "{a_char U}"]
  have "kernel_ok (store (buf + of_nat i) c s1)" using assms(2) by (simp add: store_def)
  from putchar_then [OF this, of U c L es1 "readline_from L U buf mx (i + 1)"] erase_then [OF assms(2), of U L es1 "readline_from L U buf mx (i - 1)"]
  show ?thesis unfolding run key_index_def key_store_def key_echo_def using nil by auto
qed

text \<open>What a returned line is: shorter than the buffer and terminated, and at least one key was used.\<close>

definition line_read :: "u64 \<Rightarrow> nat \<Rightarrow> 'z kernel_scheme \<Rightarrow> regs list \<Rightarrow> (nat, 'z) action option \<Rightarrow> bool" where
  "line_read buf mx s es x \<longleftrightarrow> x = Some Asleep \<or>
     (\<exists>n s' es'. x = Some (Done (n, s', es')) \<and> n < mx \<and> kmem s' (buf + of_nat n) = 0 \<and> same_machine s s' \<and>
        (input_left s' es', input_left s es) \<in> uses_input)"

lemma uses_input_trans: "(a, b) \<in> uses_input \<Longrightarrow> (b, c) \<in> uses_input \<Longrightarrow> (a, c) \<in> uses_input"
  by (cases a, cases b, cases c) auto

lemma line_read_later:
  assumes "line_read buf mx s1 es1 x" "same_machine s s1" "(input_left s1 es1, input_left s es) \<in> uses_input"
  shows "line_read buf mx s es x"
  using assms(1) unfolding line_read_def
proof (elim disjE exE conjE)
  fix n s' es'
  assume "x = Some (Done (n, s', es'))" "n < mx" "kmem s' (buf + of_nat n) = 0" "same_machine s1 s'"
    "(input_left s' es', input_left s1 es1) \<in> uses_input"
  then show "x = Some Asleep \<or> (\<exists>n s' es'. x = Some (Done (n, s', es')) \<and> n < mx \<and> kmem s' (buf + of_nat n) = 0 \<and>
      same_machine s s' \<and> (input_left s' es', input_left s es) \<in> uses_input)"
    using uses_input_trans [OF _ assms(3)] same_machine_trans [OF assms(2)] by blast
qed simp

lemma uses_input_wf: "wf uses_input"
  by (intro wf_lex_prod wf_less_than)

lemma readline_from_live:
  "kernel_ok s \<Longrightarrow> i < mx \<Longrightarrow> line_read buf mx s es (readline_from L U buf mx i s es)"
proof (induction "input_left s es" arbitrary: s es i rule: wf_induct_rule [OF uses_input_wf])
  case (1 s es i)
  show ?case
  proof (cases "getchar L U s es = Asleep")
    case True
    then show ?thesis by (subst readline_from.simps) (simp add: line_read_def)
  next
    case False
    then obtain c :: u8 and s1 es1 where g: "getchar L U s es = Done (int (unat c), s1, es1)" and m: "same_machine s s1"
        and less: "(input_left s1 es1, input_left s es) \<in> uses_input"
      using getchar_cases [OF "1.prems"(1), of L U es] by blast
    have k1: "kernel_ok s1" using m by (simp add: same_machine_def)
    show ?thesis
    proof (cases "c = 0x0A")
      case True
      then obtain s2 where "prints {a_char U} [0x0A] s1 s2"
          "readline_from L U buf mx i s es = Some (Done (i, store (buf + of_nat i) 0 s2, es1))"
        using readline_newline [OF g [unfolded True] k1] by blast
      then show ?thesis using "1.prems"(2) less same_machine_trans [OF m prints_same] prints_left [of _ _ s1 s2 es1]
        by (auto simp: line_read_def store_same) (auto simp: store_def set_kmem_def input_left_def)
    next
      case False
      then obtain s2 where p: "prints {a_char U} (key_echo mx i c) (key_store mx buf i c s1) s2"
          and r: "readline_from L U buf mx i s es = readline_from L U buf mx (key_index mx i c) s2 es1"
        using readline_key [OF g k1] by blast
      have l: "(input_left s2 es1, input_left s es) \<in> uses_input"
        using less prints_left [OF p] by (simp add: key_store_left)
      have "key_index mx i c < mx" using "1.prems"(2) by (auto simp: key_index_def)
      with "1.hyps" [OF l prints_ok [OF p]] have "line_read buf mx s2 es1 (readline_from L U buf mx (key_index mx i c) s2 es1)" .
      then show ?thesis unfolding r
        by (rule line_read_later [OF _ same_machine_trans [OF key_store_same [OF m] prints_same [OF p]] l])
    qed
  qed
qed


section \<open>The line editor\<close>

definition edit_key :: "nat \<Rightarrow> u8 \<Rightarrow> u8 list \<Rightarrow> u8 list" where
  "edit_key mx c l =
     (if c = 0x0D then l else if erases c then butlast l else if length l < mx - 1 then l @ [c] else l)"

definition edit :: "nat \<Rightarrow> u8 list \<Rightarrow> u8 list" where "edit mx ks = fold (edit_key mx) ks []"

fun edit_echo :: "nat \<Rightarrow> u8 list \<Rightarrow> u8 list \<Rightarrow> u8 list" where
  "edit_echo mx l [] = []"
| "edit_echo mx l (c # ks) = key_echo mx (length l) c @ edit_echo mx (edit_key mx c l) ks"

lemma edit_key_length: "length (edit_key mx c l) = key_index mx (length l) c"
  by (auto simp: edit_key_def key_index_def)

lemma edit_key_short: "length l < mx \<Longrightarrow> length (edit_key mx c l) < mx"
  by (auto simp: edit_key_def)

text \<open>The terminal shows \<open>out\<close>, and of the memory only the screen and \<open>A\<close> change.\<close>

definition writes :: "u64 set \<Rightarrow> u8 list \<Rightarrow> terminal \<Rightarrow> terminal \<Rightarrow> bool" where
  "writes A out t t' \<longleftrightarrow> displays out t t' \<and> changes_within (screen_bytes t \<union> A) (tmem t) (tmem t')"

lemma writes_nil: "terminal_ok t \<Longrightarrow> writes A [] t t"
  by (simp add: writes_def displays_nil)

lemma writes_append: "writes A a t t1 \<Longrightarrow> writes A b t1 t2 \<Longrightarrow> writes A (a @ b) t t2"
proof -
  assume w: "writes A a t t1" "writes A b t1 t2"
  then have "screen_bytes t1 = screen_bytes t" by (simp add: writes_def displays_def screen_bytes_def)
  then show ?thesis using w displays_append [of a t t1 b t2] changes_within_step [of _ "tmem t" "tmem t1" "tmem t2"]
    by (simp add: writes_def)
qed

lemma writes_mono: "writes A out t t' \<Longrightarrow> A \<subseteq> B \<Longrightarrow> writes B out t t'"
  by (auto simp: writes_def changes_within_def)

lemma prints_writes: "prints A out s s' \<Longrightarrow> A \<inter> screen_bytes (kterm s) = {} \<Longrightarrow> writes A out (kterm s) (kterm s')"
  by (simp add: prints_def writes_def)

lemma store_writes:
  "kernel_ok s \<Longrightarrow> a \<in> A \<Longrightarrow> A \<inter> screen_bytes (kterm s) = {} \<Longrightarrow> writes A [] (kterm s) (kterm (store a b s))"
  using prints_writes [OF store_prints] by blast

lemma writes_keep: "writes A out t t' \<Longrightarrow> a \<notin> screen_bytes t \<Longrightarrow> a \<notin> A \<Longrightarrow> tmem t' a = tmem t a"
  by (simp add: writes_def changes_within_def)

lemma writes_screen: "writes A out t t' \<Longrightarrow> screen_bytes t' = screen_bytes t"
  by (simp add: writes_def displays_def screen_bytes_def)

text \<open>Where the program's buffers may be: apart from each other and from the screen.\<close>

definition line_buffer :: "user_layout \<Rightarrow> u64 \<Rightarrow> nat \<Rightarrow> terminal \<Rightarrow> bool" where
  "line_buffer U buf mx t \<longleftrightarrow> 0 < mx \<and> mx < 2 ^ 64 \<and> a_char U \<notin> region buf mx \<and>
     (insert (a_char U) (region buf mx)) \<inter> screen_bytes t = {}"

lemma line_buffer_writes: "line_buffer U buf mx t \<Longrightarrow> writes A out t t' \<Longrightarrow> line_buffer U buf mx t'"
  by (simp add: line_buffer_def writes_screen)

abbreviation editor_bytes :: "user_layout \<Rightarrow> u64 \<Rightarrow> nat \<Rightarrow> u64 set" where
  "editor_bytes U buf mx \<equiv> insert (a_char U) (region buf mx)"

lemma bytes_at_snoc:
  assumes "bytes_at m p bs" "length bs < 2 ^ 64"
  shows "bytes_at (m(p + of_nat (length bs) := c)) p (bs @ [c])"
proof -
  have "p + of_nat i \<noteq> p + of_nat (length bs)" if "i < length bs" for i
    using that assms(2) add_of_nat_inject [of i "length bs" p] by simp
  then have "bytes_at (m(p + of_nat (length bs) := c)) p bs" using assms(1) by (simp add: bytes_at_iff)
  then show ?thesis by (simp add: bytes_at_append)
qed

lemma key_stored:
  assumes s: "kernel_ok s" "line_buffer U buf mx (kterm s)" and l: "length l < mx" "bytes_at (kmem s) buf l"
  shows "writes (editor_bytes U buf mx) [] (kterm s) (kterm (key_store mx buf (length l) c s)) \<and>
    bytes_at (kmem (key_store mx buf (length l) c s)) buf (edit_key mx c l)"
proof (cases "c \<noteq> 0x0D \<and> \<not> erases c \<and> length l < mx - 1")
  case False
  have "bytes_at (kmem s) buf (butlast l)" using l(2) by (simp add: bytes_at_iff nth_butlast)
  then show ?thesis using False s l writes_nil by (auto simp: key_store_def edit_key_def kernel_ok_def)
next
  case True
  have mx: "mx < 2 ^ 64" using s(2) by (simp add: line_buffer_def)
  then have "buf + of_nat (length l) \<in> region buf mx" using l(1) by (intro in_region_add) simp_all
  then have w: "writes (editor_bytes U buf mx) [] (kterm s) (kterm (store (buf + of_nat (length l)) c s))"
    using s by (intro store_writes) (auto simp: line_buffer_def)
  have "bytes_at ((kmem s)(buf + of_nat (length l) := c)) buf (l @ [c])" using l mx by (intro bytes_at_snoc) simp_all
  then show ?thesis using True w by (simp add: key_store_def edit_key_def) (simp add: store_def set_kmem_def)
qed


text \<open>Printing does not touch the line.\<close>

lemma prints_line:
  assumes "prints {a_char U} out s s'" "line_buffer U buf mx (kterm s)" "bytes_at (kmem s) buf l" "length l \<le> mx"
  shows "writes (editor_bytes U buf mx) out (kterm s) (kterm s')" "bytes_at (kmem s') buf l"
proof -
  have w: "writes {a_char U} out (kterm s) (kterm s')" using assms(1,2) by (intro prints_writes) (auto simp: line_buffer_def)
  then show "writes (editor_bytes U buf mx) out (kterm s) (kterm s')" by (rule writes_mono) blast
  show "bytes_at (kmem s') buf l"
  proof (rule bytes_at_keep [OF assms(3,4)])
    show "kmem s' a = kmem s a" if "a \<in> region buf mx" for a
      using that writes_keep [OF w] assms(2) by (auto simp: line_buffer_def)
    show "mx < 2 ^ 64" using assms(2) by (simp add: line_buffer_def)
  qed
qed

text \<open>The editor on any source of keys.\<close>

context key_source
begin

lemma next_key:
  assumes "kernel_ok s" "line_buffer U buf mx (kterm s)" "ready s es" "keys s es = c # rest"
    and "bytes_at (kmem s) buf l" "length l < mx"
  shows "\<exists>s1 es1. getchar L U s es = Done (int (unat c), s1, es1) \<and> same_machine s s1 \<and> ready s1 es1 \<and>
    keys s1 es1 = rest \<and> writes (editor_bytes U buf mx) [] (kterm s) (kterm s1) \<and> bytes_at (kmem s1) buf l"
proof -
  obtain s' es1 where g: "getchar L U s es = Done (int (unat c), store (a_char U) c s', es1)" "same_machine s s'"
      "kterm s' = kterm s" "ready s' es1" "keys s' es1 = rest"
    using source_getchar [OF assms(1,3,4)] by blast
  have k: "kernel_ok s'" using g(2) by (simp add: same_machine_def)
  have p: "prints {a_char U} [] s' (store (a_char U) c s')" using store_prints [OF k] by simp
  show ?thesis
    using g prints_line [OF p, of buf mx l] same_machine_trans [OF g(2) prints_same [OF p]] source_store assms(2,5,6)
    by auto
qed

lemma edit_newline:
  assumes "kernel_ok s" "line_buffer U buf mx (kterm s)" "ready s es" "keys s es = 0x0A # rest"
    and l: "bytes_at (kmem s) buf l" "length l < mx"
  shows "\<exists>s' es'. readline_from L U buf mx (length l) s es = Some (Done (length l, s', es')) \<and> same_machine s s' \<and>
    bytes_at (kmem s') buf (l @ [0]) \<and> ready s' es' \<and> keys s' es' = rest \<and>
    writes (editor_bytes U buf mx) [0x0A] (kterm s) (kterm s')"
proof -
  let ?E = "editor_bytes U buf mx"
  obtain s1 es1 where g: "getchar L U s es = Done (int (unat (0x0A :: u8)), s1, es1)" and m1: "same_machine s s1"
      and k1: "ready s1 es1" "keys s1 es1 = rest" and w1: "writes ?E [] (kterm s) (kterm s1)" "bytes_at (kmem s1) buf l"
    using next_key [OF assms] by blast
  have ok: "kernel_ok s1" using m1 by (simp add: same_machine_def)
  obtain s2 where p: "prints {a_char U} [0x0A] s1 s2"
      and r: "readline_from L U buf mx (length l) s es = Some (Done (length l, store (buf + of_nat (length l)) 0 s2, es1))"
    using readline_newline [OF g ok] by blast
  have b1: "line_buffer U buf mx (kterm s1)" by (rule line_buffer_writes [OF assms(2) w1(1)])
  note w2 = prints_line [OF p b1 w1(2) less_imp_le [OF l(2)]]
  have b2: "line_buffer U buf mx (kterm s2)" by (rule line_buffer_writes [OF b1 w2(1)])
  then have mx: "mx < 2 ^ 64" by (simp add: line_buffer_def)
  then have "buf + of_nat (length l) \<in> region buf mx" using l(2) by (intro in_region_add) simp_all
  then have w3: "writes ?E [] (kterm s2) (kterm (store (buf + of_nat (length l)) 0 s2))"
    using b2 by (intro store_writes [OF prints_ok [OF p]]) (auto simp: line_buffer_def)
  have "bytes_at (kmem (store (buf + of_nat (length l)) 0 s2)) buf (l @ [0])"
    using bytes_at_snoc [OF w2(2)] l(2) mx by (simp add: store_def set_kmem_def)
  moreover have "same_machine s (store (buf + of_nat (length l)) 0 s2)"
    using same_machine_trans [OF m1 prints_same [OF p]] by (simp add: store_same)
  ultimately show ?thesis
    using r k1 source_prints [OF p] source_store writes_append [OF writes_append [OF w1(1) w2(1)] w3] by auto
qed

lemma edit_one_key:
  assumes "kernel_ok s" "line_buffer U buf mx (kterm s)" "ready s es" "keys s es = c # rest" "c \<noteq> 0x0A"
    and l: "bytes_at (kmem s) buf l" "length l < mx"
  shows "\<exists>s' es'. readline_from L U buf mx (length l) s es = readline_from L U buf mx (length (edit_key mx c l)) s' es' \<and>
    same_machine s s' \<and> bytes_at (kmem s') buf (edit_key mx c l) \<and> ready s' es' \<and> keys s' es' = rest \<and>
    writes (editor_bytes U buf mx) (key_echo mx (length l) c) (kterm s) (kterm s')"
proof -
  let ?E = "editor_bytes U buf mx" and ?l = "edit_key mx c l"
  obtain s1 es1 where g: "getchar L U s es = Done (int (unat c), s1, es1)" and m1: "same_machine s s1"
      and k1: "ready s1 es1" "keys s1 es1 = rest" and w1: "writes ?E [] (kterm s) (kterm s1)" "bytes_at (kmem s1) buf l"
    using next_key [OF assms(1-4) l] by blast
  have ok: "kernel_ok s1" using m1 by (simp add: same_machine_def)
  let ?s = "key_store mx buf (length l) c s1"
  obtain s2 where p: "prints {a_char U} (key_echo mx (length l) c) ?s s2"
      and r: "readline_from L U buf mx (length l) s es = readline_from L U buf mx (length ?l) s2 es1"
    using readline_key [OF g ok assms(5), of mx "length l" buf] by (auto simp: edit_key_length)
  have b1: "line_buffer U buf mx (kterm s1)" by (rule line_buffer_writes [OF assms(2) w1(1)])
  have w2: "writes ?E [] (kterm s1) (kterm ?s)" "bytes_at (kmem ?s) buf ?l"
    using key_stored [OF ok b1 l(2) w1(2)] by simp_all
  note w3 = prints_line [OF p line_buffer_writes [OF b1 w2(1)] w2(2) less_imp_le [OF edit_key_short [OF l(2)]]]
  have "ready ?s es1" "keys ?s es1 = rest" using k1 by (simp_all add: key_store_def source_store)
  then show ?thesis
    using r w3(2) source_prints [OF p] same_machine_trans [OF key_store_same [OF m1] prints_same [OF p]]
      writes_append [OF writes_append [OF w1(1) w2(1)] w3(1)] by auto
qed

lemma readline_from_edits:
  assumes "kernel_ok s" "line_buffer U buf mx (kterm s)" "ready s es" "keys s es = ks @ 0x0A # rest" "0x0A \<notin> set ks"
    and "bytes_at (kmem s) buf l" "length l < mx" "l' = fold (edit_key mx) ks l"
  shows "\<exists>s' es'. readline_from L U buf mx (length l) s es = Some (Done (length l', s', es')) \<and> same_machine s s' \<and>
    length l' < mx \<and> bytes_at (kmem s') buf (l' @ [0]) \<and> ready s' es' \<and> keys s' es' = rest \<and>
    writes (editor_bytes U buf mx) (edit_echo mx l ks @ [0x0A]) (kterm s) (kterm s')"
  using assms
proof (induction ks arbitrary: s es l)
  case Nil
  then show ?case using edit_newline [OF Nil.prems(1-3) _ Nil.prems(6,7)] by auto
next
  case (Cons c ks)
  let ?l = "edit_key mx c l"
  obtain s2 es2 where r: "readline_from L U buf mx (length l) s es = readline_from L U buf mx (length ?l) s2 es2"
      and s2: "same_machine s s2" "bytes_at (kmem s2) buf ?l" "ready s2 es2" "keys s2 es2 = ks @ 0x0A # rest"
      and w: "writes (editor_bytes U buf mx) (key_echo mx (length l) c) (kterm s) (kterm s2)"
    using edit_one_key [OF Cons.prems(1-3) _ _ Cons.prems(6,7), of c "ks @ 0x0A # rest"] Cons.prems(4,5) by auto
  have k2: "kernel_ok s2" using s2(1) by (simp add: same_machine_def)
  obtain s' es' where s': "readline_from L U buf mx (length ?l) s2 es2 = Some (Done (length l', s', es'))" "same_machine s2 s'"
      "length l' < mx" "bytes_at (kmem s') buf (l' @ [0])" "ready s' es'" "keys s' es' = rest"
      "writes (editor_bytes U buf mx) (edit_echo mx ?l ks @ [0x0A]) (kterm s2) (kterm s')"
    using Cons.IH [OF k2 line_buffer_writes [OF Cons.prems(2) w] s2(3,4) _ s2(2) edit_key_short [OF Cons.prems(7)]]
      Cons.prems(5,8) by auto
  then show ?case using r same_machine_trans [OF s2(1)] writes_append [OF w s'(7)] by auto
qed

end

section \<open>Splitting a line into words\<close>

function words :: "u8 list \<Rightarrow> u8 list list" where
  "words l =
     (let r = dropWhile blank l in
      if r = [] then [] else takeWhile (\<lambda>c. \<not> blank c) r # words (dropWhile (\<lambda>c. \<not> blank c) r))"
  by pat_completeness auto
termination
proof (relation "measure length", simp, goal_cases)
  case (1 l r)
  then obtain c r' where r: "r = c # r'" "\<not> blank c" by (metis dropWhile_eq_Cons_conv neq_Nil_conv)
  then have "length (dropWhile (\<lambda>c. \<not> blank c) r) \<le> length r'" by (simp add: length_dropWhile_le)
  also have "\<dots> < length l" using r(1) 1 length_dropWhile_le [of blank l] by simp
  finally show ?case using 1 by simp
qed

declare words.simps [simp del]

lemma words_blank: "blank b \<Longrightarrow> words (b # l) = words l"
  by (subst (1 2) words.simps) simp

lemma words_blanks: "\<forall>b \<in> set bl. blank b \<Longrightarrow> words (bl @ l) = words l"
  by (induction bl) (simp_all add: words_blank)

lemma words_Nil: "words [] = []"
  by (subst words.simps) simp

lemma words_word:
  assumes "w \<noteq> []" "\<forall>c \<in> set w. \<not> blank c" "r = [] \<or> blank (hd r)"
  shows "words (w @ r) = w # words r"
proof -
  have d: "dropWhile blank (w @ r) = w @ r" using assms(1,2) by (cases w) simp_all
  have t: "takeWhile (\<lambda>c. \<not> blank c) (w @ r) = w" "dropWhile (\<lambda>c. \<not> blank c) (w @ r) = r"
    using assms by (cases r; simp add: takeWhile_append dropWhile_append)+
  show ?thesis using assms(1) by (subst words.simps) (simp only: d Let_def t, simp)
qed

lemma skip_blanks_at:
  "bytes_at m p (bl @ c # r) \<Longrightarrow> \<forall>b \<in> set bl. blank b \<Longrightarrow> \<not> blank c \<Longrightarrow> skip_blanks m p = Some (p + of_nat (length bl))"
proof (induction bl arbitrary: p)
  case (Cons b bl)
  then have "skip_blanks m (p + 1) = Some (p + 1 + of_nat (length bl))" by simp
  then show ?case using Cons.prems by (subst skip_blanks.simps) (simp add: add.assoc)
qed (subst skip_blanks.simps, simp)

lemma skip_word_at:
  "bytes_at m p (w @ c # r) \<Longrightarrow> \<forall>b \<in> set w. b \<noteq> 0 \<and> \<not> blank b \<Longrightarrow> c = 0 \<or> blank c \<Longrightarrow> skip_word m p = Some (p + of_nat (length w))"
proof (induction w arbitrary: p)
  case (Cons b w)
  then have "skip_word m (p + 1) = Some (p + 1 + of_nat (length w))" by simp
  then show ?case using Cons.prems by (subst skip_word.simps) (simp add: add.assoc)
qed (subst skip_word.simps, auto)

text \<open>What \<^verbatim>\<open>tokenize\<close> leaves: pointers to the words, each terminated, inside the buffer \<open>A\<close>.\<close>

definition words_at :: "u64 set \<Rightarrow> mem \<Rightarrow> u64 list \<Rightarrow> u8 list list \<Rightarrow> bool" where
  "words_at A m ps ws \<longleftrightarrow> list_all2 (word_at A m) ps ws"

lemma blank_nonzero: "blank c \<Longrightarrow> c \<noteq> 0"
  by (auto simp: blank_def)

lemma bytes_at_outside:
  "bytes_at m p bs \<Longrightarrow> changes_within A m m' \<Longrightarrow> region p (length bs) \<inter> A = {} \<Longrightarrow> length bs < 2 ^ 64 \<Longrightarrow> bytes_at m' p bs"
  by (erule bytes_at_keep [of _ _ _ "length bs"]) (auto simp: changes_within_def)

text \<open>The parts of a line: blanks, a word, and the rest after the blank that ends the word.\<close>

lemma line_parts:
  obtains bl where "l = bl" "\<forall>b \<in> set bl. blank b"
  | bl w where "l = bl @ w" "\<forall>b \<in> set bl. blank b" "w \<noteq> []" "\<forall>c \<in> set w. \<not> blank c"
  | bl w b r where "l = bl @ w @ b # r" "\<forall>b \<in> set bl. blank b" "w \<noteq> []" "\<forall>c \<in> set w. \<not> blank c" "blank b"
proof -
  define bl r where "bl = takeWhile blank l" and "r = dropWhile blank l"
  define w q where "w = takeWhile (\<lambda>c. \<not> blank c) r" and "q = dropWhile (\<lambda>c. \<not> blank c) r"
  have l: "l = bl @ r" "r = w @ q" by (simp_all add: bl_def r_def w_def q_def)
  have bl: "\<forall>b \<in> set bl. blank b" "\<forall>c \<in> set w. \<not> blank c"
    unfolding bl_def w_def using set_takeWhileD [of _ blank l] set_takeWhileD [of _ "\<lambda>c. \<not> blank c" r] by blast+
  show thesis
  proof (cases "r = []")
    case True
    then show ?thesis using l bl that(1) by simp
  next
    case False
    then have "\<not> blank (hd r)" unfolding r_def by (rule hd_dropWhile)
    then have w: "w \<noteq> []" using False by (cases r) (simp_all add: w_def)
    show ?thesis
    proof (cases q)
      case Nil
      then show ?thesis using l bl w that(2) by simp
    next
      case (Cons b q')
      then have "blank b" using hd_dropWhile [of "\<lambda>c. \<not> blank c" r] by (simp add: q_def)
      then show ?thesis using l bl w that(3) [of bl w b q'] Cons by simp
    qed
  qed
qed

lemma bytes_at_hd: "bytes_at m p (bs @ r) \<Longrightarrow> bs \<noteq> [] \<Longrightarrow> m p = hd bs"
  by (cases bs) simp_all

lemma tokenize_end: "m p = 0 \<Longrightarrow> tokenize_from mx acc p m = Some (acc, m)"
  by (subst tokenize_from.simps) simp

lemma tokenize_blanks:
  assumes "bytes_at m p (bl @ [0])" "\<forall>b \<in> set bl. blank b"
  shows "tokenize_from mx acc p m = Some (acc, m)"
proof (cases "bl = []")
  case False
  have z: "m (p + of_nat (length bl)) = 0" using assms(1) by (simp add: bytes_at_append)
  have s: "skip_blanks m p = Some (p + of_nat (length bl))"
    using assms by (intro skip_blanks_at [of m p bl 0 "[]"]) (simp_all add: blank_def)
  have "m p \<noteq> 0" using bytes_at_hd [OF assms(1) False] assms(2) False blank_nonzero by (metis list.set_sel(1))
  then show ?thesis using s z by (subst tokenize_from.simps) simp
qed (use assms tokenize_end in simp)

lemma tokenize_word:
  assumes "bytes_at m p (bl @ w @ c # r)" and bl: "\<forall>b \<in> set bl. blank b" and w: "w \<noteq> []" "\<forall>b \<in> set w. b \<noteq> 0 \<and> \<not> blank b"
    and c: "c = 0 \<or> blank c" and p1: "p1 = p + of_nat (length bl)" and q: "q = p1 + of_nat (length w)"
  shows "tokenize_from mx acc p m =
    (if length acc \<ge> mx - 1 then Some (acc, m)
     else if c \<noteq> 0 then tokenize_from mx (acc @ [p1]) (q + 1) (m(q := 0)) else Some (acc @ [p1], m))"
proof -
  have m1: "bytes_at m p1 (w @ c # r)" using assms(1) p1 by (simp add: bytes_at_append)
  obtain x w' where x: "w = x # w'" using w(1) by (cases w) simp_all
  have wx: "m p1 = x" "x \<noteq> 0" "\<not> blank x" using m1 x w(2) by simp_all
  have z: "m p \<noteq> 0"
  proof (cases "bl = []")
    case False
    then show ?thesis using bytes_at_hd [OF assms(1) False] bl blank_nonzero by (metis list.set_sel(1))
  qed (use wx p1 in simp)
  have s: "skip_blanks m p = Some p1"
    unfolding p1 using assms(1) bl wx x by (intro skip_blanks_at [of m p bl x "w' @ c # r"]) simp_all
  have s': "skip_word m p1 = Some q" unfolding q using skip_word_at [OF m1 w(2) c] .
  have "m q = c" using m1 q by (simp add: bytes_at_append)
  then show ?thesis using z s s' wx tokenize_end [of m q] by (subst tokenize_from.simps) simp
qed

lemma cut_word:
  assumes "bytes_at m p (bl @ w @ b # r @ [0])" and len: "length (bl @ w @ b # r) < 2 ^ 64 - 1"
    and p1: "p1 = p + of_nat (length bl)" and q: "q = p1 + of_nat (length w)"
  shows "bytes_at (m(q := 0)) p1 (w @ [0])" "bytes_at (m(q := 0)) (q + 1) (r @ [0])"
    "changes_within (region p (length (bl @ w @ b # r))) m (m(q := 0))"
    "region (q + 1) (length r) \<subseteq> region p (length (bl @ w @ b # r))"
    "region p1 (length w + 1) \<inter> region (q + 1) (length r) = {}"
    "region (q + 1) (length r + 1) \<subseteq> region p (length (bl @ w @ b # r) + 1)"
    "region p1 (length w + 1) \<subseteq> region p (length (bl @ w @ b # r) + 1)"
proof -
  have qp: "q = p + of_nat (length bl + length w)" "q + 1 = p + of_nat (length bl + length w + 1)"
    by (simp_all add: q p1 add.assoc)
  have b: "bytes_at m p1 w" "bytes_at m (q + 1) (r @ [0])" using assms(1) by (simp_all add: bytes_at_append p1 q)
  show "bytes_at (m(q := 0)) p1 (w @ [0])" using bytes_at_snoc [OF b(1), of 0] len by (simp add: q)
  have "region q 1 \<inter> region (q + 1) (length (r @ [0])) = {}"
    using len by (subst qp(2), subst qp(1), intro region_offset_disjoint) simp_all
  moreover have "q \<in> region q 1" by (simp add: in_region_iff)
  ultimately have d: "region (q + 1) (length (r @ [0])) \<inter> {q} = {}" by blast
  have c: "changes_within {q} m (m(q := 0))" by (simp add: changes_within_def)
  show "bytes_at (m(q := 0)) (q + 1) (r @ [0])"
    by (rule bytes_at_outside [OF b(2) c d]) (use len in simp)
  have "q \<in> region p (length (bl @ w @ b # r))" unfolding qp using len by (intro in_region_add) simp_all
  then show "changes_within (region p (length (bl @ w @ b # r))) m (m(q := 0))" by (intro changes_within_upd) simp_all
  show "region (q + 1) (length r) \<subseteq> region p (length (bl @ w @ b # r))"
    unfolding qp(2) using len by (intro region_offset) simp_all
  show "region p1 (length w + 1) \<inter> region (q + 1) (length r) = {}"
    unfolding qp(2) p1 using len by (intro region_offset_disjoint) simp_all
  show "region (q + 1) (length r + 1) \<subseteq> region p (length (bl @ w @ b # r) + 1)"
    unfolding qp(2) using len by (intro region_offset) simp_all
  show "region p1 (length w + 1) \<subseteq> region p (length (bl @ w @ b # r) + 1)"
    unfolding p1 using len by (intro region_offset) simp_all
qed

lemma tokenize_from_words:
  assumes "bytes_at m p (l @ [0])" "0 \<notin> set l" "length l < 2 ^ 64 - 1" "region p (length l + 1) \<subseteq> A"
  shows "\<exists>ps m'. tokenize_from mx acc p m = Some (acc @ ps, m') \<and>
    words_at A m' ps (take (mx - 1 - length acc) (words l)) \<and> changes_within (region p (length l)) m m'"
  using assms
proof (induction "length l" arbitrary: l p m acc rule: less_induct)
  case less
  note prems = less.prems
  show ?case
  proof (cases l rule: line_parts)
    case (1 bl)
    then have "words l = []" "tokenize_from mx acc p m = Some (acc, m)"
      using words_blanks [of bl "[]"] words_Nil tokenize_blanks [of m p bl] prems(1) by simp_all
    then show ?thesis by (intro exI [of _ "[]"] exI [of _ m]) (simp add: words_at_def)
  next
    case (2 bl w)
    let ?p = "p + of_nat (length bl)"
    have w: "words l = [w]" using 2 words_blanks [of bl w] words_word [of w "[]"] words_Nil by simp
    have "region ?p (length w + 1) \<subseteq> region p (length l + 1)" using prems(3) 2(1) by (intro region_offset) simp_all
    moreover have "bytes_at m ?p (w @ [0])" using prems(1) 2 by (simp add: bytes_at_append add.assoc)
    ultimately have b: "word_at A m ?p w" using prems(4) by (auto simp: word_at_def)
    have nz: "\<forall>b \<in> set w. b \<noteq> 0 \<and> \<not> blank b" using prems(2) 2 by auto
    have "bytes_at m p (bl @ w @ 0 # [])" using prems(1) 2 by simp
    then have "tokenize_from mx acc p m = (if length acc \<ge> mx - 1 then Some (acc, m) else Some (acc @ [?p], m))"
      using tokenize_word [OF _ 2(2,3) nz _ refl refl, of m p 0 "[]" mx acc] by simp
    then show ?thesis using w b
      by (intro exI [of _ "if length acc \<ge> mx - 1 then [] else [?p]"] exI [of _ m]) (auto simp: words_at_def take_Cons')
  next
    case (3 bl w b r)
    let ?p = "p + of_nat (length bl)"
    let ?q = "?p + of_nat (length w)"
    have nz: "\<forall>b \<in> set w. b \<noteq> 0 \<and> \<not> blank b" "b \<noteq> 0" using prems(2) 3 by auto
    have b: "bytes_at m p (bl @ w @ b # r @ [0])" using prems(1) 3 by simp
    note run = tokenize_word [OF b 3(2,3) nz(1) disjI2 [OF 3(5)] refl refl, of mx acc]
    have ws: "words l = w # words r" using 3 words_blanks [of bl "w @ b # r"] words_word [of w "b # r"] words_blank [of b r] by simp
    show ?thesis
    proof (cases "length acc \<ge> mx - 1")
      case True
      then show ?thesis using run by (intro exI [of _ "[]"] exI [of _ m]) (simp add: words_at_def)
    next
      case False
      let ?m = "m(?q := 0)"
      have "length (bl @ w @ b # r) < 2 ^ 64 - 1" using prems(3) 3(1) by simp
      note cut = cut_word [OF b this refl refl, folded 3(1)]
      obtain ps m' where ps: "tokenize_from mx (acc @ [?p]) (?q + 1) ?m = Some ((acc @ [?p]) @ ps, m')"
          "words_at A m' ps (take (mx - 1 - length (acc @ [?p])) (words r))" "changes_within (region (?q + 1) (length r)) ?m m'"
        using less.hyps [OF _ cut(2) _ _ subset_trans [OF cut(6) prems(4)], of "acc @ [?p]"] prems(2,3) 3(1) by auto
      have "bytes_at m' ?p (w @ [0])" using bytes_at_outside [OF cut(1) ps(3)] cut(5) prems(3) 3(1) by simp
      then have "word_at A m' ?p w" using subset_trans [OF cut(7) prems(4)] by (simp add: word_at_def)
      moreover have "take (mx - 1 - length acc) (words l) = w # take (mx - 1 - length (acc @ [?p])) (words r)"
        using False ws by (simp add: take_Cons')
      moreover have "changes_within (region p (length l)) m m'" using changes_within_trans [OF cut(3) ps(3) _ cut(4)] by simp
      ultimately show ?thesis using run False nz(2) ps(1,2) by (intro exI [of _ "?p # ps"] exI [of _ m']) (simp add: words_at_def)
    qed
  qed
qed


text \<open>Words and the line that has them, one blank between two, determine each other.\<close>

fun join :: "u8 list list \<Rightarrow> u8 list" where
  "join [] = []"
| "join [w] = w"
| "join (w # v # ws) = w @ 0x20 # join (v # ws)"

lemma words_join: "\<forall>w \<in> set ws. w \<noteq> [] \<and> (\<forall>c \<in> set w. \<not> blank c) \<Longrightarrow> words (join ws) = ws"
proof (induction ws rule: join.induct)
  case (2 w)
  then show ?case using words_word [of w "[]"] words_Nil by simp
next
  case (3 w v ws)
  have "words (w @ 0x20 # join (v # ws)) = w # words (0x20 # join (v # ws))"
    using 3 by (intro words_word) (simp_all add: blank_def)
  then show ?case using 3 words_blank [of "0x20"] by (simp add: blank_def)
qed (simp add: words_Nil)

lemma words_are_words: "w \<in> set (words l) \<Longrightarrow> w \<noteq> [] \<and> length w \<le> length l \<and> set w \<subseteq> {c \<in> set l. \<not> blank c}"
proof (induction l arbitrary: w rule: words.induct)
  case (1 l)
  let ?r = "dropWhile blank l"
  have r: "?r \<noteq> []" using "1.prems" by (subst (asm) words.simps) (auto simp: Let_def split: if_splits)
  then have "takeWhile (\<lambda>c. \<not> blank c) ?r \<noteq> []" using hd_dropWhile [OF r] by (cases ?r) simp_all
  moreover have "set ?r \<subseteq> set l" by (auto dest: set_dropWhileD)
  moreover have "set (dropWhile (\<lambda>c. \<not> blank c) ?r) \<subseteq> set ?r" by (auto dest: set_dropWhileD)
  moreover have "w = takeWhile (\<lambda>c. \<not> blank c) ?r \<or> w \<in> set (words (dropWhile (\<lambda>c. \<not> blank c) ?r))"
    using "1.prems" r by (subst (asm) words.simps) (auto simp: Let_def split: if_splits)
  moreover have "length (takeWhile (\<lambda>c. \<not> blank c) ?r) \<le> length l" "length (dropWhile (\<lambda>c. \<not> blank c) ?r) \<le> length l"
    using length_takeWhile_le [of _ ?r] length_dropWhile_le [of _ ?r] length_dropWhile_le [of blank l] by (meson order_trans)+
  ultimately show ?case using "1.IH" [OF refl r] by (fastforce dest: set_takeWhileD)
qed

lemma edit_set: "set (fold (edit_key mx) ks l) \<subseteq> set l \<union> set ks"
proof (induction ks arbitrary: l)
  case (Cons k ks)
  have "set (edit_key mx k l) \<subseteq> insert k (set l)" by (auto simp: edit_key_def dest: in_set_butlastD)
  then show ?case using Cons [of "edit_key mx k l"] by auto
qed simp

section \<open>Properties\<close>

text \<open>
  C39: when a line is waiting in the keyboard queue, \<^verbatim>\<open>readline\<close> returns the line that remains after erasing,
  without carriage returns and cut to the buffer, terminated and at most \<^verbatim>\<open>max - 1\<close> long; it echoes the edit,
  takes the keys of the line and no more from the queue, waits for no interrupt, and writes nothing but the
  buffer, the character on its stack and the screen.
\<close>

theorem readline_edits:
  assumes "kernel_ok s" "line_buffer U buf mx (kterm s)" "pending (kinput s) = ks @ 0x0A # rest" "0x0A \<notin> set ks"
  shows "\<exists>s'. readline L U buf mx s es = Some (Done (length (edit mx ks), s', es)) \<and> kernel_ok s' \<and>
    length (edit mx ks) < mx \<and> bytes_at (kmem s') buf (edit mx ks @ [0]) \<and> pending (kinput s') = rest \<and>
    writes (editor_bytes U buf mx) (edit_echo mx [] ks @ [0x0A]) (kterm s) (kterm s')"
proof -
  have "0 < mx" using assms(2) by (simp add: line_buffer_def)
  then show ?thesis
    using waiting.readline_from_edits [OF assms(1,2) refl assms(3,4), of "[]" "edit mx ks" L]
    by (auto simp: readline_def edit_def same_machine_def)
qed

text \<open>A kernel in which keys were typed.\<close>

definition demo_typed :: "u8 list \<Rightarrow> kernel" where
  "demo_typed ks = demo_running\<lparr>kinput := fold input_push ks empty_input\<rparr>"

lemma typed_input:
  "input_ok q \<Longrightarrow> length (pending q) + length ks < 256 \<Longrightarrow>
     input_ok (fold input_push ks q) \<and> pending (fold input_push ks q) = pending q @ ks"
proof (induction ks arbitrary: q)
  case (Cons k ks)
  have "pending (input_push k q) = pending q @ [k]" using Cons.prems by (simp add: iq.contents_push spec_push_def)
  then show ?case using Cons.IH [of "input_push k q"] Cons.prems by (simp add: input_ok_push)
qed simp

lemma demo_typed_ok:
  assumes "length ks < 256"
  shows "kernel_ok (demo_typed ks)" "pending (kinput (demo_typed ks)) = ks" "screen_bytes (kterm (demo_typed ks)) = vga_bytes"
proof -
  have e: "input_ok empty_input" "pending empty_input = []" by (simp_all add: input_ok_def empty_input_def pending_def)
  then have q: "input_ok (fold input_push ks empty_input)" "pending (fold input_push ks empty_input) = ks"
    using typed_input [OF e(1)] assms by simp_all
  then show "kernel_ok (demo_typed ks)" unfolding demo_typed_def by (intro kernel_ok_input demo_running_ok)
  show "pending (kinput (demo_typed ks)) = ks" using q(2) by (simp add: demo_typed_def)
  show "screen_bytes (kterm (demo_typed ks)) = vga_bytes"
    by (simp add: demo_typed_def demo_running_def irq_register_def demo_kernel_fields screen_bytes_def terminal_initial_def fb_initial_def)
qed

lemma demo_line: "mx \<le> 128 \<Longrightarrow> 0 < mx \<Longrightarrow> screen_bytes t = vga_bytes \<Longrightarrow> line_buffer demo_user 0x5000 mx t"
proof -
  assume mx: "mx \<le> 128" "0 < mx" "screen_bytes t = vga_bytes"
  have "region 0x5000 mx \<inter> vga_bytes = {}"
    using region_offset_disjoint [of 0 mx "0xB3000" 4000 "0x5000"] mx by (simp add: vga_bytes_def)
  moreover have "0x7000 \<notin> region 0x5000 mx" using mx by (simp add: in_region_iff)
  ultimately show ?thesis using mx by (simp add: line_buffer_def demo_user_def) (simp add: vga_bytes_def in_region_iff)
qed

theorem readline_edits_witness:
  "\<exists>s'. readline demo_layout demo_user 0x5000 8 (demo_typed [0x6C, 0x78, 0x08, 0x73, 0x0A]) [] = Some (Done (2, s', [])) \<and>
     bytes_at (kmem s') 0x5000 [0x6C, 0x73, 0]"
proof -
  let ?ks = "[0x6C, 0x78, 0x08, 0x73] :: u8 list"
  have d: "kernel_ok (demo_typed (?ks @ [0x0A]))" "pending (kinput (demo_typed (?ks @ [0x0A]))) = ?ks @ 0x0A # []"
    "line_buffer demo_user 0x5000 8 (kterm (demo_typed (?ks @ [0x0A])))"
    using demo_typed_ok [of "?ks @ [0x0A]"] by (simp_all add: demo_line)
  have "edit 8 ?ks = [0x6C, 0x73]" by (simp add: edit_def edit_key_def erases_def)
  then show ?thesis using readline_edits [OF d(1,3,2), of demo_layout "[]"] by auto
qed

text \<open>
  C40: \<^verbatim>\<open>tokenize\<close> of a terminated line returns and gives the words of the line, at most \<^verbatim>\<open>max - 1\<close> of them, in order: pointers
  into the line to terminated words, followed by a null pointer. It changes nothing outside the line.
\<close>

theorem tokenize_splits:
  assumes "bytes_at m buf (l @ [0])" "0 \<notin> set l" "length l < 2 ^ 64 - 1"
  shows "\<exists>argv m'. tokenize buf mx m = Some (length argv, argv @ [0], m') \<and>
    words_at (region buf (length l + 1)) m' argv (take (mx - 1) (words l)) \<and> changes_within (region buf (length l)) m m'"
  using tokenize_from_words [OF assms subset_refl, of mx "[]"] by (auto simp: tokenize_def)

theorem tokenize_splits_witness:
  "\<exists>p q m'. tokenize 0x5000 16 ((\<lambda>_. 0)(0x5000 := 0x20, 0x5001 := 0x61, 0x5002 := 0x09, 0x5003 := 0x20, 0x5004 := 0x62)) =
     Some (2, [p, q, 0], m') \<and> bytes_at m' p [0x61, 0] \<and> bytes_at m' q [0x62, 0]"
proof -
  let ?m = "(\<lambda>_. 0)(0x5000 := 0x20, 0x5001 := 0x61, 0x5002 := 0x09, 0x5003 := 0x20, 0x5004 := 0x62) :: mem"
  let ?l = "[0x20, 0x61, 0x09, 0x20, 0x62] :: u8 list"
  have "words ?l = [[0x61], [0x62]]" by (simp add: words.simps blank_def)
  moreover have "bytes_at ?m 0x5000 (?l @ [0])" by simp
  ultimately show ?thesis using tokenize_splits [of ?m "0x5000" ?l 16]
    by (auto simp: words_at_def word_at_def list_all2_Cons2)
qed

end
