(* ===== verification/Shell.thy ===== *)
theory Shell
  imports Lineedit
begin

text \<open>
  The shell, \<^verbatim>\<open>src/programs/shell/main.c\<close>: the table of commands, the commands and the loop of \<^verbatim>\<open>main\<close>. The array \<^verbatim>\<open>argv\<close>
  is a list; the line buffer and the \<^verbatim>\<open>sys_info\<close> are in memory.

  \<open>reply\<close> is what the shell prints for the words of a line; \<open>session\<close> is how a run of the shell can end.
\<close>

section \<open>Commands\<close>

abbreviation newline :: string where "newline \<equiv> [CHR 0x0A]"

definition print_info :: "layout \<Rightarrow> user_layout \<Rightarrow> 'z kernel_scheme \<Rightarrow> regs list \<Rightarrow> (unit, 'z) action" where
  "print_info L U s es =
     then_do (get_sys_info L (a_info U) s es) (\<lambda>(rc, s, es).
       if rc \<noteq> 0 then uprintf L U (''Failed to get system info'' @ newline) [] s es
       else
         let si = a_info U;
             total_sec = rd64 (kmem s) (si + 240) div 100;
             mins = total_sec div 60;
             secs = total_sec mod 60
         in then_do (uprintf L U (''OS:         RaryOS'' @ newline) [] s es) (\<lambda>(_, s, es).
            then_do (uprintf L U (''Host:       %s'' @ newline) [UStr si] s es) (\<lambda>(_, s, es).
            then_do (uprintf L U (''Kernel:     RaryOS v%s'' @ newline) [UStr (si + 192)] s es) (\<lambda>(_, s, es).
            then_do (uprintf L U (''Uptime:     %lu min %lu sec'' @ newline) [ULong mins, ULong secs] s es) (\<lambda>(_, s, es).
            then_do (uprintf L U (''Shell:      RaryTerminal v1.0'' @ newline) [] s es) (\<lambda>(_, s, es).
            then_do (uprintf L U (''Resolution: %ux%u'' @ newline)
              [UInt (rd32 (kmem s) (si + 224)), UInt (rd32 (kmem s) (si + 228))] s es) (\<lambda>(_, s, es).
            then_do (uprintf L U (''CPU:        %s'' @ newline) [UStr (si + 64)] s es) (\<lambda>(_, s, es).
            then_do (uprintf L U (''GPU:        %s'' @ newline) [UStr (si + 128)] s es) (\<lambda>(_, s, es).
            then_do (uprintf L U (''RAM:        %lu MB'' @ newline) [ULong (rd64 (kmem s) (si + 248))] s es) (\<lambda>(_, s, es).
              uprintf L U newline [] s es))))))))))"

datatype command = Cmd_help | Cmd_clear | Cmd_echo | Cmd_info | Cmd_shutdown | Cmd_reboot

record cmd =
  cmd_name :: string
  cmd_text :: string
  cmd_fn :: command

text \<open>The table without its null entry.\<close>

definition cmds :: "cmd list" where
  "cmds =
     [\<lparr>cmd_name = ''help'', cmd_text = ''show this help'', cmd_fn = Cmd_help\<rparr>,
      \<lparr>cmd_name = ''clear'', cmd_text = ''clear the screen'', cmd_fn = Cmd_clear\<rparr>,
      \<lparr>cmd_name = ''echo'', cmd_text = ''print arguments'', cmd_fn = Cmd_echo\<rparr>,
      \<lparr>cmd_name = ''info'', cmd_text = ''show system information'', cmd_fn = Cmd_info\<rparr>,
      \<lparr>cmd_name = ''shutdown'', cmd_text = ''power off the machine'', cmd_fn = Cmd_shutdown\<rparr>,
      \<lparr>cmd_name = ''reboot'', cmd_text = ''restart the machine'', cmd_fn = Cmd_reboot\<rparr>]"

fun help_lines :: "layout \<Rightarrow> user_layout \<Rightarrow> cmd list \<Rightarrow> 'z kernel_scheme \<Rightarrow> regs list \<Rightarrow> (unit, 'z) action" where
  "help_lines L U [] s es = Done ((), s, es)"
| "help_lines L U (c # cs) s es =
     then_do (uprintf L U (''  %s - %s'' @ newline) [ULit (cmd_name c), ULit (cmd_text c)] s es)
       (\<lambda>(_, s, es). help_lines L U cs s es)"

definition cmd_help :: "layout \<Rightarrow> user_layout \<Rightarrow> 'z kernel_scheme \<Rightarrow> regs list \<Rightarrow> (unit, 'z) action" where
  "cmd_help L U s es =
     then_do (uprintf L U (''Commands:'' @ newline) [] s es) (\<lambda>(_, s, es). help_lines L U cmds s es)"

definition cmd_clear :: "layout \<Rightarrow> 'z kernel_scheme \<Rightarrow> regs list \<Rightarrow> (unit, 'z) action" where
  "cmd_clear L s es = then_do (clear_screen L s es) (\<lambda>(_, s, es). Done ((), s, es))"

text \<open>The loop of \<^verbatim>\<open>cmd_echo\<close> over the arguments from the second on.\<close>

fun echo_args :: "layout \<Rightarrow> user_layout \<Rightarrow> nat \<Rightarrow> u64 list \<Rightarrow> 'z kernel_scheme \<Rightarrow> regs list \<Rightarrow> (unit, 'z) action" where
  "echo_args L U i [] s es = Done ((), s, es)"
| "echo_args L U i (p # ps) s es =
     then_do (if i > 1 then leaving () (putchar L U 0x20 s es) else Done ((), s, es)) (\<lambda>(_, s, es).
     then_do (write_string L p s es) (\<lambda>(_, s, es). echo_args L U (i + 1) ps s es))"

definition cmd_echo :: "layout \<Rightarrow> user_layout \<Rightarrow> nat \<Rightarrow> u64 list \<Rightarrow> 'z kernel_scheme \<Rightarrow> regs list \<Rightarrow> (unit, 'z) action" where
  "cmd_echo L U argc argv s es =
     then_do (echo_args L U 1 (drop 1 (take argc argv)) s es) (\<lambda>(_, s, es). leaving () (putchar L U 0x0A s es))"

definition cmd_shutdown :: "layout \<Rightarrow> user_layout \<Rightarrow> 'z kernel_scheme \<Rightarrow> regs list \<Rightarrow> (unit, 'z) action" where
  "cmd_shutdown L U s es =
     then_do (uprintf L U (''Shutting down...'' @ newline) [] s es) (\<lambda>(_, s, es).
     then_do (shutdown L s es) (\<lambda>(_, s, es). Done ((), s, es)))"

definition cmd_reboot :: "layout \<Rightarrow> user_layout \<Rightarrow> 'z kernel_scheme \<Rightarrow> regs list \<Rightarrow> (unit, 'z) action" where
  "cmd_reboot L U s es =
     then_do (uprintf L U (''Rebooting...'' @ newline) [] s es) (\<lambda>(_, s, es).
     then_do (reboot L s es) (\<lambda>(_, s, es). Done ((), s, es)))"

fun run_command ::
  "layout \<Rightarrow> user_layout \<Rightarrow> command \<Rightarrow> nat \<Rightarrow> u64 list \<Rightarrow> 'z kernel_scheme \<Rightarrow> regs list \<Rightarrow> (unit, 'z) action" where
  "run_command L U Cmd_help argc argv s es = cmd_help L U s es"
| "run_command L U Cmd_clear argc argv s es = cmd_clear L s es"
| "run_command L U Cmd_echo argc argv s es = cmd_echo L U argc argv s es"
| "run_command L U Cmd_info argc argv s es = print_info L U s es"
| "run_command L U Cmd_shutdown argc argv s es = cmd_shutdown L U s es"
| "run_command L U Cmd_reboot argc argv s es = cmd_reboot L U s es"

text \<open>\<^verbatim>\<open>strcmp\<close> of a literal with a string in memory.\<close>

fun strcmp_at :: "u8 list \<Rightarrow> mem \<Rightarrow> u64 \<Rightarrow> int" where
  "strcmp_at [] m p = 0 - int (unat (m p))"
| "strcmp_at (x # xs) m p =
     (if x \<noteq> 0 \<and> x = m p then strcmp_at xs m (p + 1) else int (unat x) - int (unat (m p)))"

fun find_command :: "cmd list \<Rightarrow> mem \<Rightarrow> u64 \<Rightarrow> command option" where
  "find_command [] m p = None"
| "find_command (c # cs) m p =
     (if strcmp_at (bytes_of (cmd_name c)) m p = 0 then Some (cmd_fn c) else find_command cs m p)"

definition run_line :: "layout \<Rightarrow> user_layout \<Rightarrow> nat \<Rightarrow> u64 list \<Rightarrow> 'z kernel_scheme \<Rightarrow> regs list \<Rightarrow> (unit, 'z) action" where
  "run_line L U argc argv s es =
     (case find_command cmds (kmem s) (argv ! 0) of
        Some f \<Rightarrow> run_command L U f argc argv s es
      | None \<Rightarrow> uprintf L U (''Unknown command: %s'' @ newline) [UStr (argv ! 0)] s es)"

section \<open>The main loop\<close>

abbreviation LINE_MAX :: nat where "LINE_MAX \<equiv> 128"
abbreviation ARGV_MAX :: nat where "ARGV_MAX \<equiv> 16"

partial_function (option) main_loop :: "layout \<Rightarrow> user_layout \<Rightarrow> 'z kernel_scheme \<Rightarrow> regs list \<Rightarrow> (unit, 'z) action option" where
  [code]: "main_loop L U s es =
     and_then (uprintf L U ''> '' [] s es) (\<lambda>(_, s, es).
       case readline L U (a_line U) LINE_MAX s es of
         None \<Rightarrow> None
       | Some x \<Rightarrow>
           and_then x (\<lambda>(n, s, es).
             if n = 0 then main_loop L U s es
             else
               (case tokenize (a_line U) ARGV_MAX (kmem s) of
                  None \<Rightarrow> None
                | Some (argc, argv, m) \<Rightarrow>
                    if argc = 0 then main_loop L U (set_kmem m s) es
                    else and_then (run_line L U argc argv (set_kmem m s) es) (\<lambda>(_, s, es). main_loop L U s es))))"

definition shell_main :: "layout \<Rightarrow> user_layout \<Rightarrow> 'z kernel_scheme \<Rightarrow> regs list \<Rightarrow> (unit, 'z) action option" where
  "shell_main L U s es =
     and_then (clear_screen L s es) (\<lambda>(_, s, es).
     and_then (print_info L U s es) (\<lambda>(_, s, es). main_loop L U s es))"

section \<open>The help text\<close>

definition help_line :: "cmd \<Rightarrow> string" where
  "help_line c = ''  '' @ cmd_name c @ '' - '' @ cmd_text c @ newline"

definition help_text :: string where
  "help_text = ''Commands:'' @ newline @ concat (map help_line cmds)"

lemma says_help_line:
  assumes "kernel_ok s" "NUL \<notin> set (cmd_name c)" "NUL \<notin> set (cmd_text c)"
  shows "says U (bytes_of (help_line c)) s es
    (uprintf L U (''  %s - %s'' @ newline) [ULit (cmd_name c), ULit (cmd_text c)] s es)"
proof -
  let ?args = "[ArgStr (cmd_name c @ [NUL]), ArgStr (cmd_text c @ [NUL])]"
  have z: "cstr (cmd_name c @ [NUL]) = cmd_name c" "cstr (cmd_text c @ [NUL]) = cmd_text c"
    using assms(2,3) cstr_append [of _ "[]"] by simp_all
  have "user_printf ((''  '' @ unparse (Conv (CHR ''s'')) @ '' - '' @ unparse (Conv (CHR ''s'')) @ newline) @ [NUL]) ?args =
      Some (''  '' @ cmd_name c @ '' - '' @ cmd_text c @ newline)"
    using z by (intro printf_two) (simp_all add: plain_def)
  then have "user_printf ((''  %s - %s'' @ newline) @ [NUL]) ?args = Some (help_line c)" by (simp add: help_line_def)
  then show ?thesis by (rule says_values [OF assms(1), rotated]) (simp add: z)
qed

lemma says_help_lines:
  "kernel_ok s \<Longrightarrow> \<forall>c \<in> set cs. NUL \<notin> set (cmd_name c) \<and> NUL \<notin> set (cmd_text c) \<Longrightarrow>
     says U (bytes_of (concat (map help_line cs))) s es (help_lines L U cs s es)"
proof (induction cs arbitrary: s)
  case Nil
  then show ?case using says_done by (simp add: bytes_of_def)
next
  case (Cons c cs)
  show ?case using says_then [OF says_help_line [OF Cons.prems(1)]] Cons by (simp add: prints_ok)
qed

lemma says_help: "kernel_ok s \<Longrightarrow> says U (bytes_of help_text) s es (cmd_help L U s es)"
proof -
  assume k: "kernel_ok s"
  have n: "\<forall>c \<in> set cmds. NUL \<notin> set (cmd_name c) \<and> NUL \<notin> set (cmd_text c)" by (simp add: cmds_def)
  have "says U (bytes_of (''Commands:'' @ newline)) s es (uprintf L U (''Commands:'' @ newline) [] s es)"
    by (rule says_plain [OF k]) (simp add: plain_def)
  then have "says U (bytes_of (''Commands:'' @ newline) @ bytes_of (concat (map help_line cmds))) s es (cmd_help L U s es)"
    unfolding cmd_help_def by (rule says_then) (simp add: says_help_lines [OF prints_ok n])
  then show ?thesis by (simp only: help_text_def bytes_of_append append_assoc)
qed


section \<open>Echo\<close>

lemma words_prints:
  assumes "words_at A (kmem s) ps ws" "\<forall>w \<in> set ws. short w" "prints (scratch U) out s s'" "outside (scratch U) A (kterm s)"
  shows "words_at A (kmem s') ps ws"
  using assms(1) unfolding words_at_def
proof (rule list.rel_mono_strong)
  show "word_at A (kmem s') p w" if "w \<in> set ws" "word_at A (kmem s) p w" for p w
    using that assms(2) word_prints [OF that(2) _ assms(3,4)] by blast
qed

fun echo_text :: "nat \<Rightarrow> u8 list list \<Rightarrow> u8 list" where
  "echo_text i [] = []"
| "echo_text i (w # ws) = (if i > 1 then [0x20] else []) @ w @ echo_text (i + 1) ws"

lemma echo_text_join: "1 < i \<Longrightarrow> ws \<noteq> [] \<Longrightarrow> echo_text i ws = 0x20 # join ws"
  by (induction ws arbitrary: i rule: join.induct) simp_all

lemma echo_text_first: "echo_text 1 ws = join ws"
proof (cases ws rule: join.cases)
  case (3 w v vs)
  then show ?thesis using echo_text_join [of 2 "v # vs"] by (simp add: numeral_2_eq_2)
qed simp_all

lemma says_echo_args:
  "kernel_ok s \<Longrightarrow> words_at A (kmem s) ps ws \<Longrightarrow> \<forall>w \<in> set ws. short w \<Longrightarrow> outside (scratch U) A (kterm s) \<Longrightarrow>
     says U (echo_text i ws) s es (echo_args L U i ps s es)"
proof (induction ps arbitrary: s ws i)
  case Nil
  then show ?case by (simp add: words_at_def says_done)
next
  case (Cons p ps)
  obtain w ws' where ws: "ws = w # ws'" using Cons.prems(2) by (auto simp: words_at_def list_all2_Cons1)
  let ?sp = "if i > 1 then [0x20] else [] :: u8 list"
  have sp: "says U ?sp s es (if i > 1 then leaving () (putchar L U 0x20 s es) else Done ((), s, es))"
    using says_putchar [OF Cons.prems(1)] says_done [OF Cons.prems(1)] by auto
  have "says U (w @ echo_text (i + 1) ws') s1 es
      (then_do (write_string L p s1 es) (\<lambda>(_, s, es). echo_args L U (i + 1) ps s es))"
    if p1: "prints (scratch U) ?sp s s1" for s1
  proof -
    note o1 = outside_prints [OF Cons.prems(4) p1]
    have w1: "words_at A (kmem s1) (p # ps) (w # ws')" using words_prints [OF Cons.prems(2,3) p1 Cons.prems(4)] ws by simp
    then have "word_at A (kmem s1) p w" by (simp add: words_at_def)
    moreover have "short w" using Cons.prems(3) ws by simp
    ultimately have "says U w s1 es (write_string L p s1 es)" by (rule says_word [OF prints_ok [OF p1] _ _ o1])
    then show ?thesis
    proof (rule says_then)
      fix s2 assume p2: "prints (scratch U) w s1 s2"
      have "words_at A (kmem s2) ps ws'"
        using words_prints [of A s1 ps ws' U w s2] w1 Cons.prems(3) p2 o1 ws by (simp add: words_at_def)
      then show "says U (echo_text (i + 1) ws') s2 es (case ((), s2, es) of (_, s, es) \<Rightarrow> echo_args L U (i + 1) ps s es)"
        using Cons.IH [OF prints_ok [OF p2], of ws' "i + 1"] outside_prints [OF o1 p2] Cons.prems(3) ws by simp
    qed
  qed
  then show ?case using says_then [OF sp] ws by simp
qed


section \<open>One round of the main loop\<close>

lemma byte_diff: "int (unat x) - int (unat y) = 0 \<longleftrightarrow> x = y" for x y :: u8
  by (simp only: right_minus_eq of_nat_eq_iff word_unat_eq_iff)

lemma strcmp_at_eq:
  "bytes_at m p (w @ [0]) \<Longrightarrow> 0 \<notin> set w \<Longrightarrow> 0 \<notin> set n \<Longrightarrow> strcmp_at n m p = 0 \<longleftrightarrow> n = w"
proof (induction n arbitrary: p w)
  case Nil
  then show ?case using byte_diff [of 0 "m p"] by (cases w) auto
next
  case (Cons x n)
  show ?case
  proof (cases w)
    case Nil
    then show ?thesis using Cons.prems byte_diff [of x "m p"] by auto
  next
    case (Cons y w')
    then show ?thesis using Cons.IH [of "p + 1" w'] Cons.prems byte_diff [of x "m p"] by auto
  qed
qed

definition command_names :: "cmd list \<Rightarrow> (u8 list \<times> command) list" where
  "command_names cs = map (\<lambda>c. (bytes_of (cmd_name c), cmd_fn c)) cs"

lemma find_command_eq:
  "bytes_at m p (w @ [0]) \<Longrightarrow> 0 \<notin> set w \<Longrightarrow> \<forall>c \<in> set cs. 0 \<notin> set (bytes_of (cmd_name c)) \<Longrightarrow>
     find_command cs m p = map_of (command_names cs) w"
  by (induction cs) (auto simp: command_names_def strcmp_at_eq)

lemma names_nonzero: "\<forall>c \<in> set cmds. 0 \<notin> set (bytes_of (cmd_name c))"
  by (simp add: cmds_def bytes_of_def)

text \<open>What the shell prints for a line with the given words, for the lines after which it goes on as before.\<close>

definition reply :: "u8 list list \<Rightarrow> u8 list option" where
  "reply ws =
     (case ws of
        [] \<Rightarrow> Some []
      | w # args \<Rightarrow>
          (case map_of (command_names cmds) w of
             None \<Rightarrow> Some (bytes_of ''Unknown command: '' @ w @ [0x0A])
           | Some Cmd_help \<Rightarrow> Some (bytes_of help_text)
           | Some Cmd_echo \<Rightarrow> Some (join (take 14 args) @ [0x0A])
           | _ \<Rightarrow> None))"

lemma says_echo:
  assumes "kernel_ok s" "words_at A (kmem s) (p # ps) (w # ws)" "\<forall>w \<in> set ws. short w" "outside (scratch U) A (kterm s)"
  shows "says U (join ws @ [0x0A]) s es (cmd_echo L U (length (p # ps)) ((p # ps) @ [0]) s es)"
proof -
  have "says U (join ws) s es (echo_args L U 1 ps s es)"
    using says_echo_args [OF assms(1) _ assms(3,4), of ps 1 es L] assms(2) by (simp add: words_at_def echo_text_first [unfolded One_nat_def])
  from says_then [OF this, of "[0x0A]" "\<lambda>(_, s, es). leaving () (putchar L U 0x0A s es)"] show ?thesis
    using says_putchar prints_ok by (simp add: cmd_echo_def) blast
qed

lemma says_run_line:
  assumes "kernel_ok s" "words_at A (kmem s) ps (take 15 ws)" "ws \<noteq> []" "\<forall>w \<in> set ws. short w" "outside (scratch U) A (kterm s)"
    and "reply ws = Some out"
  shows "says U out s es (run_line L U (length ps) (ps @ [0]) s es)"
proof -
  obtain w args where ws: "ws = w # args" using assms(3) by (cases ws) simp_all
  then have "take 15 ws = w # take 14 args" by simp
  then obtain p ps' where ps: "ps = p # ps'" and wa: "words_at A (kmem s) (p # ps') (w # take 14 args)"
    using assms(2) by (auto simp: words_at_def list_all2_Cons2)
  then have wp: "word_at A (kmem s) p w" by (simp add: words_at_def)
  then have b: "bytes_at (kmem s) p (w @ [0])" by (simp add: word_at_def)
  have w: "short w" "\<forall>w \<in> set (take 14 args). short w" using assms(4) ws by (auto dest: in_set_takeD)
  have f: "find_command cmds (kmem s) ((ps @ [0]) ! 0) = map_of (command_names cmds) w"
    using find_command_eq [OF b _ names_nonzero] w(1) ps by simp
  have u: "says U (bytes_of ''Unknown command: '' @ w @ bytes_of newline) s es
      (uprintf L U (''Unknown command: '' @ ''%s'' @ newline) [UStr p] s es)"
    by (rule says_string [OF assms(1) _ _ wp w(1) assms(5)]) (simp_all add: plain_def)
  have nl: "bytes_of newline = [0x0A]" by (simp add: bytes_of_def)
  show ?thesis
  proof (cases "map_of (command_names cmds) w")
    case None
    then show ?thesis using u f ps ws assms(6) by (simp add: run_line_def reply_def nl)
  next
    case (Some c)
    then show ?thesis using f ps ws assms(6) says_help [OF assms(1)] says_echo [OF assms(1) wa w(2) assms(5)]
      by (cases c) (auto simp: run_line_def reply_def)
  qed
qed


text \<open>What the program needs of its memory: the line buffer apart from what \<^verbatim>\<open>printf\<close> uses and from the screen.\<close>

definition shell_line :: "user_layout \<Rightarrow> terminal \<Rightarrow> bool" where
  "shell_line U t \<longleftrightarrow> line_buffer U (a_line U) LINE_MAX t \<and>
     region (a_buf U) 64 \<inter> (region (a_line U) LINE_MAX \<union> screen_bytes t) = {}"

lemma line_outside: "shell_line U t \<Longrightarrow> outside (scratch U) (region (a_line U) LINE_MAX) t"
  by (auto simp: shell_line_def line_buffer_def outside_def scratch_def)

lemma shell_line_screen: "shell_line U t \<Longrightarrow> screen_bytes t' = screen_bytes t \<Longrightarrow> shell_line U t'"
  by (simp add: shell_line_def line_buffer_def)

lemma shell_line_displays: "shell_line U t \<Longrightarrow> displays out t t' \<Longrightarrow> shell_line U t'"
  by (erule shell_line_screen) (simp add: displays_def screen_bytes_def)

lemma line_says:
  assumes "shell_line U (kterm s)" "prints (scratch U) out s s'"
  shows "displays out (kterm s) (kterm s') \<and> shell_line U (kterm s')"
proof -
  have "scratch U \<inter> screen_bytes (kterm s) = {}" using assms(1) by (auto simp: shell_line_def line_buffer_def scratch_def)
  then have "displays out (kterm s) (kterm s')" using assms(2) by (simp add: prints_def)
  then show ?thesis using shell_line_displays [OF assms(1)] by blast
qed

lemma says_prompt: "kernel_ok s \<Longrightarrow> says U (bytes_of ''> '') s es (uprintf L U ''> '' [] s es)"
  by (rule says_plain) (simp_all add: plain_def)

text \<open>A line in the buffer is split and carried out.\<close>

lemma line_carried_out:
  assumes "kernel_ok s" "shell_line U (kterm s)" "bytes_at (kmem s) (a_line U) (l @ [0])" "0 \<notin> set l"
    and "length l < LINE_MAX" "reply (words l) = Some out"
  shows "\<exists>argc argv m s'. tokenize (a_line U) ARGV_MAX (kmem s) = Some (argc, argv, m) \<and> (argc = 0 \<longleftrightarrow> words l = []) \<and>
    kernel_ok s' \<and> s' = s\<lparr>kterm := kterm s'\<rparr> \<and> displays out (kterm s) (kterm s') \<and>
    (if argc = 0 then s' = set_kmem m s else run_line L U argc argv (set_kmem m s) es = Done ((), s', es))"
proof -
  let ?A = "region (a_line U) LINE_MAX" and ?P = "a_line U"
  have "region ?P (length l + 1) \<subseteq> ?A" using assms(5) by (intro region_mono) simp
  then obtain ps m where tk: "tokenize_from ARGV_MAX [] ?P (kmem s) = Some (ps, m)"
      and ws: "words_at ?A m ps (take 15 (words l))" and ch: "changes_within (region ?P (length l)) (kmem s) m"
    using tokenize_from_words [OF assms(3,4), of ?A ARGV_MAX "[]"] assms(5) by auto
  have len: "length ps = min 15 (length (words l))" using ws by (auto simp: words_at_def dest: list_all2_lengthD)
  let ?s = "set_kmem m s"
  have k: "kernel_ok ?s" using assms(1) by simp
  have "outside (scratch U) ?A (kterm s)" using line_outside [OF assms(2)] .
  then have o1: "outside (scratch U) ?A (kterm ?s)" by (simp add: outside_def set_kmem_def screen_bytes_def split: if_splits)
  have d1: "displays [] (kterm s) (kterm ?s)"
    using displays_mem [OF _ ch] assms(1,2) region_mono [of "length l" LINE_MAX ?P] assms(5)
    by (auto simp: set_kmem_def kernel_ok_def shell_line_def line_buffer_def)
  have short: "\<forall>w \<in> set (words l). short w" using words_are_words [of _ l] assms(4,5) by fastforce
  show ?thesis
  proof (cases "words l = []")
    case True
    then show ?thesis using tk len k d1 assms(6) by (simp add: tokenize_def reply_def) (simp add: set_kmem_def)
  next
    case False
    have "says U out ?s es (run_line L U (length ps) (ps @ [0]) ?s es)"
      by (rule says_run_line [OF k _ False short o1 assms(6)]) (use ws in \<open>simp add: set_kmem_def\<close>)
    then obtain s' where r: "run_line L U (length ps) (ps @ [0]) ?s es = Done ((), s', es)" and p: "prints (scratch U) out ?s s'"
      unfolding says_def by blast
    have "shell_line U (kterm ?s)" by (rule shell_line_screen [OF assms(2)]) (simp add: set_kmem_def screen_bytes_def)
    then have "displays out (kterm s) (kterm s')" using line_says [OF _ p] displays_append [OF d1] by fastforce
    moreover have "s' = s\<lparr>kterm := kterm s'\<rparr>" using p by (simp add: prints_def) (simp add: set_kmem_def)
    moreover have "length ps \<noteq> 0" using len False by simp
    ultimately show ?thesis using tk r False prints_ok [OF p] by (simp add: tokenize_def)
  qed
qed

text \<open>What the screen shows of several lines typed one after the other.\<close>

fun transcript :: "u8 list list \<Rightarrow> u8 list option" where
  "transcript [] = Some []"
| "transcript (k # ks) =
     (case (reply (words (edit LINE_MAX k)), transcript ks) of
        (Some a, Some b) \<Rightarrow> Some ((bytes_of ''> '' @ edit_echo LINE_MAX [] k @ [0x0A] @ a) @ b)
      | _ \<Rightarrow> None)"

abbreviation typed_lines :: "u8 list list \<Rightarrow> u8 list" where
  "typed_lines ls \<equiv> concat (map (\<lambda>k. k @ [0x0A]) ls)"

text \<open>One round of the main loop, on any source of keys.\<close>

context key_source
begin

lemma shell_round:
  assumes "kernel_ok s" "shell_line U (kterm s)" "ready s es" "keys s es = ks @ 0x0A # rest"
    and "0x0A \<notin> set ks" "0 \<notin> set ks" "reply (words (edit LINE_MAX ks)) = Some out"
  shows "\<exists>s' es'. main_loop L U s es = main_loop L U s' es' \<and> kernel_ok s' \<and> ready s' es' \<and> keys s' es' = rest \<and>
    displays (bytes_of ''> '' @ edit_echo LINE_MAX [] ks @ [0x0A] @ out) (kterm s) (kterm s')"
proof -
  let ?l = "edit LINE_MAX ks"
  obtain s1 where pr: "uprintf L U ''> '' [] s es = Done ((), s1, es)" and p1: "prints (scratch U) (bytes_of ''> '') s s1"
    using says_prompt [OF assms(1)] unfolding says_def by blast
  have d1: "displays (bytes_of ''> '') (kterm s) (kterm s1)" and b1: "shell_line U (kterm s1)"
    using line_says [OF assms(2) p1] by auto
  have l1: "line_buffer U (a_line U) LINE_MAX (kterm s1)" using b1 by (simp add: shell_line_def)
  have q1: "ready s1 es" "keys s1 es = ks @ 0x0A # rest" using assms(3,4) source_prints [OF p1] by simp_all
  obtain s2 es2 where rl: "readline L U (a_line U) LINE_MAX s1 es = Some (Done (length ?l, s2, es2))" and k2: "kernel_ok s2"
      and l: "length ?l < LINE_MAX" "bytes_at (kmem s2) (a_line U) (?l @ [0])" and q2: "ready s2 es2" "keys s2 es2 = rest"
      and w: "writes (editor_bytes U (a_line U) LINE_MAX) (edit_echo LINE_MAX [] ks @ [0x0A]) (kterm s1) (kterm s2)"
    using readline_from_edits [OF prints_ok [OF p1] l1 q1 assms(5), of "[]" ?l]
    by (auto simp: readline_def edit_def same_machine_def)
  have d2: "displays (edit_echo LINE_MAX [] ks @ [0x0A]) (kterm s1) (kterm s2)" using w by (simp add: writes_def)
  have b2: "shell_line U (kterm s2)" by (rule shell_line_displays [OF b1 d2])
  have z: "0 \<notin> set ?l" using edit_set [of LINE_MAX ks "[]"] assms(6) by (auto simp: edit_def)
  obtain argc argv m s3 where tk: "tokenize (a_line U) ARGV_MAX (kmem s2) = Some (argc, argv, m)"
      and a0: "argc = 0 \<longleftrightarrow> words ?l = []" and k3: "kernel_ok s3" and i3: "s3 = s2\<lparr>kterm := kterm s3\<rparr>"
      and d3: "displays out (kterm s2) (kterm s3)"
      and r: "if argc = 0 then s3 = set_kmem m s2 else run_line L U argc argv (set_kmem m s2) es2 = Done ((), s3, es2)"
    using line_carried_out [OF k2 b2 l(2) z l(1) assms(7), of L es2] by blast
  show ?thesis
  proof (cases "length ?l = 0")
    case True
    then have "out = []" using assms(7) by (simp add: words_Nil reply_def)
    moreover have "main_loop L U s es = main_loop L U s2 es2" using pr rl True by (subst main_loop.simps) simp
    ultimately show ?thesis using k2 q2 displays_append [OF d1 d2] by auto
  next
    case False
    have "main_loop L U s es = main_loop L U s3 es2"
      using pr rl False tk r by (subst main_loop.simps) (cases "argc = 0"; simp)
    moreover have "ready s3 es2" "keys s3 es2 = rest" using q2 source_output [OF i3] by simp_all
    ultimately show ?thesis using k3 displays_append [OF displays_append [OF d1 d2] d3] by auto
  qed
qed

lemma shell_rounds:
  assumes "kernel_ok s" "shell_line U (kterm s)" "ready s es" "keys s es = typed_lines ls @ rest"
    and "\<forall>k \<in> set ls. 0x0A \<notin> set k \<and> 0 \<notin> set k" "transcript ls = Some out"
  shows "\<exists>s' es'. main_loop L U s es = main_loop L U s' es' \<and> kernel_ok s' \<and> ready s' es' \<and> keys s' es' = rest \<and>
    displays out (kterm s) (kterm s')"
  using assms
proof (induction ls arbitrary: s es out)
  case Nil
  then show ?case using displays_nil [of "kterm s"] by (auto simp: kernel_ok_def)
next
  case (Cons k ls)
  obtain a b where ab: "reply (words (edit LINE_MAX k)) = Some a" "transcript ls = Some b"
      "out = (bytes_of ''> '' @ edit_echo LINE_MAX [] k @ [0x0A] @ a) @ b"
    using Cons.prems(6) by (auto split: option.splits)
  obtain s1 es1 where r: "main_loop L U s es = main_loop L U s1 es1" "kernel_ok s1" "ready s1 es1"
      "keys s1 es1 = typed_lines ls @ rest"
      "displays (bytes_of ''> '' @ edit_echo LINE_MAX [] k @ [0x0A] @ a) (kterm s) (kterm s1)"
    using shell_round [OF Cons.prems(1-3) _ _ _ ab(1), of "typed_lines ls @ rest"] Cons.prems(4,5) by auto
  obtain s' es' where "main_loop L U s1 es1 = main_loop L U s' es'" "kernel_ok s'" "ready s' es'" "keys s' es' = rest"
      "displays b (kterm s1) (kterm s')"
    using Cons.IH [OF r(2) shell_line_displays [OF Cons.prems(2) r(5)] r(3,4) _ ab(2)] Cons.prems(5) by auto
  then show ?case using r(1) displays_append [OF r(5)] unfolding ab(3) by auto
qed

end

section \<open>The system information\<close>

definition returns :: "user_layout \<Rightarrow> 'z kernel_scheme \<Rightarrow> regs list \<Rightarrow> (unit, 'z) action \<Rightarrow> bool" where
  "returns U s es x \<longleftrightarrow> (\<exists>out. says U out s es x)"

text \<open>The strings of the \<^verbatim>\<open>sys_info\<close> are terminated and out of the way of the output.\<close>

definition info_ready :: "user_layout \<Rightarrow> 'z kernel_scheme \<Rightarrow> bool" where
  "info_ready U s \<longleftrightarrow> kernel_ok s \<and> outside (scratch U) (region (a_info U) 256) (kterm s) \<and>
     (\<forall>off \<in> {0, 64, 128, 192}. \<exists>k < 64. kmem s (a_info U + of_nat off + of_nat k) = 0)"

lemma info_ready_prints:
  assumes "info_ready U s" "prints (scratch U) out s s'"
  shows "info_ready U s'"
proof -
  have o: "outside (scratch U) (region (a_info U) 256) (kterm s)" using assms(1) by (simp add: info_ready_def)
  have "kmem s' (a_info U + of_nat off + of_nat k) = kmem s (a_info U + of_nat off + of_nat k)"
    if "off \<in> {0, 64, 128, 192}" "k < 64" for off k
  proof (rule prints_keep [OF assms(2) o])
    have "a_info U + of_nat (off + k) \<in> region (a_info U) 256" using that by (intro in_region_add) auto
    then show "a_info U + of_nat off + of_nat k \<in> region (a_info U) 256" by (simp add: add.assoc)
  qed
  then show ?thesis using assms(1) prints_ok [OF assms(2)] outside_prints [OF o assms(2)]
    unfolding info_ready_def by metis
qed

lemma info_then:
  assumes "info_ready U s" "returns U s es x" "\<And>s'. info_ready U s' \<Longrightarrow> returns U s' es (f ((), s', es))"
  shows "returns U s es (then_do x f)"
proof -
  obtain out where x: "says U out s es x" using assms(2) by (auto simp: returns_def)
  then obtain s' where s': "x = Done ((), s', es)" "prints (scratch U) out s s'" by (auto simp: says_def)
  then obtain out' where "says U out' s' es (f ((), s', es))"
    using assms(3) [OF info_ready_prints [OF assms(1) s'(2)]] by (auto simp: returns_def)
  then show ?thesis using s' prints_append [OF s'(2)] by (auto simp: returns_def says_def)
qed

lemma info_plain: "info_ready U s \<Longrightarrow> plain str \<Longrightarrow> returns U s es (uprintf L U str [] s es)"
  using says_plain unfolding returns_def info_ready_def by blast

lemma info_string:
  assumes "info_ready U s" "off \<in> {0, 64, 128, 192}" "plain a" "plain b"
  shows "returns U s es (uprintf L U (a @ ''%s'' @ b) [UStr (a_info U + of_nat off)] s es)"
proof -
  have s: "kernel_ok s" "outside (scratch U) (region (a_info U) 256) (kterm s)"
    using assms(1) by (simp_all add: info_ready_def)
  obtain k where k: "k < 64" "kmem s (a_info U + of_nat off + of_nat k) = 0"
    using assms(1,2) unfolding info_ready_def by blast
  have "region (a_info U + of_nat off) 64 \<subseteq> region (a_info U) 256" using assms(2) by (intro region_offset) auto
  then have "outside (scratch U) (region (a_info U + of_nat off) 64) (kterm s)" using s(2) by (auto simp: outside_def)
  from says_terminated [OF s(1) assms(3,4) k this] show ?thesis by (simp add: returns_def)
qed

lemma info_numbers:
  assumes "info_ready U s" "plain a" "plain b" "plain c"
  shows "returns U s es (uprintf L U (a @ ''%lu'' @ b @ ''%lu'' @ c) [ULong x, ULong y] s es)"
    "returns U s es (uprintf L U (a @ ''%u'' @ b @ ''%u'' @ c) [UInt v, UInt w] s es)"
    "returns U s es (uprintf L U (a @ ''%lu'' @ b) [ULong x] s es)"
proof -
  have k: "kernel_ok s" using assms(1) by (simp add: info_ready_def)
  have val: "returns U s es (uprintf L U fmt as s es)"
    if "args_are {} (kmem s) as args" "user_printf (fmt @ [NUL]) args = Some out" for fmt as args out
    using says_values [OF k that] unfolding returns_def by blast
  note two = printf_two [OF assms(2-4)]
  have "user_printf ((a @ ''%lu'' @ b @ ''%lu'' @ c) @ [NUL]) [ArgLong x, ArgLong y] =
      Some (a @ show_int user_digits (sint x) @ b @ show_int user_digits (sint y) @ c)"
    using two [of "LongConv (CHR ''u'')" "LongConv (CHR ''u'')" "ArgLong x" "ArgLong y"] by simp
  then show "returns U s es (uprintf L U (a @ ''%lu'' @ b @ ''%lu'' @ c) [ULong x, ULong y] s es)"
    by (rule val [rotated]) simp
  have "user_printf ((a @ ''%u'' @ b @ ''%u'' @ c) @ [NUL]) [ArgInt v, ArgInt w] =
      Some (a @ show_int user_digits (uint v) @ b @ show_int user_digits (uint w) @ c)"
    using two [of "Conv (CHR ''u'')" "Conv (CHR ''u'')" "ArgInt v" "ArgInt w"] by simp
  then show "returns U s es (uprintf L U (a @ ''%u'' @ b @ ''%u'' @ c) [UInt v, UInt w] s es)"
    by (rule val [rotated]) simp
  show "returns U s es (uprintf L U (a @ ''%lu'' @ b) [ULong x] s es)"
    by (rule val [OF _ printf_long [OF assms(2,3)]]) simp
qed

text \<open>The lines of \<^verbatim>\<open>print_info\<close>, each in the shape of these rules.\<close>

lemma info_lines:
  assumes "info_ready U s"
  shows "returns U s es (uprintf L U (''OS:         RaryOS'' @ newline) [] s es)"
    "returns U s es (uprintf L U (''Host:       %s'' @ newline) [UStr (a_info U)] s es)"
    "returns U s es (uprintf L U (''Kernel:     RaryOS v%s'' @ newline) [UStr (a_info U + 192)] s es)"
    "returns U s es (uprintf L U (''Uptime:     %lu min %lu sec'' @ newline) [ULong x, ULong y] s es)"
    "returns U s es (uprintf L U (''Shell:      RaryTerminal v1.0'' @ newline) [] s es)"
    "returns U s es (uprintf L U (''Resolution: %ux%u'' @ newline) [UInt v, UInt w] s es)"
    "returns U s es (uprintf L U (''CPU:        %s'' @ newline) [UStr (a_info U + 64)] s es)"
    "returns U s es (uprintf L U (''GPU:        %s'' @ newline) [UStr (a_info U + 128)] s es)"
    "returns U s es (uprintf L U (''RAM:        %lu MB'' @ newline) [ULong x] s es)"
    "returns U s es (uprintf L U newline [] s es)"
proof -
  have p: "plain newline" "plain ''Host:       ''" "plain ''Kernel:     RaryOS v''" "plain ''Uptime:     ''" "plain '' min ''"
    "plain ('' sec'' @ newline)" "plain ''Resolution: ''" "plain ''x''" "plain ''CPU:        ''" "plain ''GPU:        ''"
    "plain ''RAM:        ''" "plain ('' MB'' @ newline)" "plain (''OS:         RaryOS'' @ newline)"
    "plain (''Shell:      RaryTerminal v1.0'' @ newline)"
    by (simp_all add: plain_def)
  note str = info_string [OF assms _ _ p(1)] and num = info_numbers [OF assms]
  show "returns U s es (uprintf L U (''OS:         RaryOS'' @ newline) [] s es)"
    "returns U s es (uprintf L U (''Shell:      RaryTerminal v1.0'' @ newline) [] s es)"
    "returns U s es (uprintf L U newline [] s es)"
    by (intro info_plain [OF assms] p)+
  show "returns U s es (uprintf L U (''Host:       %s'' @ newline) [UStr (a_info U)] s es)" using str [OF _ p(2), of 0] by simp
  show "returns U s es (uprintf L U (''Kernel:     RaryOS v%s'' @ newline) [UStr (a_info U + 192)] s es)" using str [OF _ p(3), of 192] by simp
  show "returns U s es (uprintf L U (''CPU:        %s'' @ newline) [UStr (a_info U + 64)] s es)" using str [OF _ p(9), of 64] by simp
  show "returns U s es (uprintf L U (''GPU:        %s'' @ newline) [UStr (a_info U + 128)] s es)" using str [OF _ p(10), of 128] by simp
  show "returns U s es (uprintf L U (''Uptime:     %lu min %lu sec'' @ newline) [ULong x, ULong y] s es)"
    using num(1) [OF p(4-6)] by simp
  show "returns U s es (uprintf L U (''Resolution: %ux%u'' @ newline) [UInt v, UInt w] s es)" using num(2) [OF p(7,8,1)] by simp
  show "returns U s es (uprintf L U (''RAM:        %lu MB'' @ newline) [ULong x] s es)" using num(3) [OF p(11,12,1)] by simp
qed


definition user_ok :: "user_layout \<Rightarrow> terminal \<Rightarrow> bool" where
  "user_ok U t \<longleftrightarrow> shell_line U t \<and> a_info U \<noteq> 0 \<and> outside (scratch U) (region (a_info U) 256) t"

lemma user_ok_same: "same_machine s s' \<Longrightarrow> user_ok U (kterm s) \<Longrightarrow> user_ok U (kterm s')"
  by (simp add: same_machine_def user_ok_def shell_line_def line_buffer_def outside_def screen_bytes_def split: if_splits)

text \<open>
  An action that comes back without using up input, stops the machine, or is lost in the kernel's
  search of the board's tables.
\<close>

definition comes_back :: "'z kernel_scheme \<Rightarrow> regs list \<Rightarrow> (unit, 'z) action \<Rightarrow> bool" where
  "comes_back s es x \<longleftrightarrow> (\<exists>s'. x = Done ((), s', es) \<and> same_machine s s' \<and> kinput s' = kinput s) \<or> (\<exists>t. x = Halted t) \<or>
     x = Endless \<and> \<not> board_names_end (ksmbios s)"

lemma returns_comes_back: "returns U s es x \<Longrightarrow> comes_back s es x"
  using prints_same prints_kinput unfolding returns_def says_def comes_back_def by blast

lemma info_ready_filled:
  assumes "kernel_ok s" "user_ok U (kterm s)" "sys_info_filled (a_info U) s m"
  shows "info_ready U (set_kmem m s)"
proof -
  let ?i = "a_info U"
  have o: "outside (scratch U) (region ?i 256) (kterm (set_kmem m s))"
    using assms(2) by (simp add: user_ok_def outside_def set_kmem_def screen_bytes_def split: if_splits)
  have "m (?i + 128 + of_nat 7) = 0" "m (?i + 192 + of_nat 5) = 0"
    using assms(3) bytes_at_nth [of m "?i + 128" "bytes_of ''UNKNOWN'' @ [0]" 7]
      bytes_at_nth [of m "?i + 192" "kernel_version @ [0]" 5]
    by (simp_all add: sys_info_filled_def bytes_of_def kernel_version_def)
  then have "\<exists>k < 64. m (?i + 128 + of_nat k) = 0" "\<exists>k < 64. m (?i + 192 + of_nat k) = 0"
    by (intro exI [of _ 7], simp, intro exI [of _ 5], simp)
  then show ?thesis using assms(1,3) o unfolding info_ready_def by (simp add: sys_info_filled_def set_kmem_def [of m s]) (simp add: kernel_ok_mem [unfolded set_kmem_def])
qed

lemma print_info_comes_back:
  assumes "kernel_ok s" "user_ok U (kterm s)"
  shows "comes_back s es (print_info L U s es)"
proof (cases "get_sys_info L (a_info U) s es = Endless")
  case True
  then show ?thesis using get_sys_info_cases [OF assms(1), of "a_info U" L es] assms(2)
    by (auto simp: print_info_def comes_back_def user_ok_def)
next
  case False
  obtain m where g: "get_sys_info L (a_info U) s es = Done (0, set_kmem m s, es)" and f: "sys_info_filled (a_info U) s m"
    using get_sys_info_cases [OF assms(1), of "a_info U" L es] assms(2) False by (auto simp: user_ok_def)
  have "info_ready U (set_kmem m s)" by (rule info_ready_filled [OF assms f])
  then have "returns U (set_kmem m s) es (print_info L U s es)"
    unfolding print_info_def g then_do.simps Let_def split
    by (simp only: simp_thms if_False)
      ((rule info_then, assumption, rule info_lines, assumption, simp only: split)+, rule info_lines, assumption)
  from returns_comes_back [OF this] show ?thesis
    using assms(1) by (auto simp: comes_back_def same_machine_def set_kmem_def)
qed

section \<open>The shell goes on\<close>

lemma says_comes_back: "says U out s es x \<Longrightarrow> comes_back s es x"
  by (rule returns_comes_back [of U]) (auto simp: returns_def)

lemma clear_comes_back:
  assumes "kernel_ok s"
  shows "\<exists>s'. clear_screen L s es = Done (0, s', es) \<and> same_machine s s' \<and> kinput s' = kinput s"
proof -
  have "terminal_ok (kterm s)" using assms by (simp add: kernel_ok_def)
  then have "kernel_ok (s\<lparr>kterm := clear_terminal (kterm s)\<rparr>)" using kernel_ok_terminal [OF assms clear_ok] by blast
  then show ?thesis
    by (simp add: control_calls(1) [OF core_ok [OF assms]] same_machine_def) (simp add: clear_terminal_def)
qed

lemma says_ok: "says U out s es x \<Longrightarrow> \<exists>s'. x = Done ((), s', es) \<and> kernel_ok s'"
  using prints_ok by (auto simp: says_def)

lemma stop_comes_back:
  assumes "kernel_ok s"
  shows "comes_back s es (cmd_shutdown L U s es)" "comes_back s es (cmd_reboot L U s es)"
proof -
  have p: "plain (''Shutting down...'' @ newline)" "plain (''Rebooting...'' @ newline)" by (simp_all add: plain_def)
  obtain s1 where "uprintf L U (''Shutting down...'' @ newline) [] s es = Done ((), s1, es)" "kernel_ok s1"
    using says_ok [OF says_plain [OF assms p(1)]] by blast
  then show "comes_back s es (cmd_shutdown L U s es)"
    by (simp add: cmd_shutdown_def control_calls core_ok comes_back_def)
  obtain s2 where "uprintf L U (''Rebooting...'' @ newline) [] s es = Done ((), s2, es)" "kernel_ok s2"
    using says_ok [OF says_plain [OF assms p(2)]] by blast
  then show "comes_back s es (cmd_reboot L U s es)"
    by (simp add: cmd_reboot_def control_calls core_ok comes_back_def)
qed

lemma run_line_comes_back:
  assumes "kernel_ok s" "user_ok U (kterm s)"
    and wa: "words_at (region (a_line U) LINE_MAX) (kmem s) (p # ps) (w # ws)" "\<forall>v \<in> set (w # ws). short v"
  shows "comes_back s es (run_line L U (length (p # ps)) ((p # ps) @ [0]) s es)"
proof -
  have o: "outside (scratch U) (region (a_line U) LINE_MAX) (kterm s)" using assms(2) by (auto simp: user_ok_def intro: line_outside)
  have b: "word_at (region (a_line U) LINE_MAX) (kmem s) p w" using wa(1) by (simp add: words_at_def)
  have "says U (bytes_of ''Unknown command: '' @ w @ bytes_of newline) s es
      (uprintf L U (''Unknown command: '' @ ''%s'' @ newline) [UStr p] s es)"
    using wa(2) by (intro says_string [OF assms(1) _ _ b _ o]) (simp_all add: plain_def)
  note unknown = says_comes_back [OF this]
  obtain s1 where c: "clear_screen L s es = Done (0, s1, es)" "same_machine s s1" "kinput s1 = kinput s"
    using clear_comes_back [OF assms(1)] by blast
  have "says U (join ws @ [0x0A]) s es (cmd_echo L U (length (p # ps)) ((p # ps) @ [0]) s es)"
    using wa(2) by (intro says_echo [OF assms(1) wa(1) _ o]) simp
  note echo = says_comes_back [OF this]
  show ?thesis
  proof (cases "find_command cmds (kmem s) p")
    case None
    then show ?thesis using unknown by (simp add: run_line_def)
  next
    case (Some f)
    then have r: "run_line L U (length (p # ps)) ((p # ps) @ [0]) s es = run_command L U f (length (p # ps)) ((p # ps) @ [0]) s es"
      by (simp add: run_line_def)
    show ?thesis unfolding r
      using echo c print_info_comes_back [OF assms(1,2)] stop_comes_back [OF assms(1)] says_comes_back [OF says_help [OF assms(1)]]
      by (cases f) (simp_all add: cmd_clear_def comes_back_def [of s es "Done _"])
  qed
qed

text \<open>How a run ends: asleep for want of input, with the machine stopped, or lost in the board's tables \<open>k\<close>.\<close>

definition session :: "smbios \<Rightarrow> (unit, 'z) action option \<Rightarrow> bool" where
  "session k x \<longleftrightarrow> x = Some Asleep \<or> (\<exists>t. x = Some (Halted t)) \<or> x = Some Endless \<and> \<not> board_names_end k"

lemma line_comes_back:
  assumes "kernel_ok s" "user_ok U (kterm s)" "kmem s (a_line U + of_nat n) = 0" "n < LINE_MAX"
  shows "\<exists>argc argv m. tokenize (a_line U) ARGV_MAX (kmem s) = Some (argc, argv, m) \<and>
    (argc \<noteq> 0 \<longrightarrow> comes_back (set_kmem m s) es (run_line L U argc argv (set_kmem m s) es))"
proof -
  let ?A = "region (a_line U) LINE_MAX"
  obtain l where l: "bytes_at (kmem s) (a_line U) (l @ [0])" "0 \<notin> set l" "length l \<le> n"
    using terminated_bytes [of "kmem s" "a_line U" n] assms(3,4) by auto
  have "region (a_line U) (length l + 1) \<subseteq> ?A" using assms(4) l(3) by (intro region_mono) simp
  then obtain ps m where tk: "tokenize_from ARGV_MAX [] (a_line U) (kmem s) = Some (ps, m)"
      and ws: "words_at ?A m ps (take 15 (words l))"
    using tokenize_from_words [OF l(1,2), of ?A ARGV_MAX "[]"] assms(4) l(3) by auto
  have sh: "\<forall>w \<in> set (take 15 (words l)). short w" using words_are_words [of _ l] l(2,3) assms(4) by (fastforce dest: in_set_takeD)
  have "comes_back (set_kmem m s) es (run_line L U (length ps) (ps @ [0]) (set_kmem m s) es)" if ne: "length ps \<noteq> 0"
  proof -
    obtain p ps' where ps: "ps = p # ps'" using ne by (cases ps) simp_all
    then obtain w ws' where w: "take 15 (words l) = w # ws'" using ws by (auto simp: words_at_def list_all2_Cons1)
    have "user_ok U (kterm (set_kmem m s))"
      by (rule user_ok_same [OF _ assms(2)]) (use assms(1) in \<open>simp add: same_machine_fields same_machine_def [of s s]\<close>)
    then show ?thesis using run_line_comes_back [of "set_kmem m s" U p ps' w ws' es L] assms(1) ws sh
      unfolding ps w by (simp add: set_kmem_def [of m s]) (simp add: kernel_ok_mem [unfolded set_kmem_def])
  qed
  then show ?thesis using tk by (auto simp: tokenize_def)
qed


lemma main_loop_session:
  "kernel_ok s \<Longrightarrow> user_ok U (kterm s) \<Longrightarrow> session (ksmbios s) (main_loop L U s es)"
proof (induction "input_left s es" arbitrary: s es rule: wf_induct_rule [OF uses_input_wf])
  case (1 s es)
  obtain s1 where pr: "uprintf L U ''> '' [] s es = Done ((), s1, es)" and p1: "prints (scratch U) (bytes_of ''> '') s s1"
    using says_prompt [OF "1.prems"(1)] unfolding says_def by blast
  have "line_read (a_line U) LINE_MAX s1 es (readline L U (a_line U) LINE_MAX s1 es)"
    unfolding readline_def using prints_ok [OF p1] by (intro readline_from_live) simp_all
  then consider (sleep) "readline L U (a_line U) LINE_MAX s1 es = Some Asleep"
    | (line) n s2 es2 where "readline L U (a_line U) LINE_MAX s1 es = Some (Done (n, s2, es2))" "n < LINE_MAX"
        "kmem s2 (a_line U + of_nat n) = 0" "same_machine s1 s2" "(input_left s2 es2, input_left s1 es) \<in> uses_input"
    unfolding line_read_def by blast
  then show ?case
  proof cases
    case sleep
    then show ?thesis using pr by (subst main_loop.simps) (simp add: session_def)
  next
    case line
    have m2: "same_machine s s2" using same_machine_trans [OF prints_same [OF p1] line(4)] .
    have go: "session (ksmbios s) (main_loop L U s3 es2)" if "same_machine s2 s3" "kinput s3 = kinput s2" for s3
    proof -
      have m3: "same_machine s s3" using same_machine_trans [OF m2 that(1)] .
      have "(input_left s3 es2, input_left s es) \<in> uses_input"
        using line(5) prints_left [OF p1] that(2) by (simp add: input_left_def)
      from "1.hyps" [OF this _ user_ok_same [OF m3 "1.prems"(2)]] show ?thesis using m3 by (simp add: same_machine_def)
    qed
    have k2: "kernel_ok s2" "ksmbios s2 = ksmbios s" using m2 by (simp_all add: same_machine_def)
    obtain argc argv m where tk: "tokenize (a_line U) ARGV_MAX (kmem s2) = Some (argc, argv, m)"
        and cb: "argc \<noteq> 0 \<longrightarrow> comes_back (set_kmem m s2) es2 (run_line L U argc argv (set_kmem m s2) es2)"
      using line_comes_back [OF k2(1) user_ok_same [OF m2 "1.prems"(2)] line(3,2)] by blast
    have same: "same_machine s2 (set_kmem m s2)" using k2(1) by (simp add: same_machine_fields same_machine_def [of s2 s2])
    have run: "main_loop L U s es = (if n = 0 then main_loop L U s2 es2 else if argc = 0 then main_loop L U (set_kmem m s2) es2
        else and_then (run_line L U argc argv (set_kmem m s2) es2) (\<lambda>(_, s, es). main_loop L U s es))"
      using pr line(1) tk by (subst main_loop.simps) simp
    have "session (ksmbios s) (and_then (run_line L U argc argv (set_kmem m s2) es2) (\<lambda>(_, s, es). main_loop L U s es))" if a: "argc \<noteq> 0"
      using cb a unfolding comes_back_def
    proof (elim impE disjE exE conjE)
      fix s3 assume "run_line L U argc argv (set_kmem m s2) es2 = Done ((), s3, es2)" "same_machine (set_kmem m s2) s3"
        "kinput s3 = kinput (set_kmem m s2)"
      moreover have "kinput (set_kmem m s2) = kinput s2" by (simp add: set_kmem_def)
      ultimately show ?thesis using go [OF same_machine_trans [OF same]] by simp
    qed (use k2(2) in \<open>simp_all add: session_def and_then_def set_kmem_def\<close>)
    then show ?thesis unfolding run using go [OF _ refl] go [OF same] k2(1) by (simp add: same_machine_def) (simp add: set_kmem_def)
  qed
qed

lemma main_session:
  assumes "kernel_ok s" "user_ok U (kterm s)"
  shows "session (ksmbios s) (shell_main L U s es)"
proof -
  obtain s1 where c: "clear_screen L s es = Done (0, s1, es)" and m1: "same_machine s s1"
    using clear_comes_back [OF assms(1)] by blast
  then have k1: "kernel_ok s1" "ksmbios s1 = ksmbios s" by (simp_all add: same_machine_def)
  have "comes_back s1 es (print_info L U s1 es)"
    by (rule print_info_comes_back [OF k1(1) user_ok_same [OF m1 assms(2)]])
  then consider t where "print_info L U s1 es = Halted t" | "print_info L U s1 es = Endless" "\<not> board_names_end (ksmbios s)"
    | s2 where "print_info L U s1 es = Done ((), s2, es)" "same_machine s1 s2"
    unfolding comes_back_def k1(2) by blast
  then show ?thesis
  proof cases
    case (3 s2)
    have m2: "same_machine s s2" by (rule same_machine_trans [OF m1 3(2)])
    then have k2: "kernel_ok s2" "ksmbios s2 = ksmbios s" by (simp_all add: same_machine_def)
    have "session (ksmbios s) (main_loop L U s2 es)"
      using main_loop_session [OF k2(1) user_ok_same [OF m2 assms(2)]] unfolding k2(2) .
    then show ?thesis using c 3 by (simp add: shell_main_def)
  qed (use c in \<open>simp_all add: shell_main_def session_def and_then_def\<close>)
qed

section \<open>Properties\<close>


lemma demo_shell_line: "screen_bytes t = vga_bytes \<Longrightarrow> shell_line demo_user t"
proof -
  assume s: "screen_bytes t = vga_bytes"
  have "region 0x7100 64 \<inter> vga_bytes = {}" using demo_scratch by (simp add: scratch_def demo_user_def)
  moreover have "region 0x5000 LINE_MAX \<inter> region 0x7100 64 = {}"
    using region_offset_disjoint [of 0 LINE_MAX "0x2100" 64 "0x5000"] by simp
  ultimately show ?thesis using s demo_line [of LINE_MAX t] by (auto simp: shell_line_def demo_user_def)
qed

lemma demo_user_ok: "screen_bytes t = vga_bytes \<Longrightarrow> user_ok demo_user t"
proof -
  assume s: "screen_bytes t = vga_bytes"
  have "region 0x6000 256 \<inter> vga_bytes = {}"
    using region_offset_disjoint [of 0 256 "0xB2000" 4000 "0x6000"] by (simp add: vga_bytes_def)
  moreover have "region 0x6000 256 \<inter> region 0x7100 64 = {}"
    using region_offset_disjoint [of 0 256 "0x1100" 64 "0x6000"] by simp
  moreover have "0x7000 \<notin> region 0x6000 256" by (simp add: in_region_iff)
  ultimately show ?thesis using s demo_shell_line [OF s]
    by (auto simp: user_ok_def outside_def scratch_def demo_user_def)
qed

lemma demo_smbios: "board_names_end (ksmbios (demo_typed ks))"
  by (simp add: demo_typed_def demo_running_def irq_register_def demo_kernel_def effect_init_default_handlers_def
      effect_register_def Let_def usb.defs demo_usb_def board_names_end_def smbios_get_board_vendor_def
      smbios_get_board_name_def find_field_def)


text \<open>
  A line typed at the prompt is answered. From a state with a line in the keyboard queue the loop of \<^verbatim>\<open>main\<close>
  comes back to its start with the line removed from the queue, and the terminal has shown the prompt, the
  editing of the line and the answer: the arguments of \<^verbatim>\<open>echo\<close> (up to 14) with one blank between two, the
  table of \<^verbatim>\<open>help\<close>, the complaint about an unknown command with its name, and nothing for a blank line.
\<close>

theorem shell_answers:
  assumes "kernel_ok s" "shell_line U (kterm s)" "pending (kinput s) = ks @ 0x0A # rest"
    and "0x0A \<notin> set ks" "0 \<notin> set ks" "reply (words (edit LINE_MAX ks)) = Some out"
  shows "\<exists>s'. main_loop L U s es = main_loop L U s' es \<and> kernel_ok s' \<and> pending (kinput s') = rest \<and>
    displays (bytes_of ''> '' @ edit_echo LINE_MAX [] ks @ [0x0A] @ out) (kterm s) (kterm s')"
  using waiting.shell_round [OF assms(1,2) refl assms(3-6)] by auto

theorem shell_answers_witness:
  "let t = demo_typed (bytes_of ''echo  a b'' @ [0x0A]) in
   \<exists>s'. main_loop demo_layout demo_user t [] = main_loop demo_layout demo_user s' [] \<and>
     grid_of (kterm s') = fold (grid_putchar (terminal_color (kterm t)))
       (bytes_of ''> echo  a b'' @ [0x0A] @ bytes_of ''a b'' @ [0x0A]) (grid_of (kterm t))"
proof -
  let ?ks = "bytes_of ''echo  a b''" and ?t = "demo_typed (bytes_of ''echo  a b'' @ [0x0A])"
  have len: "length (?ks @ [0x0A]) < 256" by (simp add: bytes_of_def)
  have w: "edit LINE_MAX ?ks = ?ks" by (simp add: edit_def edit_key_def erases_def bytes_of_def)
  have "reply (words ?ks) = Some (bytes_of ''a b'' @ [0x0A])"
    by (simp add: reply_def words.simps blank_def bytes_of_def command_names_def cmds_def)
  then have r: "reply (words (edit LINE_MAX ?ks)) = Some (bytes_of ''a b'' @ [0x0A])" using w by simp
  have e: "edit_echo LINE_MAX [] ?ks = ?ks" by (simp add: bytes_of_def edit_key_def erases_def key_echo_def)
  have b: "shell_line demo_user (kterm ?t)" by (rule demo_shell_line [OF demo_typed_ok(3) [OF len]])
  have n: "0x0A \<notin> set ?ks" "0 \<notin> set ?ks" by (simp_all add: bytes_of_def)
  have vga: "\<not> fb_ok (tfb (kterm ?t))"
    by (simp add: demo_typed_def demo_running_def irq_register_def demo_kernel_fields terminal_initial_def fb_initial_def)
  from shell_answers [OF demo_typed_ok(1) [OF len] b _ n r, of "[]" demo_layout "[]"] show ?thesis
    using demo_typed_ok(2) [OF len] vga e by (fastforce simp: displays_def Let_def bytes_of_def)
qed

text \<open>The loop waits at its prompt when no more keys come.\<close>

lemma shell_falls_asleep:
  assumes "kernel_ok s" "timer_or_keyboard es" "typed s es = []"
  shows "main_loop L U s es = Some Asleep"
proof -
  obtain s1 where pr: "uprintf L U ''> '' [] s es = Done ((), s1, es)" and p1: "prints (scratch U) (bytes_of ''> '') s s1"
    using says_prompt [OF assms(1)] unfolding says_def by blast
  have "typed s1 es = []" using typing.source_prints(2) [OF p1] assms(3) by simp
  then have "getchar L U s1 es = Asleep" by (rule typing_asleep [OF prints_ok [OF p1] assms(2)])
  then have "readline L U (a_line U) LINE_MAX s1 es = Some Asleep"
    by (simp add: readline_def) (subst readline_from.simps, simp)
  then show ?thesis using pr by (subst main_loop.simps) simp
qed

lemma scan_keys_nonzero: "0 \<notin> set (concat (map scan_keys codes))"
  by (auto simp: scan_keys_def printable_code_def)


text \<open>
  A keyboard on which \<^verbatim>\<open>echo a\<close> and a newline are typed, with the releases of the keys, while the timer runs.
\<close>

definition demo_codes :: "u8 list" where
  "demo_codes = [0x12, 0x92, 0x2E, 0xAE, 0x23, 0xA3, 0x18, 0x98, 0x39, 0xB9, 0x1E, 0x9E, 0x1C]"

definition demo_keyboard :: kernel where
  "demo_keyboard = demo_running\<lparr>device := \<lambda>log _.
     ucast (demo_codes ! (count_list log (In8 0x60) - count_list (io_log demo_running) (In8 0x60)))\<rparr>"

lemma demo_keyboard_facts:
  "kernel_ok demo_keyboard" "keyboard demo_codes demo_keyboard" "pending (kinput demo_keyboard) = []"
  "screen_bytes (kterm demo_keyboard) = vga_bytes" "\<not> fb_ok (tfb (kterm demo_keyboard))"
proof -
  show "kernel_ok demo_keyboard"
    using kernel_ok_hw [OF demo_running_ok, of demo_keyboard] by (simp add: demo_keyboard_def)
  have "(ucast (ucast x :: u64) :: u8) = x" for x :: u8
    using unat_bound [of x] by (simp add: word_unat_eq_iff unat_ucast_mod)
  then show "keyboard demo_codes demo_keyboard" by (auto simp: keyboard_def demo_keyboard_def)
  have "kterm demo_keyboard = kterm (demo_typed [])" "kinput demo_keyboard = kinput (demo_typed [])"
    by (simp_all add: demo_keyboard_def demo_typed_def demo_running_def irq_register_def demo_kernel_fields)
  then show "pending (kinput demo_keyboard) = []" "screen_bytes (kterm demo_keyboard) = vga_bytes"
    "\<not> fb_ok (tfb (kterm demo_keyboard))"
    using demo_typed_ok(2,3) [of "[]"]
    by (simp_all add: demo_typed_def demo_running_def irq_register_def demo_kernel_fields terminal_initial_def fb_initial_def)
qed


end
