(* ===== verification/Spec2Isabelle.thy ===== *)
theory Spec2Isabelle
  imports Shell
begin

text \<open>
  RaryOS, a small 64-bit x86 operating system in C and C++ (\<^verbatim>\<open>src/\<close>): a model of its code and proofs that the
  code does what it is there for.

  \<^bold>\<open>The program.\<close> The boot loader enters \<^verbatim>\<open>kernel_main\<close> (\<^verbatim>\<open>kernel/kernel.c\<close>), which converts the boot
  information, sets up the screen, the interrupt tables and controllers, the page allocator and the heap,
  looks for firmware tables and a USB keyboard, starts a timer, loads the shell as an ELF image and enters
  user mode. From then on the kernel is driven by interrupts (timer, PS/2 and USB keyboards, which fill the
  input queue) and by system calls (\<^verbatim>\<open>int 0x80\<close>, handled by a chain of effect handlers) that write to the
  terminal, read the queue, and answer control requests. The shell reads lines, splits them and runs
  commands through a small C library.

  \<^bold>\<open>Theories, sources and what is shown\<close> (paths below \<^verbatim>\<open>src/\<close>):

  \<^item> \<open>Prelude\<close>, \<open>Memory\<close>, \<open>Bytes\<close>: machine words, counted loops with invariant rules, byte-addressed memory as
    a function on 64-bit addresses with reads and writes of 2, 4 and 8 bytes, \<^verbatim>\<open>memset\<close> and \<^verbatim>\<open>memcpy\<close>, byte strings.
  \<^item> \<open>Multiboot\<close> (\<^verbatim>\<open>boot/multiboot*.h\<close>, conversion in \<^verbatim>\<open>kernel/kernel.c\<close>): the boot information. The conversion
    refines a reading of the boot loader's tags as a list (\<open>boot_tag\<close>); the walk over them ends.
  \<^item> \<open>Pmm\<close> (\<^verbatim>\<open>kernel/memory/pmm.c\<close>): the bitmap of pages. Initialisation leaves exactly the available pages free,
    also when it is composed with the conversion and the pages are those of the boot loader's tags;
    allocation returns a free page or fails only when there is none; distinct pages; round trip with free.
  \<^item> \<open>Vmm\<close> (\<^verbatim>\<open>kernel/memory/vmm.c\<close>): four-level page tables as a tree in memory. The three mapping functions keep the tree,
    map exactly the requested page and report failure without harm.
  \<^item> \<open>Malloc\<close> (\<^verbatim>\<open>lib/malloc.cpp\<close>): the heap refines first fit with splitting and merging on a list of blocks.
  \<^item> \<open>Input\<close> (\<^verbatim>\<open>drivers/input.c\<close>): the ring buffer; the locale \<open>byte_queue\<close> is the interface, interpreted on it.
  \<^item> \<open>CString\<close>, \<open>Printf\<close> (\<^verbatim>\<open>lib/\<close> and \<^verbatim>\<open>user_libc/\<close>, \<^verbatim>\<open>string.c\<close>, \<^verbatim>\<open>stdlib.c\<close>, \<^verbatim>\<open>stdio.c\<close>): strings, \<^verbatim>\<open>itoa\<close>, \<^verbatim>\<open>printf\<close>. The locale
    \<open>format_library\<close> is interpreted for the kernel's and the user's conversions.
  \<^item> \<open>Font\<close>, \<open>Framebuffer\<close>, \<open>Terminal\<close> (\<^verbatim>\<open>kernel/graphics/\<close>): drawing changes the intended pixels and nothing
    else; the terminal keeps its cursor on the screen and refines a grid of cells in VGA mode.
  \<^item> \<open>Hardware\<close>, \<open>Idt\<close>, \<open>Irq\<close>, \<open>Lapic\<close> (\<^verbatim>\<open>arch/x86_64/\<close>): port and register accesses as a log, read as the interrupt
    controllers and the timer read them; descriptor table; table of interrupt handlers; local timer.
  \<^item> \<open>Console\<close>: printing in the kernel, sleeping in \<^verbatim>\<open>hlt\<close>, and the ways a function can end (\<open>outcome\<close>).
  \<^item> \<open>Smbios\<close>, \<open>Acpi\<close>, \<open>Elf\<close>, \<open>Pci\<close> (\<^verbatim>\<open>kernel/smbios/\<close>, \<^verbatim>\<open>arch/x86_64/acpi.c\<close>, \<^verbatim>\<open>kernel/elf.c\<close>, \<^verbatim>\<open>drivers/pci.cpp\<close>): the parsers find what a
    table laid out by its specification holds; the loader copies segments and clears the rest.
  \<^item> \<open>Usb\<close>, \<open>Driver\<close> (\<^verbatim>\<open>drivers/usb.cpp\<close>): the xHCI keyboard driver; event ring, key reports; the locale
    \<open>driver_invariant\<close> collects what the whole driver leaves alone, and is interpreted on the kernel's invariant.
  \<^item> \<open>Effect\<close> (\<^verbatim>\<open>kernel/effect.c\<close>, \<^verbatim>\<open>exception_handler\<close>), \<open>Kernel\<close> (interrupt handlers, \<^verbatim>\<open>lib/syscall.c\<close>), \<open>Boot\<close> (\<^verbatim>\<open>kernel_main\<close>,
    \<^verbatim>\<open>kernel/user/user.c\<close>): system calls, the invariant \<open>kernel_ok\<close> and its preservation in every state that
    interrupts and calls reach from the start (\<open>running\<close>); a read returns when a key is pressed.
  \<^item> \<open>Userlib\<close>, \<open>Userprint\<close> (\<^verbatim>\<open>user_libc/syscall.c\<close>, \<^verbatim>\<open>stdio.c\<close>): the C library's calls, and its \<^verbatim>\<open>printf\<close> as a sequence of system calls that
    shows the text of the format and touches only the screen and the stack of \<^verbatim>\<open>printf\<close>.
  \<^item> \<open>Typing\<close>, \<open>Lineedit\<close>, \<open>Shell\<close> (\<^verbatim>\<open>programs/shell/main.c\<close>): the line editor, the splitter and the commands, down to the cells of the screen. The locale \<open>key_source\<close> is where keys come from, interpreted
    on the queue and on a PS/2 keyboard that interrupts the machine, so that scan codes are followed to the answers on
    the screen; the shell always waits for the next key or has stopped the machine.

  \<^bold>\<open>Conventions.\<close> C integers are words of their width, pointers 64-bit words, memory a function. Static
  variables are fields of records that extend each other (\<open>hw\<close>, \<open>irq\<close>, \<open>console\<close>, \<open>lapic\<close>, \<open>usb\<close>, \<open>kernel\<close>); they are not in the
  memory, so a stray write through a pointer is seen to change memory but not them. The kernel's
  heap is a separate copy of the memory, since no part of the kernel uses it after its initialisation.
  Errors and undefined behaviour are values: \<open>None\<close> for a loop that does not end or an access outside an
  array, and the constructors of \<open>outcome\<close>. Loops with a counter end by definition; loops that search
  memory or wait are partial functions, and the properties prove that they return. No fuel is
  used except where the code itself limits its attempts (the polling loops of the drivers).

  \<^bold>\<open>The environment.\<close> What a device answers is the field \<open>device\<close>, a function of the accesses made so far; what the USB
  controller writes to memory is \<open>dma\<close>; \<^verbatim>\<open>cpuid\<close> is a function; addresses chosen by the linker are the
  records \<open>layout\<close> and \<open>user_layout\<close>. Interrupts are delivered where the kernel
  sleeps and, in the states \<open>running\<close>, between system calls.

  \<^bold>\<open>Known flaws.\<close> Some properties state what the code does where it is not what it means to do: a failing
  system call returns 0, the local timer is left masked,
  a huge request of \<^verbatim>\<open>malloc\<close> wraps to an empty area. The lemmas
  \<open>pmm_free_null_then_alloc_fails\<close>, \<open>printf_trailing_percent_overruns\<close> and \<open>printf_unsigned_long_signed\<close> show three more.

  \<^bold>\<open>Not modelled.\<close> The assembly files (\<^verbatim>\<open>boot/*.s\<close>, interrupt stubs, \<^verbatim>\<open>start.s\<close>): mode switches and saving of registers.
  Interrupts in the middle of kernel code that does not sleep: the code has no locks, and such
  interleavings would need a model below the level of C statements. Translation of addresses by the
  processor: memory accesses use the addresses of the code, while the page tables are data. Header constants the code
  does not use.
\<close>

end
